(* ===== verification/Prelude.thy ===== *)
theory Prelude
  imports Main "HOL-Library.Word" "HOL-Library.AList" "HOL-Library.Multiset"
begin

text \<open>
  Shared vocabulary of the development: the model's basic types, machine arithmetic written
  out over \<^typ>\<open>int\<close>, the result type that stands for C++ exceptions, association lists in
  the role of \<^verbatim>\<open>std::unordered_map\<close>, and the generic list lemmas the component theories use.
  It also holds the \<open>transition_system\<close> locale, the interface through which every state
  machine of the development obtains its reachable-state invariants.
\<close>

section \<open>Collections of facts\<close>

named_theorems result_simps \<open>equations for chained fallible calls\<close>
named_theorems inv_intros \<open>an operation keeps its component's invariant\<close>
named_theorems alist_simps \<open>association lists read as finite maps\<close>

section \<open>Types\<close>

type_synonym u64 = "64 word"
type_synonym byte = "8 word"
type_synonym bytes = "byte list"

text \<open>
  Clock readings. \<^verbatim>\<open>std::chrono::system_clock\<close> and \<^verbatim>\<open>steady_clock\<close> tick in nanoseconds;
  \<^verbatim>\<open>sys_seconds\<close> values are whole seconds.
\<close>

type_synonym nanos = int
type_synonym seconds = int

definition nanos_per_sec :: int where
  "nanos_per_sec = 1000000000"

lemma nanos_per_sec_pos [simp]: "0 < nanos_per_sec"
  by (simp add: nanos_per_sec_def)

section \<open>Machine arithmetic\<close>

text \<open>Signed 64-bit values are integers in range; arithmetic on them wraps.\<close>

definition int64_min :: int where
  "int64_min = - (2 ^ 63)"

definition int64_max :: int where
  "int64_max = 2 ^ 63 - 1"

definition is_int64 :: "int \<Rightarrow> bool" where
  "is_int64 i \<longleftrightarrow> int64_min \<le> i \<and> i \<le> int64_max"

definition is_int16 :: "int \<Rightarrow> bool" where
  "is_int16 i \<longleftrightarrow> - 32768 \<le> i \<and> i \<le> 32767"

definition wrap64 :: "int \<Rightarrow> int" where
  "wrap64 i = (i + 2 ^ 63) mod 2 ^ 64 - 2 ^ 63"

definition sub64 :: "int \<Rightarrow> int \<Rightarrow> int" where
  "sub64 a b = wrap64 (a - b)"

lemma wrap64_id: "is_int64 i \<Longrightarrow> wrap64 i = i"
  by (simp add: is_int64_def wrap64_def int64_min_def int64_max_def)

lemma wrap64_range: "is_int64 (wrap64 i)"
proof -
  have "0 \<le> (i + 2 ^ 63) mod 2 ^ 64" "(i + 2 ^ 63) mod 2 ^ 64 < 2 ^ 64"
    by (rule pos_mod_sign, simp, rule pos_mod_bound, simp)
  then show ?thesis
    by (simp add: is_int64_def wrap64_def int64_min_def int64_max_def)
qed

lemma wrap64_above:
  assumes "2 ^ 63 \<le> i" "i < 2 ^ 64 + 2 ^ 63"
  shows "wrap64 i = i - 2 ^ 64"
proof -
  have "(i + 2 ^ 63) mod 2 ^ 64 = (i + 2 ^ 63 - 2 ^ 64) mod 2 ^ 64"
    by (metis minus_mod_self2)
  also have "\<dots> = i + 2 ^ 63 - 2 ^ 64"
    using assms by (intro mod_pos_pos_trivial) simp_all
  finally show ?thesis
    by (simp add: wrap64_def)
qed

lemma wrap64_below:
  assumes "- (2 ^ 64 + 2 ^ 63) \<le> i" "i < - (2 ^ 63)"
  shows "wrap64 i = i + 2 ^ 64"
proof -
  have "(i + 2 ^ 63) mod 2 ^ 64 = (i + 2 ^ 63 + 2 ^ 64) mod 2 ^ 64"
    by (metis mod_add_self2)
  also have "\<dots> = i + 2 ^ 63 + 2 ^ 64"
    using assms by (intro mod_pos_pos_trivial) simp_all
  finally show ?thesis
    by (simp add: wrap64_def)
qed

text \<open>
  \<^verbatim>\<open>std::chrono::duration_cast\<close> divides with C++'s truncation towards zero;
  \<^verbatim>\<open>std::chrono::floor\<close> rounds down.
\<close>

definition trunc_div :: "int \<Rightarrow> int \<Rightarrow> int" where
  "trunc_div a b = sgn a * sgn b * (\<bar>a\<bar> div \<bar>b\<bar>)"

definition floor_seconds :: "nanos \<Rightarrow> seconds" where
  "floor_seconds t = t div nanos_per_sec"

lemma trunc_div_nonneg: "0 \<le> a \<Longrightarrow> 0 < b \<Longrightarrow> trunc_div a b = a div b"
  by (cases "a = 0") (simp_all add: trunc_div_def)

section \<open>Fallible computations\<close>

text \<open>
  A C++ function that may throw returns a sum: \<^const>\<open>Inl\<close> the exception, \<^const>\<open>Inr\<close> the
  value. \<open>bind_r\<close> sequences two such calls the way statements of a function body do.
\<close>

fun bind_r :: "'e + 'a \<Rightarrow> ('a \<Rightarrow> 'e + 'b) \<Rightarrow> 'e + 'b" where
  "bind_r (Inl e) k = Inl e"
| "bind_r (Inr x) k = k x"

fun require_r :: "'e \<Rightarrow> 'a option \<Rightarrow> 'e + 'a" where
  "require_r e None = Inl e"
| "require_r e (Some x) = Inr x"

definition guard_r :: "bool \<Rightarrow> 'e \<Rightarrow> 'e + unit" where
  "guard_r bad e = (if bad then Inl e else Inr ())"

lemma bind_r_Inr [result_simps]:
  "bind_r r k = Inr y \<longleftrightarrow> (\<exists>x. r = Inr x \<and> k x = Inr y)"
  by (cases r) auto

lemma bind_r_Inl [result_simps]:
  "bind_r r k = Inl e \<longleftrightarrow> r = Inl e \<or> (\<exists>x. r = Inr x \<and> k x = Inl e)"
  by (cases r) auto

lemma require_r_Inr [result_simps]: "require_r e m = Inr x \<longleftrightarrow> m = Some x"
  by (cases m) auto

lemma require_r_Inl [result_simps]: "require_r e m = Inl e' \<longleftrightarrow> m = None \<and> e' = e"
  by (cases m) auto

lemma guard_r_Inr [result_simps]: "guard_r bad e = Inr u \<longleftrightarrow> \<not> bad"
  by (simp add: guard_r_def)

lemma guard_r_Inl [result_simps]: "guard_r bad e = Inl e' \<longleftrightarrow> bad \<and> e' = e"
  by (auto simp: guard_r_def)

text \<open>A loop whose body may throw, collecting its results.\<close>

fun traverse_r :: "('a \<Rightarrow> 'e + 'b) \<Rightarrow> 'a list \<Rightarrow> 'e + 'b list" where
  "traverse_r f [] = Inr []"
| "traverse_r f (x # xs) = bind_r (f x) (\<lambda>y. bind_r (traverse_r f xs) (\<lambda>ys. Inr (y # ys)))"

lemma traverse_r_Inr [result_simps]:
  "traverse_r f xs = Inr ys \<longleftrightarrow> list_all2 (\<lambda>x y. f x = Inr y) xs ys"
  by (induction xs arbitrary: ys) (auto simp: bind_r_Inr list_all2_Cons1)

lemma traverse_r_set:
  assumes "traverse_r f xs = Inr ys" "y \<in> set ys"
  shows "\<exists>x \<in> set xs. f x = Inr y"
  using assms by (induction xs arbitrary: ys) (auto simp: bind_r_Inr)

lemma traverse_r_mem:
  assumes "traverse_r f xs = Inr ys" "x \<in> set xs" "f x = Inr y"
  shows "y \<in> set ys"
  using assms by (induction xs arbitrary: ys) (auto simp: bind_r_Inr)

lemma traverse_r_total: "(\<And>x. x \<in> set xs \<Longrightarrow> \<exists>y. f x = Inr y) \<Longrightarrow> \<exists>ys. traverse_r f xs = Inr ys"
  by (induction xs) (fastforce simp: bind_r_Inr)+

section \<open>Association lists as unordered maps\<close>

text \<open>
  An \<^verbatim>\<open>unordered_map\<close> is an association list with distinct keys; its order is the (unspecified)
  iteration order of the container, so a theorem over every list holds for every order.
  \<^verbatim>\<open>operator[]\<close> and \<^verbatim>\<open>insert_or_assign\<close> are \<open>AList.update\<close>, \<^verbatim>\<open>erase\<close> is \<open>AList.delete\<close>.
\<close>

abbreviation keys_distinct :: "('k \<times> 'v) list \<Rightarrow> bool" where
  "keys_distinct m \<equiv> distinct (map fst m)"

definition find_or :: "'v \<Rightarrow> ('k \<times> 'v) list \<Rightarrow> 'k \<Rightarrow> 'v" where
  "find_or d m k = (case map_of m k of None \<Rightarrow> d | Some v \<Rightarrow> v)"

lemma map_of_update_same [alist_simps]: "map_of (AList.update k v m) k = Some v"
  by (simp add: AList.update_conv')

lemma map_of_update_other [alist_simps]:
  "k' \<noteq> k \<Longrightarrow> map_of (AList.update k v m) k' = map_of m k'"
  by (simp add: AList.update_conv')

lemma map_of_delete_same [alist_simps]: "map_of (AList.delete k m) k = None"
  by (simp add: AList.delete_conv')

lemma map_of_delete_other [alist_simps]:
  "k' \<noteq> k \<Longrightarrow> map_of (AList.delete k m) k' = map_of m k'"
  by (simp add: AList.delete_conv')

lemma keys_distinct_update [alist_simps]:
  "keys_distinct m \<Longrightarrow> keys_distinct (AList.update k v m)"
  by (rule AList.distinct_update)

lemma keys_distinct_delete [alist_simps]:
  "keys_distinct m \<Longrightarrow> keys_distinct (AList.delete k m)"
  by (rule AList.distinct_delete)

lemma find_or_update_same [alist_simps]: "find_or d (AList.update k v m) k = v"
  by (simp add: find_or_def map_of_update_same)

lemma find_or_update_other [alist_simps]:
  "k' \<noteq> k \<Longrightarrow> find_or d (AList.update k v m) k' = find_or d m k'"
  by (simp add: find_or_def map_of_update_other)

lemma map_of_map_snd [alist_simps]:
  "map_of (map (\<lambda>(k, v). (k, f k v)) m) k = map_option (f k) (map_of m k)"
  by (induction m) auto

lemma map_fst_map_snd [simp]: "map fst (map (\<lambda>(k, v). (k, f k v)) m) = map fst m"
  by (induction m) auto

section \<open>Lists\<close>

lemma takeWhile_all_iff: "takeWhile P xs = xs \<longleftrightarrow> (\<forall>x \<in> set xs. P x)"
  by (induction xs) auto

lemma sorted_takeWhile_less_nth:
  fixes xs :: "'a :: linorder list"
  assumes "sorted xs" "i < length xs"
  shows "xs ! i < v \<longleftrightarrow> i < length (takeWhile (\<lambda>x. x < v) xs)"
  using assms
proof (induction xs arbitrary: i)
  case Nil
  then show ?case by simp
next
  case (Cons x xs)
  show ?case
  proof (cases i)
    case 0
    then show ?thesis by simp
  next
    case (Suc j)
    with Cons have IH: "xs ! j < v \<longleftrightarrow> j < length (takeWhile (\<lambda>x. x < v) xs)"
      by simp
    have "x \<le> xs ! j"
      using Cons.prems Suc by simp
    with IH Suc show ?thesis by auto
  qed
qed

lemma sorted_wrt_dropWhile:
  assumes "sorted_wrt R xs"
  shows "sorted_wrt R (dropWhile P xs)"
proof -
  have "sorted_wrt R (takeWhile P xs @ dropWhile P xs)"
    using assms by simp
  then show ?thesis
    unfolding sorted_wrt_append by blast
qed

lemma sorted_map_dropWhile: "sorted (map f xs) \<Longrightarrow> sorted (map f (dropWhile P xs))"
  by (simp add: sorted_map sorted_wrt_dropWhile)

lemma sorted_dropWhile_ge:
  fixes f :: "'a \<Rightarrow> 'b :: linorder"
  assumes "sorted (map f xs)" "e \<in> set (dropWhile (\<lambda>x. f x < c) xs)"
  shows "c \<le> f e"
  using assms by (induction xs) (fastforce split: if_splits)+

section \<open>State machines\<close>

text \<open>
  A component whose state changes through events is a set of initial states and a step
  relation. An invariant that holds initially and that every step keeps holds in every
  reachable state; the locale proves it once for all machines of the development.
\<close>

inductive reach :: "('s \<Rightarrow> bool) \<Rightarrow> ('s \<Rightarrow> 's \<Rightarrow> bool) \<Rightarrow> 's \<Rightarrow> bool"
  for init :: "'s \<Rightarrow> bool" and step :: "'s \<Rightarrow> 's \<Rightarrow> bool" where
  reach_init: "init s \<Longrightarrow> reach init step s"
| reach_step: "reach init step s \<Longrightarrow> step s t \<Longrightarrow> reach init step t"

locale transition_system =
  fixes init :: "'s \<Rightarrow> bool"
    and step :: "'s \<Rightarrow> 's \<Rightarrow> bool"
    and invar :: "'s \<Rightarrow> bool"
  assumes invar_init: "init s \<Longrightarrow> invar s"
    and invar_step: "invar s \<Longrightarrow> step s t \<Longrightarrow> invar t"
begin

lemma reach_invar: "reach init step s \<Longrightarrow> invar s"
  by (induction rule: reach.induct) (auto intro: invar_init invar_step)

lemma invar_rtranclp: "step\<^sup>*\<^sup>* s t \<Longrightarrow> invar s \<Longrightarrow> invar t"
  by (induction rule: rtranclp_induct) (auto intro: invar_step)

end

text \<open>
  A machine that implements an abstract one: every step of the concrete machine from a state in its
  invariant is, seen through \<open>absf\<close>, some steps of the abstract machine, or none.
\<close>

locale simulation = conc: transition_system c_init c_step c_invar
  for c_init :: "'s \<Rightarrow> bool" and c_step :: "'s \<Rightarrow> 's \<Rightarrow> bool" and c_invar :: "'s \<Rightarrow> bool" +
  fixes a_init :: "'a \<Rightarrow> bool"
    and a_step :: "'a \<Rightarrow> 'a \<Rightarrow> bool"
    and absf :: "'s \<Rightarrow> 'a"
  assumes abs_init: "c_init s \<Longrightarrow> a_init (absf s)"
    and abs_step: "c_invar s \<Longrightarrow> c_step s t \<Longrightarrow> a_step\<^sup>*\<^sup>* (absf s) (absf t)"
begin

lemma reach_steps: "a_step\<^sup>*\<^sup>* a b \<Longrightarrow> reach a_init a_step a \<Longrightarrow> reach a_init a_step b"
  by (induction rule: rtranclp_induct) (auto intro: reach_step)

lemma abs_reach: "reach c_init c_step s \<Longrightarrow> reach a_init a_step (absf s)"
proof (induction rule: reach.induct)
  case (reach_step s t)
  from abs_step [OF conc.reach_invar [OF reach_step.hyps(1)] reach_step.hyps(2)] reach_step.IH show ?case
    by (rule reach_steps)
qed (intro reach_init abs_init)

lemma abs_run: "c_step\<^sup>*\<^sup>* s t \<Longrightarrow> c_invar s \<Longrightarrow> a_step\<^sup>*\<^sup>* (absf s) (absf t)"
proof (induction rule: rtranclp_induct)
  case (step t u)
  from step.IH [OF step.prems] abs_step [OF conc.invar_rtranclp [OF step.hyps(1) step.prems] step.hyps(2)] show ?case
    by (rule rtranclp_trans)
qed simp

end

end
