(* ===== verification/Utils.thy ===== *)
theory Utils
  imports Prelude
begin

text \<open>
  \<^verbatim>\<open>spns/utils.hpp\<close> and \<^verbatim>\<open>spns/utils.cpp\<close>: byte views of strings, prefix and suffix tests,
  decimal printing and parsing, \<^verbatim>\<open>digits\<close>, the two string splitters and the file descriptor
  limit. Strings are byte strings, as \<^verbatim>\<open>std::string_view\<close> is.
\<close>

section \<open>Views\<close>

definition as_sv :: "bytes \<Rightarrow> string" where
  "as_sv s = map (\<lambda>b. char_of (unat b)) s"

definition as_bytes :: "string \<Rightarrow> bytes" where
  "as_bytes s = map (\<lambda>c. of_nat (of_char c)) s"

definition starts_with :: "string \<Rightarrow> string \<Rightarrow> bool" where
  "starts_with str pre \<longleftrightarrow> take (length pre) str = pre"

definition ends_with :: "string \<Rightarrow> string \<Rightarrow> bool" where
  "ends_with str suf \<longleftrightarrow>
     length suf \<le> length str \<and> drop (length str - length suf) str = suf"

section \<open>Clocks\<close>

definition unix_timestamp :: "nanos \<Rightarrow> seconds" where
  "unix_timestamp t = trunc_div t nanos_per_sec"

section \<open>Decimal integers\<close>

text \<open>\<^verbatim>\<open>std::to_chars\<close> in base 10.\<close>

definition digit_char :: "nat \<Rightarrow> char" where
  "digit_char d = char_of (48 + d)"

fun nat_chars :: "nat \<Rightarrow> string" where
  "nat_chars n = (if n < 10 then [digit_char n] else nat_chars (n div 10) @ [digit_char (n mod 10)])"

declare nat_chars.simps [simp del]

definition to_chars :: "int \<Rightarrow> string" where
  "to_chars i = (if i < 0 then CHR ''-'' # nat_chars (nat (- i)) else nat_chars (nat i))"

text \<open>
  \<^verbatim>\<open>std::from_chars\<close> for a type with values \<open>lo..hi\<close>: a minus sign is read for a signed type
  only, then the longest run of digits; no digit, or a value out of range, is an error (no
  value). The second component is what follows the characters matched.
\<close>

definition is_digit :: "char \<Rightarrow> bool" where
  "is_digit c \<longleftrightarrow> (48 :: nat) \<le> of_char c \<and> (of_char c :: nat) \<le> 57"

definition digit_value :: "char \<Rightarrow> nat" where
  "digit_value c = of_char c - 48"

definition digits_value :: "string \<Rightarrow> nat" where
  "digits_value ds = foldl (\<lambda>v c. 10 * v + digit_value c) 0 ds"

definition from_chars :: "int \<Rightarrow> int \<Rightarrow> string \<Rightarrow> int option \<times> string" where
  "from_chars lo hi s =
     (let neg = (lo < 0 \<and> starts_with s ''-'');
          body = (if neg then tl s else s);
          ds = takeWhile is_digit body;
          rest = dropWhile is_digit body;
          v = (if neg then - int (digits_value ds) else int (digits_value ds))
      in if ds = [] then (None, s)
         else if lo \<le> v \<and> v \<le> hi then (Some v, rest)
         else (None, rest))"

definition parse_int :: "int \<Rightarrow> int \<Rightarrow> string \<Rightarrow> int option" where
  "parse_int lo hi str =
     (case from_chars lo hi str of
        (None, p) \<Rightarrow> None
      | (Some tmp, p) \<Rightarrow> if p \<noteq> [] then None else Some tmp)"

text \<open>The do-while loop of \<^verbatim>\<open>digits\<close>.\<close>

function digits_loop :: "nat \<Rightarrow> nat \<Rightarrow> nat" where
  "digits_loop i val = (if val div 10 \<noteq> 0 then digits_loop (Suc i) (val div 10) else Suc i)"
  by pat_completeness auto
termination
  by (relation "measure (\<lambda>(i, val). val)") auto

declare digits_loop.simps [simp del]

definition digits :: "nat \<Rightarrow> nat" where
  "digits val = digits_loop 0 val"

section \<open>Splitting\<close>

text \<open>\<^verbatim>\<open>string_view::find\<close>, \<^verbatim>\<open>find_first_of\<close> and \<^verbatim>\<open>find_first_not_of\<close>; \<^const>\<open>None\<close> is \<^verbatim>\<open>npos\<close>.\<close>

fun sv_find :: "string \<Rightarrow> string \<Rightarrow> nat option" where
  "sv_find [] d = (if d = [] then Some 0 else None)"
| "sv_find (c # s) d = (if starts_with (c # s) d then Some 0 else map_option Suc (sv_find s d))"

definition find_first_of :: "string \<Rightarrow> string \<Rightarrow> nat option" where
  "find_first_of s ds =
     (let n = length (takeWhile (\<lambda>c. c \<notin> set ds) s) in if n < length s then Some n else None)"

definition find_first_not_of :: "string \<Rightarrow> string \<Rightarrow> nat \<Rightarrow> nat option" where
  "find_first_not_of s ds pos =
     (let n = pos + length (takeWhile (\<lambda>c. c \<in> set ds) (drop pos s))
      in if n < length s then Some n else None)"

text \<open>The trailing \<^verbatim>\<open>pop_back\<close> loop both splitters end with.\<close>

definition pop_empty :: "string list \<Rightarrow> string list" where
  "pop_empty results = rev (dropWhile (\<lambda>p. p = []) (rev results))"

definition finish_split :: "bool \<Rightarrow> string list \<times> string \<Rightarrow> string list" where
  "finish_split trim r =
     (case r of (results, str) \<Rightarrow>
        if \<not> trim \<or> str \<noteq> [] then results @ [str] else pop_empty results)"

function split_loop :: "string \<Rightarrow> bool \<Rightarrow> string \<Rightarrow> string list \<Rightarrow> string list \<times> string" where
  "split_loop delim trim str results =
     (case sv_find str delim of
        None \<Rightarrow> (results, str)
      | Some pos \<Rightarrow>
          if delim = [] then (results, str)
          else split_loop delim trim (drop (pos + length delim) str)
                 (if \<not> trim \<or> results \<noteq> [] \<or> pos > 0 then results @ [take pos str] else results))"
  by pat_completeness auto
termination
proof (relation "measure (\<lambda>(delim, trim, str, results). length str)", goal_cases)
  case (2 delim trim str results pos)
  then show ?case by (cases str) auto
qed simp

declare split_loop.simps [simp del]

definition split :: "string \<Rightarrow> string \<Rightarrow> bool \<Rightarrow> string list" where
  "split str delim trim =
     (if delim = [] then map (\<lambda>c. [c]) str
      else finish_split trim (split_loop delim trim str []))"

function split_any_loop :: "string \<Rightarrow> bool \<Rightarrow> string \<Rightarrow> string list \<Rightarrow> string list \<times> string" where
  "split_any_loop delims trim str results =
     (case find_first_of str delims of
        None \<Rightarrow> (results, str)
      | Some pos \<Rightarrow>
          (let results' = (if \<not> trim \<or> results \<noteq> [] \<or> pos > 0 then results @ [take pos str] else results)
           in case find_first_not_of str delims (Suc pos) of
                None \<Rightarrow> split_any_loop delims trim [] results'
              | Some until \<Rightarrow> split_any_loop delims trim (drop until str) results'))"
  by pat_completeness auto
termination
  by (relation "measure (\<lambda>(delims, trim, str, results). length str)")
    (auto simp: find_first_of_def find_first_not_of_def Let_def split: if_splits)

declare split_any_loop.simps [simp del]

definition split_any :: "string \<Rightarrow> string \<Rightarrow> bool \<Rightarrow> string list" where
  "split_any str delims trim =
     (if delims = [] then split str delims trim
      else finish_split trim (split_any_loop delims trim str []))"

section \<open>File descriptor limit\<close>

text \<open>
  \<^verbatim>\<open>fiddle_rlimit_nofile\<close>: \<^verbatim>\<open>getrlimit\<close>'s answer (\<^const>\<open>None\<close> for failure) to the soft limit it
  asks \<^verbatim>\<open>setrlimit\<close> for, \<^const>\<open>None\<close> when it makes no such call.
\<close>

definition fiddle_rlimit_nofile :: "(nat \<times> nat) option \<Rightarrow> nat option" where
  "fiddle_rlimit_nofile nofile =
     (case nofile of
        None \<Rightarrow> None
      | Some (rlim_cur, rlim_max) \<Rightarrow>
          if rlim_cur < 10000 \<and> rlim_cur < rlim_max then Some (min 10000 rlim_max) else None)"

section \<open>Byte views\<close>

lemma as_sv_as_bytes [simp]: "as_sv (as_bytes s) = s"
proof -
  have "char_of (unat (of_nat (of_char c) :: byte)) = c" for c :: char
    using of_char_mod_256 [of c, where 'a = nat] by (simp add: unat_of_nat)
  then show ?thesis
    by (induction s) (simp_all add: as_sv_def as_bytes_def)
qed

lemma as_bytes_as_sv [simp]: "as_bytes (as_sv b) = b"
proof -
  have "(of_nat (of_char (char_of (unat x) :: char)) :: byte) = x" for x :: byte
    using unsigned_less [of x, where 'a = nat] by (simp add: of_char_of)
  then show ?thesis
    by (induction b) (simp_all add: as_sv_def as_bytes_def)
qed

lemma length_as_sv [simp]: "length (as_sv b) = length b"
  by (simp add: as_sv_def)

lemma length_as_bytes [simp]: "length (as_bytes s) = length s"
  by (simp add: as_bytes_def)

lemma starts_with_append [simp]: "starts_with (p @ s) p"
  by (simp add: starts_with_def)

lemma starts_with_iff: "starts_with s p \<longleftrightarrow> (\<exists>r. s = p @ r)"
  unfolding starts_with_def by (metis append_take_drop_id append_eq_conv_conj)

lemma ends_with_iff: "ends_with s p \<longleftrightarrow> (\<exists>r. s = r @ p)"
  unfolding ends_with_def by (metis append_take_drop_id append_eq_conv_conj diff_add_inverse2
      le_add2 length_append)

section \<open>Printing and parsing integers\<close>

lemma digit_char_props:
  assumes "d < 10"
  shows "is_digit (digit_char d)" and "digit_value (digit_char d) = d"
proof -
  have "of_char (digit_char d) = 48 + d"
    using assms by (simp add: digit_char_def of_char_of)
  then show "is_digit (digit_char d)" "digit_value (digit_char d) = d"
    using assms by (simp_all add: is_digit_def digit_value_def)
qed

lemma nat_chars_nonempty [simp]: "nat_chars n \<noteq> []"
  by (subst nat_chars.simps) simp

lemma nat_chars_digits: "c \<in> set (nat_chars n) \<Longrightarrow> is_digit c"
proof (induction n rule: nat_chars.induct)
  case (1 n)
  then show ?case
    by (cases "n < 10") (auto simp: nat_chars.simps [of n] digit_char_props)
qed

lemma digits_value_snoc: "digits_value (ds @ [c]) = 10 * digits_value ds + digit_value c"
  by (simp add: digits_value_def)

lemma digits_value_nat_chars: "digits_value (nat_chars n) = n"
proof (induction n rule: nat_chars.induct)
  case (1 n)
  show ?case
  proof (cases "n < 10")
    case True
    then show ?thesis
      by (simp add: nat_chars.simps [of n] digits_value_def digit_char_props)
  next
    case False
    with 1 show ?thesis
      by (simp add: nat_chars.simps [of n] digits_value_snoc digit_char_props)
  qed
qed

lemma nat_chars_inj: "nat_chars m = nat_chars n \<Longrightarrow> m = n"
  by (metis digits_value_nat_chars)

lemma takeWhile_nat_chars [simp]: "takeWhile is_digit (nat_chars n) = nat_chars n"
  by (simp add: takeWhile_all_iff nat_chars_digits)

lemma dropWhile_nat_chars [simp]: "dropWhile is_digit (nat_chars n) = []"
  by (simp add: dropWhile_eq_Nil_conv nat_chars_digits)

lemma not_digit_minus [simp]: "\<not> is_digit (CHR ''-'')"
  by (simp add: is_digit_def)

lemma nat_chars_no_minus [simp]: "\<not> starts_with (nat_chars n) ''-''"
  using nat_chars_digits [of "CHR ''-''" n] by (auto simp: starts_with_iff)

lemma to_chars_inj: "to_chars i = to_chars j \<Longrightarrow> i = j"
proof -
  have "CHR ''-'' # xs \<noteq> nat_chars n" for xs n
    using nat_chars_digits [of "CHR ''-''" n] by (metis list.set_intros(1) not_digit_minus)
  moreover assume "to_chars i = to_chars j"
  ultimately show ?thesis
    by (auto simp: to_chars_def dest: nat_chars_inj split: if_splits)
      (metis nat_chars_inj neg_0_le_iff_le nat_eq_iff2 not_less)+
qed

text \<open>
  Parsing what was printed gives the integer back, for every signed integer type
  (\<open>lo..hi\<close> with \<open>lo\<close> negative) and every value of it.
\<close>

theorem parse_int_to_chars:
  assumes "lo < 0" "lo \<le> v" "v \<le> hi"
  shows "parse_int lo hi (to_chars v) = Some v"
proof (cases "v < 0")
  case True
  then show ?thesis
    using assms by (simp add: parse_int_def from_chars_def to_chars_def Let_def
        digits_value_nat_chars starts_with_def)
next
  case False
  then show ?thesis
    using assms by (simp add: parse_int_def from_chars_def to_chars_def Let_def
        digits_value_nat_chars)
qed

theorem parse_int_to_chars_witness:
  "parse_int (- 2147483648) 2147483647 (to_chars (- 17)) = Some (- 17)"
  by (rule parse_int_to_chars) simp_all

lemma parse_int_range: "parse_int lo hi s = Some v \<Longrightarrow> lo \<le> v \<and> v \<le> hi"
  by (auto simp: parse_int_def from_chars_def Let_def split: if_splits option.splits prod.splits)

lemma length_nat_chars_le: "0 < k \<Longrightarrow> n < 10 ^ k \<Longrightarrow> length (nat_chars n) \<le> k"
proof (induction k arbitrary: n)
  case 0
  then show ?case by simp
next
  case (Suc k)
  show ?case
  proof (cases "n < 10")
    case True
    then show ?thesis by (simp add: nat_chars.simps [of n])
  next
    case False
    with Suc.prems have "n div 10 < 10 ^ k" "0 < k"
      by (auto simp: less_mult_imp_div_less mult.commute intro: ccontr)
    with False Suc.IH show ?thesis by (simp add: nat_chars.simps [of n])
  qed
qed

lemma length_nat_chars_ge: "10 ^ k \<le> n \<Longrightarrow> k < length (nat_chars n)"
proof (induction k arbitrary: n)
  case 0
  then show ?case by simp
next
  case (Suc k)
  then have "10 ^ k \<le> n div 10"
    by (simp add: less_eq_div_iff_mult_less_eq mult.commute)
  moreover have "(10 :: nat) \<le> 10 ^ Suc k"
    by simp
  with Suc.prems have "\<not> n < 10"
    by linarith
  ultimately show ?case using Suc.IH by (simp add: nat_chars.simps [of n])
qed

lemma digits_loop_eq: "digits_loop i n = i + length (nat_chars n)"
proof (induction i n rule: digits_loop.induct)
  case (1 i n)
  show ?case
  proof (cases "n < 10")
    case True
    then show ?thesis
      by (simp add: digits_loop.simps [of i n] nat_chars.simps [of n])
  next
    case False
    then have "n div 10 \<noteq> 0" by auto
    with False 1 show ?thesis
      by (simp add: digits_loop.simps [of i n] nat_chars.simps [of n])
  qed
qed

lemma digits_eq_length: "digits n = length (nat_chars n)"
  by (simp add: digits_def digits_loop_eq)

section \<open>Correctness of the splitters\<close>

text \<open>The reference for \<^verbatim>\<open>trim\<close>: empty pieces are removed from both ends of the untrimmed result.\<close>

definition trim_pieces :: "string list \<Rightarrow> string list" where
  "trim_pieces ps = pop_empty (dropWhile (\<lambda>p. p = []) ps)"

fun join :: "string \<Rightarrow> string list \<Rightarrow> string" where
  "join d [] = []"
| "join d [p] = p"
| "join d (p # q # ps) = p @ d @ join d (q # ps)"

lemma sv_find_Some:
  "sv_find s d = Some pos \<Longrightarrow> take pos s @ d @ drop (pos + length d) s = s"
proof (induction s arbitrary: pos)
  case Nil
  then show ?case by (auto split: if_splits)
next
  case (Cons c s)
  show ?case
  proof (cases "starts_with (c # s) d")
    case True
    with Cons.prems have "pos = 0" by simp
    moreover obtain r where "c # s = d @ r" using True by (auto simp: starts_with_iff)
    ultimately show ?thesis by simp
  next
    case False
    with Cons obtain p where "pos = Suc p" "sv_find s d = Some p" by auto
    with Cons.IH show ?thesis by simp
  qed
qed

lemma split_loop_stop: "sv_find str d = None \<or> d = [] \<Longrightarrow> split_loop d t str rs = (rs, str)"
  by (auto simp: split_loop.simps [of d t str rs] split: option.split)

lemma split_loop_accumulate:
  "\<exists>ps str'. split_loop d False str rs = (rs @ ps, str') \<and> join d (ps @ [str']) = str"
proof (induction "length str" arbitrary: str rs rule: less_induct)
  case less
  show ?case
  proof (cases "sv_find str d = None \<or> d = []")
    case True
    then have "split_loop d False str rs = (rs, str)" by (rule split_loop_stop)
    then show ?thesis by (intro exI [of _ "[]"] exI [of _ str]) simp
  next
    case False
    then obtain pos where pos: "sv_find str d = Some pos" and d: "d \<noteq> []" by auto
    let ?rest = "drop (pos + length d) str"
    have eq: "take pos str @ d @ ?rest = str" using pos by (rule sv_find_Some)
    have "length (take pos str) + length d + length ?rest = length str"
      by (metis eq length_append add.assoc)
    then have "length ?rest < length str" using d by (cases d) simp_all
    from less [OF this, of "rs @ [take pos str]"] obtain ps str'
      where IH: "split_loop d False ?rest (rs @ [take pos str]) = (rs @ take pos str # ps, str')"
        and j: "join d (ps @ [str']) = ?rest" by auto
    have "split_loop d False str rs = (rs @ take pos str # ps, str')"
      using pos d IH by (simp add: split_loop.simps [of d False str rs])
    moreover have "join d ((take pos str # ps) @ [str']) = str"
      using j eq by (cases ps) simp_all
    ultimately show ?thesis by blast
  qed
qed

text \<open>
  Splitting loses nothing: joining the untrimmed pieces with the delimiter gives the
  input string back.
\<close>

theorem split_join: "join delim (split str delim False) = str"
proof (cases "delim = []")
  case True
  have "join [] (map (\<lambda>c. [c]) s) = s" for s :: string
    by (induction s rule: induct_list012) simp_all
  with True show ?thesis by (simp add: split_def)
next
  case False
  obtain ps str' where "split_loop delim False str [] = (ps, str')" "join delim (ps @ [str']) = str"
    using split_loop_accumulate [of delim str "[]"] by auto
  with False show ?thesis by (simp add: split_def finish_split_def)
qed

lemma pop_empty_snoc: "p \<noteq> [] \<Longrightarrow> pop_empty (ps @ [p]) = ps @ [p]"
  by (simp add: pop_empty_def)

lemma pop_empty_snoc_Nil: "pop_empty (ps @ [[]]) = pop_empty ps"
  by (simp add: pop_empty_def)

lemma pop_empty_Nil [simp]: "pop_empty [] = []"
  by (simp add: pop_empty_def)

text \<open>
  The trimming run keeps, at every iteration, exactly the untrimmed results without their
  leading empty pieces; both splitters push through the same test.
\<close>

lemma push_trim:
  fixes rs :: "string list" and p :: string
  defines "dl \<equiv> dropWhile (\<lambda>p. p = [])"
  shows "dl (rs @ [p]) = (if dl rs \<noteq> [] \<or> p \<noteq> [] then dl rs @ [p] else dl rs)"
  unfolding dl_def by (induction rs) auto

lemma split_loop_trim:
  fixes dl :: "string list \<Rightarrow> string list"
  defines "dl \<equiv> dropWhile (\<lambda>p. p = [])"
  shows "split_loop d True str (dl rs) = map_prod dl id (split_loop d False str rs)"
proof (induction "length str" arbitrary: str rs rule: less_induct)
  case less
  show ?case
  proof (cases "sv_find str d = None \<or> d = []")
    case True
    then show ?thesis by (simp add: split_loop_stop)
  next
    case False
    then obtain pos where pos: "sv_find str d = Some pos" and d: "d \<noteq> []" by auto
    have str: "str \<noteq> []" using pos d by auto
    then have "length (drop (pos + length d) str) < length str" using d by simp
    note IH = less [OF this, of "rs @ [take pos str]"]
    have "(take pos str \<noteq> []) = (0 < pos)" using str by simp
    then show ?thesis
      using pos d IH push_trim [of rs "take pos str"]
      by (simp add: split_loop.simps [of d _ str] dl_def split: if_splits)
  qed
qed

lemma finish_split_trim:
  "finish_split True (map_prod (dropWhile (\<lambda>p. p = [])) id r) = trim_pieces (finish_split False r)"
proof (cases r)
  case (Pair rs str)
  show ?thesis
  proof (cases "str = []")
    case True
    have "pop_empty (dropWhile (\<lambda>p. p = []) (rs @ [[]])) = pop_empty (dropWhile (\<lambda>p. p = []) rs)"
      by (simp only: push_trim if_distrib [of pop_empty] pop_empty_snoc_Nil if_cancel)
    with Pair True show ?thesis by (simp add: finish_split_def trim_pieces_def)
  next
    case False
    then have "pop_empty (dropWhile (\<lambda>p. p = []) (rs @ [str])) = dropWhile (\<lambda>p. p = []) rs @ [str]"
      by (simp add: push_trim pop_empty_snoc)
    with Pair False show ?thesis by (simp add: finish_split_def trim_pieces_def)
  qed
qed

lemma split_any_loop_trim:
  fixes dl :: "string list \<Rightarrow> string list"
  defines "dl \<equiv> dropWhile (\<lambda>p. p = [])"
  shows "split_any_loop ds True str (dl rs) = map_prod dl id (split_any_loop ds False str rs)"
proof (induction "length str" arbitrary: str rs rule: less_induct)
  case less
  show ?case
  proof (cases "find_first_of str ds")
    case None
    then show ?thesis by (simp add: split_any_loop.simps [of ds _ str])
  next
    case (Some pos)
    then have str: "str \<noteq> []" by (auto simp: find_first_of_def)
    then have ne: "(take pos str \<noteq> []) = (0 < pos)" by simp
    define str' where "str' = (case find_first_not_of str ds (Suc pos) of None \<Rightarrow> [] | Some u \<Rightarrow> drop u str)"
    have "length str' < length str"
      using str by (auto simp: str'_def find_first_not_of_def Let_def split: option.splits if_splits)
    note IH = less [OF this, of "rs @ [take pos str]"]
    have step: "split_any_loop ds t str q = split_any_loop ds t str'
        (if \<not> t \<or> q \<noteq> [] \<or> take pos str \<noteq> [] then q @ [take pos str] else q)" for t q
      using Some ne by (simp add: split_any_loop.simps [of ds t str] str'_def Let_def split: option.splits)
    show ?thesis
      using IH push_trim [of rs "take pos str"] by (simp add: step dl_def split: if_splits)
  qed
qed

text \<open>
  \<^verbatim>\<open>trim\<close> suppresses exactly the leading and trailing empty pieces, for both splitters, as
  their header comment promises.
\<close>

theorem split_trim:
  "(delim \<noteq> [] \<longrightarrow> split str delim True = trim_pieces (split str delim False)) \<and>
   (delims \<noteq> [] \<longrightarrow> split_any str delims True = trim_pieces (split_any str delims False))"
  using split_loop_trim [of delim str "[]"] split_any_loop_trim [of delims str "[]"]
  by (simp add: split_def split_any_def finish_split_trim)

theorem split_trim_witness:
  "split ''-a--b--'' ''-'' True = trim_pieces (split ''-a--b--'' ''-'' False) \<and>
   split ''-a--b--'' ''-'' True = [''a'', '''', ''b''] \<and>
   split_any ''abcdedf'' ''dcx'' True = trim_pieces (split_any ''abcdedf'' ''dcx'' False) \<and>
   split_any ''abcdedf'' ''dcx'' True = [''ab'', ''e'', ''f'']"
proof -
  have "split ''-a--b--'' ''-'' True = trim_pieces (split ''-a--b--'' ''-'' False)"
    and "split_any ''abcdedf'' ''dcx'' True = trim_pieces (split_any ''abcdedf'' ''dcx'' False)"
    using split_trim [of "''-''" "''-a--b--''" "''dcx''"] split_trim [of "''-''" "''abcdedf''" "''dcx''"]
    by simp_all
  moreover have "split ''-a--b--'' ''-'' True = [''a'', '''', ''b'']"
    by code_simp
  moreover have "split_any ''abcdedf'' ''dcx'' True = [''ab'', ''e'', ''f'']"
    by code_simp
  ultimately show ?thesis by blast
qed

end
