(* ===== verification/Errors.thy ===== *)
theory Errors
  imports Utils
begin

text \<open>
  The exceptions the program throws and the status codes it answers with: the \<^verbatim>\<open>SUBSCRIBE\<close>
  enumeration of \<^verbatim>\<open>spns/hive/subscription.hpp\<close>, \<^verbatim>\<open>subscribe_error\<close>, \<^verbatim>\<open>signature_verify_failure\<close>,
  \<^verbatim>\<open>missing_parameter\<close> and \<^verbatim>\<open>startup_request_defer\<close>, together with the standard and library
  exceptions the handlers catch.
\<close>

datatype SUBSCRIBE =
  OK | BAD_INPUT | SERVICE_NOT_AVAILABLE | SERVICE_TIMEOUT | ERROR | INTERNAL_ERROR | SUBSCRIBE_END

fun numeric_code :: "SUBSCRIBE \<Rightarrow> int" where
  "numeric_code OK = 0"
| "numeric_code BAD_INPUT = 1"
| "numeric_code SERVICE_NOT_AVAILABLE = 2"
| "numeric_code SERVICE_TIMEOUT = 3"
| "numeric_code ERROR = 4"
| "numeric_code INTERNAL_ERROR = 5"
| "numeric_code SUBSCRIBE_END = 6"

lemma numeric_code_inj: "numeric_code a = numeric_code b \<longleftrightarrow> a = b"
  by (cases a; cases b) simp_all

text \<open>
  \<open>json_exception\<close> carries the library's text; \<open>sql_error\<close> and \<open>bt_error\<close> stand for what
  libpqxx and oxenc throw; \<open>bt_invalid_type\<close> is \<^verbatim>\<open>oxenc::bt_deserialize_invalid_type\<close>.
\<close>

datatype exn =
    invalid_argument string
  | signature_verify_failure string
  | subscribe_error SUBSCRIBE string
  | missing_parameter string
  | out_of_range string
  | runtime_error string
  | json_exception string
  | sql_error string
  | bt_error string
  | bt_invalid_type
  | startup_request_defer

fun what :: "exn \<Rightarrow> string" where
  "what (invalid_argument s) = s"
| "what (signature_verify_failure s) = s"
| "what (subscribe_error c s) = s"
| "what (missing_parameter key) = ''Missing required parameter '' @ [CHR 0x27] @ key @ [CHR 0x27]"
| "what (out_of_range s) = s"
| "what (runtime_error s) = s"
| "what (json_exception s) = s"
| "what (sql_error s) = s"
| "what (bt_error s) = s"
| "what bt_invalid_type = ''invalid type''"
| "what startup_request_defer = []"

type_synonym 'a result = "exn + 'a"

end
