(* ===== verification/Bytes.thy ===== *)
theory Bytes
  imports Errors
begin

text \<open>
  \<^verbatim>\<open>spns/bytes.hpp\<close> and \<^verbatim>\<open>spns/blake2b.hpp\<close>: fixed-size byte values, subaccounts, the
  hex-or-base64 reader and the BLAKE2b helpers. The two libraries these call into, oxenc and
  libsodium, are parameters: a record of the functions the source uses of each.
\<close>

section \<open>External libraries\<close>

record oxenc_lib =
  is_hex :: "string \<Rightarrow> bool"
  from_hex :: "string \<Rightarrow> bytes"
  to_hex :: "bytes \<Rightarrow> string"
  is_base64 :: "string \<Rightarrow> bool"
  from_base64 :: "string \<Rightarrow> bytes"
  to_base64_size :: "nat \<Rightarrow> bool \<Rightarrow> nat"
  load_big_to_host :: "bytes \<Rightarrow> u64"

text \<open>
  \<open>sign_verify_detached sig msg pk\<close> is 0 for a valid signature; \<open>pk_to_curve25519\<close> returns a
  status and the converted key; \<open>generichash_blake2b key size msg\<close> is the digest of the
  concatenated updates.
\<close>

record sodium_lib =
  sign_verify_detached :: "bytes \<Rightarrow> string \<Rightarrow> bytes \<Rightarrow> int"
  pk_to_curve25519 :: "bytes \<Rightarrow> int \<times> bytes"
  generichash_blake2b :: "string \<Rightarrow> nat \<Rightarrow> string \<Rightarrow> bytes"

text \<open>What the program relies on of oxenc's encoders, as its documentation states it.\<close>

definition oxenc_documented :: "oxenc_lib \<Rightarrow> bool" where
  "oxenc_documented ox \<longleftrightarrow>
     (\<forall>s n. is_hex ox s \<and> length s = 2 * n \<longrightarrow> length (from_hex ox s) = n) \<and>
     (\<forall>s n. is_base64 ox s \<and> length s = to_base64_size ox n False \<longrightarrow> length (from_base64 ox s) = n) \<and>
     (\<forall>b. is_hex ox (to_hex ox b) \<and> length (to_hex ox b) = 2 * length b \<and> from_hex ox (to_hex ox b) = b)"

section \<open>Byte values\<close>

definition AccountID_SIZE :: nat where "AccountID_SIZE = 33"
definition Ed25519PK_SIZE :: nat where "Ed25519PK_SIZE = 32"
definition Ed25519Secret_SIZE :: nat where "Ed25519Secret_SIZE = 64"
definition X25519PK_SIZE :: nat where "X25519PK_SIZE = 32"
definition X25519SK_SIZE :: nat where "X25519SK_SIZE = 32"
definition SubaccountTag_SIZE :: nat where "SubaccountTag_SIZE = 36"
definition Signature_SIZE :: nat where "Signature_SIZE = 64"
definition EncKey_SIZE :: nat where "EncKey_SIZE = 32"
definition Blake2B_32_SIZE :: nat where "Blake2B_32_SIZE = 32"

lemmas size_defs = AccountID_SIZE_def Ed25519PK_SIZE_def Ed25519Secret_SIZE_def X25519PK_SIZE_def
  X25519SK_SIZE_def SubaccountTag_SIZE_def Signature_SIZE_def EncKey_SIZE_def Blake2B_32_SIZE_def

text \<open>\<^verbatim>\<open>AccountID::xpk\<close>: the key after the prefix byte.\<close>

definition xpk :: "bytes \<Rightarrow> bytes" where
  "xpk account = take 32 (drop 1 account)"

text \<open>\<^verbatim>\<open>bytes_simple_hasher\<close>: the eight bytes from offset 16.\<close>

definition bytes_simple_hasher :: "bytes \<Rightarrow> bytes" where
  "bytes_simple_hasher x = take 8 (drop 16 x)"

record Subaccount =
  sub_tag :: bytes
  sub_sig :: bytes

definition is_same_tag :: "Subaccount \<Rightarrow> Subaccount \<Rightarrow> bool" where
  "is_same_tag a other \<longleftrightarrow> sub_tag a = sub_tag other"

text \<open>The static \<^verbatim>\<open>Subaccount::is_same\<close> on optional subaccounts, branch by branch.\<close>

definition is_same_subaccount :: "Subaccount option \<Rightarrow> Subaccount option \<Rightarrow> bool" where
  "is_same_subaccount a b =
     (if (a \<noteq> None) \<noteq> (b \<noteq> None) then False
      else if a = None then False
      else is_same_tag (the a) (the b))"

section \<open>Reading hex, base64 or raw bytes\<close>

definition strip_padding :: "string \<Rightarrow> string" where
  "strip_padding input = rev (dropWhile (\<lambda>c. c = CHR ''='') (rev input))"

definition from_hex_or_b64 :: "oxenc_lib \<Rightarrow> nat \<Rightarrow> string \<Rightarrow> bytes result" where
  "from_hex_or_b64 ox SIZE input =
     (if length input = SIZE then Inr (as_bytes input)
      else if length input = 2 * SIZE \<and> is_hex ox input then Inr (from_hex ox input)
      else
        (let input' = strip_padding input in
         if length input' = to_base64_size ox SIZE False \<and> is_base64 ox input'
         then Inr (from_base64 ox input')
         else Inl (invalid_argument ''Invalid value: expected bytes, hex, or base64'')))"

section \<open>BLAKE2b\<close>

text \<open>
  \<^verbatim>\<open>blake2b_update\<close> feeds an integer as its decimal characters and a byte range as is.
\<close>

datatype hash_arg = HInt int | HBytes string

fun blake2b_update :: "string \<Rightarrow> hash_arg \<Rightarrow> string" where
  "blake2b_update s (HInt val) = s @ to_chars val"
| "blake2b_update s (HBytes val) = s @ val"

definition blake2b_keyed :: "sodium_lib \<Rightarrow> nat \<Rightarrow> string \<Rightarrow> hash_arg list \<Rightarrow> bytes" where
  "blake2b_keyed sod SIZE key args = generichash_blake2b sod key SIZE (foldl blake2b_update [] args)"

definition blake2b :: "sodium_lib \<Rightarrow> hash_arg list \<Rightarrow> bytes" where
  "blake2b sod args = blake2b_keyed sod Blake2B_32_SIZE [] args"

section \<open>Lemmas\<close>

lemma is_same_subaccount_iff:
  "is_same_subaccount a b \<longleftrightarrow> (\<exists>x y. a = Some x \<and> b = Some y \<and> sub_tag x = sub_tag y)"
  by (cases a; cases b) (auto simp: is_same_subaccount_def is_same_tag_def)

lemma is_same_subaccount_sym: "is_same_subaccount a b = is_same_subaccount b a"
  by (auto simp: is_same_subaccount_iff)

lemma foldl_blake2b_update:
  "foldl blake2b_update s args =
     s @ concat (map (\<lambda>a. case a of HInt i \<Rightarrow> to_chars i | HBytes b \<Rightarrow> b) args)"
proof (induction args arbitrary: s)
  case (Cons a args)
  then show ?case by (cases a) simp_all
qed simp

text \<open>
  Every accepted input yields a value of exactly the requested size, so the fixed-size
  buffer is filled and never overrun.
\<close>

theorem from_hex_or_b64_size:
  assumes "oxenc_documented ox" "from_hex_or_b64 ox n input = Inr val"
  shows "length val = n"
  using assms by (auto simp: from_hex_or_b64_def oxenc_documented_def Let_def split: if_splits)

text \<open>
  The reader undoes both the hex printer and the raw view of a value of the requested size.
\<close>

theorem from_hex_or_b64_roundtrip:
  assumes "oxenc_documented ox" "0 < length val"
  shows "from_hex_or_b64 ox (length val) (to_hex ox val) = Inr val \<and>
    from_hex_or_b64 ox (length val) (as_sv val) = Inr val"
  using assms by (simp add: from_hex_or_b64_def oxenc_documented_def)

lemma from_hex_or_b64_invalid:
  assumes "from_hex_or_b64 ox n input = Inl e"
  shows "e = invalid_argument ''Invalid value: expected bytes, hex, or base64''"
  using assms by (auto simp: from_hex_or_b64_def Let_def split: if_splits)

end
