(* ===== verification/Sample_Libs.thy ===== *)
theory Sample_Libs
  imports Bytes
begin

text \<open>
  Concrete instances of the external libraries, at which the development's theorems are
  exercised: a hexadecimal codec that meets \<^const>\<open>oxenc_documented\<close>, and a stand-in signature
  scheme in which a signature of a key is that key. No definition of the model uses them.
\<close>

definition hex_digit :: "nat \<Rightarrow> char" where
  "hex_digit d = (if d < 10 then char_of (48 + d) else char_of (87 + d))"

definition hex_value :: "char \<Rightarrow> nat" where
  "hex_value c = (let n = of_char c in if n < 58 then n - 48 else n - 87)"

definition is_hex_digit :: "char \<Rightarrow> bool" where
  "is_hex_digit c \<longleftrightarrow> (let n = (of_char c :: nat) in 48 \<le> n \<and> n \<le> 57 \<or> 97 \<le> n \<and> n \<le> 102)"

definition sample_to_hex :: "bytes \<Rightarrow> string" where
  "sample_to_hex b = concat (map (\<lambda>x. [hex_digit (unat x div 16), hex_digit (unat x mod 16)]) b)"

fun sample_from_hex :: "string \<Rightarrow> bytes" where
  "sample_from_hex (a # b # s) = of_nat (16 * hex_value a + hex_value b) # sample_from_hex s"
| "sample_from_hex _ = []"

definition sample_oxenc :: oxenc_lib where
  "sample_oxenc =
     \<lparr>is_hex = (\<lambda>s. even (length s) \<and> list_all is_hex_digit s),
      from_hex = sample_from_hex, to_hex = sample_to_hex,
      is_base64 = (\<lambda>_. False), from_base64 = (\<lambda>_. []),
      to_base64_size = (\<lambda>n pad. (4 * n + 2) div 3),
      load_big_to_host = foldl (\<lambda>acc x. 256 * acc + ucast x) 0\<rparr>"

definition sample_sodium :: sodium_lib where
  "sample_sodium =
     \<lparr>sign_verify_detached = (\<lambda>sig msg pk. if sig = pk then 0 else - 1),
      pk_to_curve25519 = (\<lambda>pk. (0, pk)),
      generichash_blake2b = (\<lambda>key n msg. as_bytes msg)\<rparr>"

lemma hex_digit_props:
  assumes "d < 16"
  shows "is_hex_digit (hex_digit d)" "hex_value (hex_digit d) = d"
proof -
  have "of_char (hex_digit d) = (if d < 10 then 48 + d else 87 + d)"
    using assms by (simp add: hex_digit_def of_char_of)
  then show "is_hex_digit (hex_digit d)" "hex_value (hex_digit d) = d"
    using assms by (auto simp: is_hex_digit_def hex_value_def Let_def)
qed

lemma byte_split: "unat x div 16 < 16" "unat x mod 16 < 16" for x :: byte
  using unsigned_less [of x, where 'a = nat] by auto

lemma sample_from_to_hex: "sample_from_hex (sample_to_hex b) = b"
proof (induction b)
  case (Cons x b)
  have "16 * (unat x div 16) + unat x mod 16 = unat x" by simp
  with Cons show ?case
    by (simp add: sample_to_hex_def hex_digit_props byte_split)
qed (simp add: sample_to_hex_def)

lemma length_sample_to_hex: "length (sample_to_hex b) = 2 * length b"
  by (induction b) (simp_all add: sample_to_hex_def)

lemma sample_to_hex_digits: "list_all is_hex_digit (sample_to_hex b)"
  by (induction b) (simp_all add: sample_to_hex_def hex_digit_props byte_split)

lemma length_sample_from_hex: "length (sample_from_hex s) = length s div 2"
  by (induction s rule: sample_from_hex.induct) simp_all

lemma sample_oxenc_documented: "oxenc_documented sample_oxenc"
  by (simp add: oxenc_documented_def sample_oxenc_def sample_from_to_hex length_sample_to_hex
      sample_to_hex_digits length_sample_from_hex)

theorem from_hex_or_b64_size_witness:
  "from_hex_or_b64 sample_oxenc 2 ''05ff'' = Inr [0x05, 0xff] \<and> length [0x05, 0xff :: byte] = 2"
proof -
  have "from_hex_or_b64 sample_oxenc 2 ''05ff'' = Inr [0x05, 0xff]"
    by (simp add: from_hex_or_b64_def sample_oxenc_def is_hex_digit_def hex_value_def)
  with from_hex_or_b64_size [OF sample_oxenc_documented this] show ?thesis by blast
qed

theorem from_hex_or_b64_roundtrip_witness:
  "from_hex_or_b64 sample_oxenc 3 (to_hex sample_oxenc [1, 2, 255]) = Inr [1, 2, 255] \<and>
   from_hex_or_b64 sample_oxenc 3 (as_sv [1, 2, 255]) = Inr [1, 2, 255]"
  using from_hex_or_b64_roundtrip [OF sample_oxenc_documented, of "[1, 2, 255]"]
  by (simp add: numeral_3_eq_3)

end
