(* ===== verification/Swarm_Pubkey.thy ===== *)
theory Swarm_Pubkey
  imports Sample_Libs
begin

text \<open>
  \<^verbatim>\<open>spns/swarmpubkey.hpp\<close> and \<^verbatim>\<open>spns/swarmpubkey.cpp\<close>: an account as the swarms see it, its
  position in the 64-bit swarm space and the choice of the closest swarm.
\<close>

unbundle bit_operations_syntax

section \<open>Model\<close>

definition INVALID_SWARM_ID :: u64 where
  "INVALID_SWARM_ID = - 1"

record SwarmPubkey =
  account_id :: bytes
  ed25519 :: bytes
  session_ed :: bool
  swarm_space :: u64
  swarm :: u64

text \<open>\<^verbatim>\<open>SwarmPubkey::operator==\<close>.\<close>

definition same_account :: "SwarmPubkey \<Rightarrow> SwarmPubkey \<Rightarrow> bool" where
  "same_account a other \<longleftrightarrow> account_id a = account_id other"

text \<open>\<^verbatim>\<open>std::hash<SwarmPubkey>\<close>: eight bytes of the account id, from offset 16.\<close>

definition hash_SwarmPubkey :: "SwarmPubkey \<Rightarrow> bytes" where
  "hash_SwarmPubkey x = take 8 (drop 16 (account_id x))"

text \<open>\<^verbatim>\<open>for (int i = 1; i < 33; i += 8)\<close>\<close>

definition calc_swarm_space :: "oxenc_lib \<Rightarrow> bytes \<Rightarrow> u64" where
  "calc_swarm_space ox i =
     foldl (\<lambda>res k. res XOR load_big_to_host ox (take 8 (drop k i))) 0 [1, 9, 17, 25]"

definition SwarmPubkey_ctor ::
  "oxenc_lib \<Rightarrow> sodium_lib \<Rightarrow> bytes \<Rightarrow> bytes option \<Rightarrow> bool \<Rightarrow> SwarmPubkey result" where
  "SwarmPubkey_ctor ox sod acct ed skip_validation =
     (let pk = (\<lambda>e s. \<lparr>account_id = acct, ed25519 = e, session_ed = s,
                       swarm_space = calc_swarm_space ox acct, swarm = INVALID_SWARM_ID\<rparr>)
      in case ed of
           Some e \<Rightarrow>
             if hd acct \<noteq> 0x05 then
               Inl (invalid_argument ''session_ed25519 may only be used with 05-prefixed session IDs'')
             else if skip_validation then Inr (pk e True)
             else
               (case pk_to_curve25519 sod e of (rc, derived) \<Rightarrow>
                  if rc \<noteq> 0 then
                    Inl (invalid_argument ''Failed to convert session_ed25519 to x25519 pubkey'')
                  else if 0x05 # derived \<noteq> acct then
                    Inl (invalid_argument ''account_id/session_ed25519 mismatch: session_ed25519 does not convert to given account_id'')
                  else Inr (pk e True))
         | None \<Rightarrow> Inr (pk (take 32 (drop 1 acct)) False))"

text \<open>
  \<^verbatim>\<open>std::lower_bound\<close> on the sorted id list: the index of the first id that is at least the
  value, the length when there is none.
\<close>

definition lower_bound :: "u64 list \<Rightarrow> u64 \<Rightarrow> nat" where
  "lower_bound xs v = length (takeWhile (\<lambda>x. x < v) xs)"

definition closest_swarm :: "u64 list \<Rightarrow> u64 \<Rightarrow> u64" where
  "closest_swarm swarm_ids space =
     (if length swarm_ids = 0 then INVALID_SWARM_ID
      else if length swarm_ids = 1 then hd swarm_ids
      else
        (let right_it0 = lower_bound swarm_ids space;
             right_it = (if right_it0 = length swarm_ids then 0 else right_it0);
             left_it = (if right_it = 0 then length swarm_ids else right_it) - 1;
             dright = swarm_ids ! right_it - space;
             dleft = space - swarm_ids ! left_it
         in if dright < dleft then swarm_ids ! right_it else swarm_ids ! left_it))"

definition update_swarm :: "u64 list \<Rightarrow> SwarmPubkey \<Rightarrow> bool \<times> SwarmPubkey" where
  "update_swarm swarm_ids pk =
     (let closest = closest_swarm swarm_ids (swarm_space pk)
      in if closest \<noteq> swarm pk then (True, pk\<lparr>swarm := closest\<rparr>) else (False, pk))"

section \<open>Choice of the closest swarm\<close>

text \<open>The specification: the distance of two points on the ring of 64-bit ids.\<close>

definition ring_dist :: "u64 \<Rightarrow> u64 \<Rightarrow> u64" where
  "ring_dist a b = min (a - b) (b - a)"

lemma u64_bounds: "0 \<le> uint x \<and> uint x < 18446744073709551616" for x :: u64
  using unsigned_less [of x, where 'a = int] by simp

lemma ring_up_mono:
  fixes s r x :: u64
  assumes "s \<le> r" "s \<le> x \<Longrightarrow> r \<le> x"
  shows "r - s \<le> x - s"
  using assms unfolding word_le_def
  by (auto simp: uint_sub_if'; insert u64_bounds [of r] u64_bounds [of x]; linarith)

lemma ring_up_wrapped:
  fixes s r x :: u64
  assumes "x < s" "r \<le> x"
  shows "r - s \<le> x - s"
  using assms unfolding word_le_def word_less_def by (auto simp: uint_sub_if')

lemma ring_down_mono:
  fixes s l x :: u64
  assumes "l < s" "x < s \<Longrightarrow> x \<le> l" "x \<noteq> s"
  shows "s - l \<le> s - x"
  using assms unfolding word_le_def word_less_def word_uint_eq_iff
  by (auto simp: uint_sub_if'; insert u64_bounds [of l] u64_bounds [of x]; linarith)

lemma ring_down_wrapped:
  fixes s l x :: u64
  assumes "s < x" "x \<le> l"
  shows "s - l \<le> s - x"
  using assms unfolding word_le_def word_less_def by (auto simp: uint_sub_if')

lemma lower_bound_nth:
  assumes "sorted xs" "i < length xs"
  shows "xs ! i < v \<longleftrightarrow> i < lower_bound xs v"
  using sorted_takeWhile_less_nth [OF assms] by (simp add: lower_bound_def)

lemma lower_bound_le: "lower_bound xs v \<le> length xs"
  by (simp add: lower_bound_def length_takeWhile_le)

text \<open>
  The element at (or after) the lower bound is the nearest one upwards, the one before it the
  nearest one downwards unless the point itself is an id.
\<close>

definition right_of :: "u64 list \<Rightarrow> u64 \<Rightarrow> nat" where
  "right_of xs v = (if lower_bound xs v = length xs then 0 else lower_bound xs v)"

definition left_of :: "u64 list \<Rightarrow> u64 \<Rightarrow> nat" where
  "left_of xs v = (if right_of xs v = 0 then length xs else right_of xs v) - 1"

lemma right_nearest:
  assumes "sorted xs" "x \<in> set xs"
  shows "xs ! right_of xs v - v \<le> x - v"
proof -
  from assms(2) obtain i where i: "i < length xs" "x = xs ! i" by (auto simp: in_set_conv_nth)
  note nth = lower_bound_nth [OF assms(1), where v = v]
  show ?thesis
  proof (cases "lower_bound xs v = length xs")
    case True
    then have "x < v" using nth i by auto
    moreover have "xs ! 0 \<le> x" using assms(1) i by (simp add: sorted_iff_nth_mono)
    ultimately show ?thesis using True by (simp add: right_of_def ring_up_wrapped)
  next
    case False
    then have n: "lower_bound xs v < length xs" using lower_bound_le [of xs v] by linarith
    then have "v \<le> xs ! lower_bound xs v" using nth by (simp add: not_less [symmetric])
    moreover have "xs ! lower_bound xs v \<le> x" if "v \<le> x"
    proof -
      have "lower_bound xs v \<le> i" using nth [OF i(1)] that i by (simp add: not_less [symmetric])
      then show ?thesis using assms(1) i by (simp add: sorted_iff_nth_mono)
    qed
    ultimately show ?thesis using False by (simp add: right_of_def ring_up_mono)
  qed
qed

lemma left_nearest:
  assumes "sorted xs" "x \<in> set xs" "x \<noteq> v"
  shows "v - xs ! left_of xs v \<le> v - x"
proof -
  from assms(2) obtain i where i: "i < length xs" "x = xs ! i" by (auto simp: in_set_conv_nth)
  note nth = lower_bound_nth [OF assms(1), where v = v]
  let ?n = "lower_bound xs v"
  show ?thesis
  proof (cases "?n = 0")
    case True
    then have "v < x" using nth [OF i(1)] i assms(3) by (auto simp: not_less)
    moreover have "x \<le> xs ! (length xs - 1)" using assms(1) i by (simp add: sorted_iff_nth_mono)
    ultimately show ?thesis using True i by (simp add: left_of_def right_of_def ring_down_wrapped)
  next
    case False
    have left: "left_of xs v = ?n - 1" using False by (simp add: left_of_def right_of_def)
    have n: "?n - 1 < length xs" using False lower_bound_le [of xs v] by linarith
    then have "xs ! (?n - 1) < v" using nth False by simp
    moreover have "x \<le> xs ! (?n - 1)" if "x < v"
    proof -
      have "i \<le> ?n - 1" using nth [OF i(1)] that i by simp
      then show ?thesis using assms(1) i n by (simp add: sorted_iff_nth_mono)
    qed
    ultimately show ?thesis using left assms(3) by (simp add: ring_down_mono)
  qed
qed

lemma closest_swarm_many:
  assumes "2 \<le> length xs"
  shows "closest_swarm xs v =
    (if xs ! right_of xs v - v < v - xs ! left_of xs v then xs ! right_of xs v else xs ! left_of xs v)"
proof -
  have "length xs \<noteq> 0" "length xs \<noteq> 1" using assms by auto
  then show ?thesis
    by (simp only: closest_swarm_def right_of_def left_of_def Let_def if_False)
qed

lemma right_left_in_set:
  assumes "xs \<noteq> []"
  shows "xs ! right_of xs v \<in> set xs" "xs ! left_of xs v \<in> set xs"
proof -
  have "right_of xs v < length xs" "left_of xs v < length xs"
    using assms lower_bound_le [of xs v] by (auto simp: right_of_def left_of_def)
  then show "xs ! right_of xs v \<in> set xs" "xs ! left_of xs v \<in> set xs" by simp_all
qed

text \<open>
  C22. With at least one swarm, an account is assigned to an existing swarm at minimal ring
  distance from the account's swarm space position, wrap-around included.
\<close>

theorem closest_swarm_optimal:
  assumes "sorted swarm_ids" "swarm_ids \<noteq> []"
  shows "closest_swarm swarm_ids space \<in> set swarm_ids \<and>
    (\<forall>x \<in> set swarm_ids. ring_dist space (closest_swarm swarm_ids space) \<le> ring_dist space x)"
proof (cases "length swarm_ids = 1")
  case True
  then show ?thesis by (auto simp: closest_swarm_def length_Suc_conv)
next
  case False
  with assms(2) have many: "2 \<le> length swarm_ids"
    by (cases swarm_ids) (auto simp: Suc_le_eq)
  let ?r = "swarm_ids ! right_of swarm_ids space" and ?l = "swarm_ids ! left_of swarm_ids space"
  let ?c = "closest_swarm swarm_ids space"
  have c: "ring_dist space ?c \<le> min (?r - space) (space - ?l)"
    by (auto simp: closest_swarm_many [OF many] ring_dist_def min_def)
  have "min (?r - space) (space - ?l) \<le> ring_dist space x" if x: "x \<in> set swarm_ids" for x
  proof (cases "x = space")
    case True
    then show ?thesis using right_nearest [OF assms(1) x, of space] by simp
  next
    case False
    then show ?thesis
      using right_nearest [OF assms(1) x, of space] left_nearest [OF assms(1) x False]
      by (auto simp: ring_dist_def min_def)
  qed
  with c right_left_in_set [OF assms(2), of space] show ?thesis
    by (auto simp: closest_swarm_many [OF many] intro: order_trans)
qed

theorem closest_swarm_optimal_witness:
  "closest_swarm [10, 100, 2 ^ 63] (- 1) = 10 \<and>
   ring_dist (- 1) (closest_swarm [10, 100, 2 ^ 63] (- 1)) \<le> ring_dist (- 1) 100 \<and>
   ring_dist (- 1) (closest_swarm [10, 100, 2 ^ 63] (- 1)) \<le> ring_dist (- 1) (2 ^ 63)"
proof -
  have s: "sorted [10, 100, 2 ^ 63 :: u64]" by simp
  show ?thesis
    using closest_swarm_optimal [OF s, of "- 1"] by (simp add: closest_swarm_def lower_bound_def)
qed

lemma update_swarm_swarm [simp]: "swarm (snd (update_swarm ids pk)) = closest_swarm ids (swarm_space pk)"
  by (simp add: update_swarm_def Let_def)

lemma update_swarm_frame [simp]:
  "account_id (snd (update_swarm ids pk)) = account_id pk"
  "ed25519 (snd (update_swarm ids pk)) = ed25519 pk"
  "session_ed (snd (update_swarm ids pk)) = session_ed pk"
  "swarm_space (snd (update_swarm ids pk)) = swarm_space pk"
  by (simp_all add: update_swarm_def Let_def)

lemma update_swarm_changed: "fst (update_swarm ids pk) \<longleftrightarrow> snd (update_swarm ids pk) \<noteq> pk"
  by (cases pk) (simp add: update_swarm_def Let_def)

lemma update_swarm_idem: "update_swarm ids (snd (update_swarm ids pk)) = (False, snd (update_swarm ids pk))"
  by (simp add: update_swarm_def Let_def)

end
