(* ===== verification/Signature.thy ===== *)
theory Signature
  imports Swarm_Pubkey
begin

text \<open>
  \<^verbatim>\<open>spns/hive/signature.cpp\<close>: verification of plain account signatures and of subaccount
  signatures, where the account owner signs the subaccount's tag and the subaccount's key
  signs the message.
\<close>

section \<open>Model\<close>

definition verify_signature :: "sodium_lib \<Rightarrow> string \<Rightarrow> bytes \<Rightarrow> bytes \<Rightarrow> string \<Rightarrow> unit result" where
  "verify_signature sod sig_msg sig pubkey descr =
     (if 0 \<noteq> sign_verify_detached sod sig sig_msg pubkey
      then Inl (signature_verify_failure (descr @ '' verification failed''))
      else Inr ())"

definition SUBACC_FLAG_READ :: byte where "SUBACC_FLAG_READ = 0b0001"
definition SUBACC_FLAG_ANY_PREFIX :: byte where "SUBACC_FLAG_ANY_PREFIX = 0b1000"

definition verify_storage_signature ::
  "sodium_lib \<Rightarrow> string \<Rightarrow> bytes \<Rightarrow> SwarmPubkey \<Rightarrow> Subaccount option \<Rightarrow> unit result" where
  "verify_storage_signature sod sig_msg sig pubkey subaccount =
     (case subaccount of
        Some sa \<Rightarrow>
          (let prefix = sub_tag sa ! 0; flags = sub_tag sa ! 1 in
           if and flags SUBACC_FLAG_READ = 0 then
             Inl (signature_verify_failure ''Invalid subaccount: this subaccount does not have read permission'')
           else if and flags SUBACC_FLAG_ANY_PREFIX = 0 \<and> prefix \<noteq> account_id pubkey ! 0 then
             Inl (signature_verify_failure ''Invalid subaccount: subaccount and main account have mismatched network prefix'')
           else
             bind_r (verify_signature sod (as_sv (sub_tag sa)) (sub_sig sa) (ed25519 pubkey)
                       ''Subaccount auth signature'')
               (\<lambda>_. let sub_pk = take 32 (drop 4 (sub_tag sa)) in
                    verify_signature sod sig_msg sig sub_pk ''Subaccount main signature''))
      | None \<Rightarrow> verify_signature sod sig_msg sig (ed25519 pubkey) ''Signature'')"

section \<open>Soundness and completeness of the checks\<close>

text \<open>The specification: who may act for an account.\<close>

definition signed_by :: "sodium_lib \<Rightarrow> bytes \<Rightarrow> string \<Rightarrow> bytes \<Rightarrow> bool" where
  "signed_by sod pk msg sig \<longleftrightarrow> sign_verify_detached sod sig msg pk = 0"

definition authorized :: "sodium_lib \<Rightarrow> SwarmPubkey \<Rightarrow> Subaccount option \<Rightarrow> string \<Rightarrow> bytes \<Rightarrow> bool" where
  "authorized sod pubkey subaccount msg sig \<longleftrightarrow>
     (case subaccount of
        None \<Rightarrow> signed_by sod (ed25519 pubkey) msg sig
      | Some sa \<Rightarrow>
          signed_by sod (ed25519 pubkey) (as_sv (sub_tag sa)) (sub_sig sa) \<and>
          signed_by sod (take 32 (drop 4 (sub_tag sa))) msg sig \<and>
          bit (sub_tag sa ! 1) 0 \<and>
          (bit (sub_tag sa ! 1) 3 \<or> sub_tag sa ! 0 = account_id pubkey ! 0))"

lemma verify_signature_ok: "verify_signature sod msg sig pk d = Inr () \<longleftrightarrow> signed_by sod pk msg sig"
  by (simp add: verify_signature_def signed_by_def)

lemma verify_signature_err:
  "verify_signature sod msg sig pk d = Inl e \<longleftrightarrow>
     \<not> signed_by sod pk msg sig \<and> e = signature_verify_failure (d @ '' verification failed'')"
  by (auto simp: verify_signature_def signed_by_def)

lemma flag_read_bit: "and flags SUBACC_FLAG_READ = 0 \<longleftrightarrow> \<not> bit flags 0" for flags :: byte
  by (simp add: SUBACC_FLAG_READ_def and_one_eq odd_iff_mod_2_eq_one bit_0 even_iff_mod_2_eq_zero)

lemma flag_any_prefix_bit: "and flags SUBACC_FLAG_ANY_PREFIX = 0 \<longleftrightarrow> \<not> bit flags 3" for flags :: byte
  using and_exp_eq_0_iff_not_bit [of flags 3] by (simp add: SUBACC_FLAG_ANY_PREFIX_def)

lemma verify_storage_authorized:
  "verify_storage_signature sod msg sig pubkey subaccount = Inr u \<longleftrightarrow>
   authorized sod pubkey subaccount msg sig"
  by (auto simp: verify_storage_signature_def authorized_def Let_def result_simps verify_signature_ok
      flag_read_bit flag_any_prefix_bit split: option.splits if_splits)

text \<open>
  C27. The check succeeds exactly for authorized requests: without a subaccount, the account's own
  key signed the message; with one, the owner signed the tag, the tag's key signed the message,
  the tag grants read access, and its network prefix is the account's or wildcard.
\<close>

theorem verify_storage_signature_iff:
  "verify_storage_signature sod msg sig pubkey subaccount = Inr () \<longleftrightarrow>
   authorized sod pubkey subaccount msg sig"
  by (rule verify_storage_authorized)

lemma verify_storage_signature_error:
  assumes "verify_storage_signature sod msg sig pubkey subaccount = Inl e"
  shows "\<exists>m. e = signature_verify_failure m"
  using assms by (auto simp: verify_storage_signature_def Let_def result_simps verify_signature_err
      split: option.splits if_splits)

end
