(* ===== verification/Subscription.thy ===== *)
theory Subscription
  imports Signature
begin

text \<open>
  \<^verbatim>\<open>spns/hive/subscription.hpp\<close> and \<^verbatim>\<open>spns/hive/subscription.cpp\<close>: one account subscription, its
  validation when it is constructed, and the comparisons that decide which subscriptions the
  hivemind keeps.
\<close>

section \<open>Model\<close>

definition SIGNATURE_EXPIRY :: seconds where "SIGNATURE_EXPIRY = 14 * 24 * 3600"
definition SIGNATURE_EARLY :: seconds where "SIGNATURE_EARLY = 24 * 3600"

record Subscription =
  subaccount :: "Subaccount option"
  namespaces :: "int list"
  want_data :: bool
  sig_ts :: seconds
  sig :: bytes

definition append_int :: "string \<Rightarrow> int \<Rightarrow> string" where
  "append_int s val = s @ to_chars val"

text \<open>The loop over \<^verbatim>\<open>i = 1 ..< namespaces.size()\<close>.\<close>

fun check_namespaces :: "int list \<Rightarrow> unit result" where
  "check_namespaces (a # b # ns) =
     (if a > b then Inl (invalid_argument ''Subscription: namespaces are not sorted numerically'')
      else if a = b then Inl (invalid_argument ''Subscription: namespaces contains duplicates'')
      else check_namespaces (b # ns))"
| "check_namespaces ns = Inr ()"

text \<open>The loop that appends the namespaces; the flag says whether this is the first one.\<close>

fun append_namespaces :: "bool \<Rightarrow> string \<Rightarrow> int list \<Rightarrow> string" where
  "append_namespaces first s [] = s"
| "append_namespaces first s (n # ns) =
     append_namespaces False (append_int (if first then s else s @ '','') n) ns"

definition monitor_sig_msg ::
  "oxenc_lib \<Rightarrow> SwarmPubkey \<Rightarrow> seconds \<Rightarrow> bool \<Rightarrow> int list \<Rightarrow> string" where
  "monitor_sig_msg ox pubkey ts wd ns =
     (let m = ''MONITOR'';
          m = m @ to_hex ox (account_id pubkey);
          m = append_int m ts;
          m = m @ (if wd then ''1'' else ''0'')
      in append_namespaces True m ns)"

definition Subscription_ctor ::
  "oxenc_lib \<Rightarrow> sodium_lib \<Rightarrow> SwarmPubkey \<Rightarrow> Subaccount option \<Rightarrow> int list \<Rightarrow> bool \<Rightarrow> seconds \<Rightarrow>
   bytes \<Rightarrow> bool \<Rightarrow> seconds \<Rightarrow> Subscription result" where
  "Subscription_ctor ox sod pubkey subacc ns wd ts sg skip_validation now =
     bind_r (guard_r (length ns = 0)
              (invalid_argument ''Subscription: namespaces missing or empty'')) (\<lambda>_.
     bind_r (check_namespaces ns) (\<lambda>_.
     bind_r (guard_r (ts = 0)
              (invalid_argument ''Subscription: signature timestamp is missing'')) (\<lambda>_.
     bind_r (guard_r (sub64 now ts \<ge> SIGNATURE_EXPIRY)
              (invalid_argument (''Subscription: sig_ts timestamp is too old ('' @
                 to_chars (sub64 now ts) @ ''s ago)''))) (\<lambda>_.
     bind_r (guard_r (sub64 ts now \<ge> SIGNATURE_EARLY)
              (invalid_argument ''Subscription: sig_ts timestamp is too far in the future'')) (\<lambda>_.
     bind_r (if skip_validation then Inr ()
             else verify_storage_signature sod (monitor_sig_msg ox pubkey ts wd ns) sg pubkey subacc) (\<lambda>_.
     Inr \<lparr>subaccount = subacc, namespaces = ns, want_data = wd, sig_ts = ts, sig = sg\<rparr>))))))"

definition is_same_params :: "Subscription \<Rightarrow> Subaccount option \<Rightarrow> int list \<Rightarrow> bool \<Rightarrow> bool" where
  "is_same_params s o_subaccount o_namespaces o_want_data \<longleftrightarrow>
     is_same_subaccount (subaccount s) o_subaccount \<and>
     length (namespaces s) = length o_namespaces \<and>
     list_all2 (=) (namespaces s) o_namespaces \<and>
     want_data s = o_want_data"

definition is_same :: "Subscription \<Rightarrow> Subscription \<Rightarrow> bool" where
  "is_same s other = is_same_params s (subaccount other) (namespaces other) (want_data other)"

function covers_loop :: "int list \<Rightarrow> int list \<Rightarrow> nat \<Rightarrow> nat \<Rightarrow> bool" where
  "covers_loop ns other i j =
     (if j < length other then
        if i \<ge> length ns then False
        else if ns ! i > other ! j then False
        else covers_loop ns other (Suc i) (if ns ! i = other ! j then Suc j else j)
      else True)"
  by pat_completeness auto
termination
  by (relation "measure (\<lambda>(ns, other, i, j). length ns - i)") auto

declare covers_loop.simps [simp del]

definition covers :: "Subscription \<Rightarrow> Subscription \<Rightarrow> bool" where
  "covers s other =
     (if \<not> is_same_subaccount (subaccount s) (subaccount other) then False
      else if want_data other \<and> \<not> want_data s then False
      else covers_loop (namespaces s) (namespaces other) 0 0)"

definition is_expired :: "Subscription \<Rightarrow> seconds \<Rightarrow> bool" where
  "is_expired s now \<longleftrightarrow> sub64 now (sig_ts s) \<ge> SIGNATURE_EXPIRY"

definition is_newer :: "Subscription \<Rightarrow> Subscription \<Rightarrow> bool" where
  "is_newer s other \<longleftrightarrow> sig_ts s > sig_ts other"

section \<open>Well-formed subscriptions\<close>

text \<open>What a constructed subscription always satisfies: namespaces non-empty, strictly ascending.\<close>

definition wf_Subscription :: "Subscription \<Rightarrow> bool" where
  "wf_Subscription s \<longleftrightarrow> namespaces s \<noteq> [] \<and> sorted_wrt (<) (namespaces s)"

lemma check_namespaces_ok: "check_namespaces ns = Inr () \<longleftrightarrow> sorted_wrt (<) ns"
proof (induction ns rule: check_namespaces.induct)
  case (1 a b ns)
  then show ?case by auto
qed simp_all

lemma timestamp_window:
  assumes "is_int64 ts" "0 \<le> now" "now < 2 ^ 62"
  shows "sub64 now ts < SIGNATURE_EXPIRY \<and> sub64 ts now < SIGNATURE_EARLY \<longleftrightarrow>
    (now - SIGNATURE_EXPIRY < ts \<and> ts < now + SIGNATURE_EARLY) \<or> ts = now - 2 ^ 63"
proof -
  have ts: "- (2 ^ 63) \<le> ts" "ts < 2 ^ 63"
    using assms(1) by (simp_all add: is_int64_def int64_min_def int64_max_def)
  consider (far) "now - ts > 2 ^ 63" | (edge) "now - ts = 2 ^ 63" | (near) "now - ts < 2 ^ 63"
    by linarith
  then show ?thesis
  proof cases
    case far
    then have "sub64 ts now = ts - now + 2 ^ 64"
      unfolding sub64_def using assms ts by (intro wrap64_below) simp_all
    with far assms ts show ?thesis
      by (auto simp: SIGNATURE_EXPIRY_def SIGNATURE_EARLY_def)
  next
    case edge
    then have "sub64 now ts = - (2 ^ 63)" "sub64 ts now = - (2 ^ 63)"
      unfolding sub64_def
      using wrap64_above [of "now - ts"] wrap64_id [of "ts - now"]
      by (simp_all add: is_int64_def int64_min_def int64_max_def)
    with edge show ?thesis
      by (simp add: SIGNATURE_EXPIRY_def SIGNATURE_EARLY_def)
  next
    case near
    then have "sub64 now ts = now - ts" "sub64 ts now = ts - now"
      unfolding sub64_def using assms ts
      by (auto intro!: wrap64_id simp: is_int64_def int64_min_def int64_max_def)
    with near show ?thesis
      by (auto simp: SIGNATURE_EXPIRY_def SIGNATURE_EARLY_def)
  qed
qed

text \<open>
  C29. The constructor accepts exactly the well-formed requests: a non-empty, strictly ascending
  namespace list, a non-zero timestamp less than 14 days old and less than 24 hours ahead, and
  (unless validation is skipped) an authorized signature of the MONITOR message. The 64-bit
  subtraction wraps, so one absurd timestamp, exactly \<open>2^63\<close> seconds before now, also passes the
  window test.
\<close>

theorem Subscription_ctor_accepts_iff:
  assumes "is_int64 ts" "0 \<le> now" "now < 2 ^ 62"
  shows "Subscription_ctor ox sod pubkey subacc ns wd ts sg skip now = Inr s \<longleftrightarrow>
    s = \<lparr>subaccount = subacc, namespaces = ns, want_data = wd, sig_ts = ts, sig = sg\<rparr> \<and>
    ns \<noteq> [] \<and> sorted_wrt (<) ns \<and> ts \<noteq> 0 \<and>
    (now - SIGNATURE_EXPIRY < ts \<and> ts < now + SIGNATURE_EARLY \<or> ts = now - 2 ^ 63) \<and>
    (skip \<or> authorized sod pubkey subacc (monitor_sig_msg ox pubkey ts wd ns) sg)"
  unfolding timestamp_window [OF assms, symmetric]
  by (auto simp: Subscription_ctor_def result_simps check_namespaces_ok not_le
      verify_storage_authorized)

lemma Subscription_ctor_wf:
  assumes "Subscription_ctor ox sod pubkey subacc ns wd ts sg skip now = Inr s"
  shows "wf_Subscription s"
  using assms by (auto simp: Subscription_ctor_def result_simps check_namespaces_ok wf_Subscription_def
      split: if_splits)

lemma Subscription_ctor_skip:
  assumes "ns \<noteq> []" "sorted_wrt (<) ns" "ts \<noteq> 0" "now - SIGNATURE_EXPIRY < ts" "ts < now + SIGNATURE_EARLY"
  shows "Subscription_ctor ox sod pubkey subacc ns wd ts sg True now =
    Inr \<lparr>subaccount = subacc, namespaces = ns, want_data = wd, sig_ts = ts, sig = sg\<rparr>"
proof -
  have "sub64 now ts = now - ts" "sub64 ts now = ts - now"
    unfolding sub64_def using assms(4,5)
    by (auto intro!: wrap64_id simp: is_int64_def int64_min_def int64_max_def SIGNATURE_EXPIRY_def SIGNATURE_EARLY_def)
  with assms show ?thesis by (simp add: Subscription_ctor_def guard_r_def check_namespaces_ok [THEN iffD2])
qed

lemma Subscription_ctor_fields:
  assumes "Subscription_ctor ox sod pubkey subacc ns wd ts sg skip now = Inr s"
  shows "s = \<lparr>subaccount = subacc, namespaces = ns, want_data = wd, sig_ts = ts, sig = sg\<rparr> \<and>
    (skip \<or> authorized sod pubkey subacc (monitor_sig_msg ox pubkey ts wd ns) sg)"
  using assms by (auto simp: Subscription_ctor_def result_simps verify_storage_authorized split: if_splits)

section \<open>Coverage\<close>

lemma drop_nth_Cons: "i < length xs \<Longrightarrow> drop i xs = xs ! i # drop (Suc i) xs"
  by (rule Cons_nth_drop_Suc [symmetric])

lemma sorted_drop_greater:
  assumes "sorted_wrt (<) xs" "i < length xs" "x \<in> set (drop (Suc i) xs)"
  shows "xs ! i < x"
proof -
  have "sorted_wrt (<) (drop i xs)" using assms(1) by (rule sorted_wrt_drop)
  then show ?thesis using assms(2,3) by (simp add: drop_nth_Cons)
qed

lemma covers_loop_subset:
  assumes "sorted_wrt (<) ns" "sorted_wrt (<) other"
  shows "covers_loop ns other i j \<longleftrightarrow> set (drop j other) \<subseteq> set (drop i ns)"
  using assms
proof (induction ns other i j rule: covers_loop.induct)
  case (1 ns other i j)
  show ?case
  proof (cases "j < length other \<and> i < length ns")
    case False
    then show ?thesis by (auto simp: covers_loop.simps [of ns other i j])
  next
    case True
    then have o: "drop j other = other ! j # drop (Suc j) other"
      and n: "drop i ns = ns ! i # drop (Suc i) ns" by (simp_all add: drop_nth_Cons)
    have gt_o: "other ! j < x" if "x \<in> set (drop (Suc j) other)" for x
      using "1.prems"(2) True that by (simp add: sorted_drop_greater)
    have gt_n: "ns ! i < x" if "x \<in> set (drop (Suc i) ns)" for x
      using "1.prems"(1) True that by (simp add: sorted_drop_greater)
    consider (gr) "ns ! i > other ! j" | (eq) "ns ! i = other ! j" | (lt) "ns ! i < other ! j"
      by linarith
    then show ?thesis
    proof cases
      case gr
      then have "other ! j \<notin> set (drop i ns)" using gt_n [of "other ! j"] by (auto simp: n)
      with gr True show ?thesis by (auto simp: covers_loop.simps [of ns other i j] o)
    next
      case eq
      then have "covers_loop ns other i j \<longleftrightarrow> set (drop (Suc j) other) \<subseteq> set (drop (Suc i) ns)"
        using True "1.IH" "1.prems" by (simp add: covers_loop.simps [of ns other i j])
      with eq show ?thesis using gt_o by (auto simp: o n)
    next
      case lt
      then have "covers_loop ns other i j \<longleftrightarrow> set (drop j other) \<subseteq> set (drop (Suc i) ns)"
        using True "1.IH" "1.prems" by (simp add: covers_loop.simps [of ns other i j])
      moreover have "ns ! i \<notin> set (drop j other)" using lt gt_o [of "ns ! i"] by (auto simp: o)
      ultimately show ?thesis by (auto simp: n)
    qed
  qed
qed

text \<open>
  C34. On well-formed subscriptions the two-pointer walk of \<^verbatim>\<open>covers\<close> decides namespace inclusion:
  one subscription covers another exactly when both carry the same subaccount tag, it includes
  message data if the other wants it, and it monitors every namespace of the other.
\<close>

theorem covers_iff:
  assumes "wf_Subscription s" "wf_Subscription other"
  shows "covers s other \<longleftrightarrow>
    is_same_subaccount (subaccount s) (subaccount other) \<and>
    (want_data other \<longrightarrow> want_data s) \<and> set (namespaces other) \<subseteq> set (namespaces s)"
  using assms by (auto simp: covers_def wf_Subscription_def covers_loop_subset)

definition sample_sub :: "Subaccount option \<Rightarrow> int list \<Rightarrow> bool \<Rightarrow> Subscription" where
  "sample_sub sa ns wd = \<lparr>subaccount = sa, namespaces = ns, want_data = wd, sig_ts = 1700000000, sig = []\<rparr>"

theorem covers_iff_witness:
  "let sa = Some \<lparr>sub_tag = [3, 1], sub_sig = []\<rparr>;
       s = sample_sub sa [- 400, 0, 1, 17] True; s' = sample_sub sa [- 400, 17] False
   in covers s s' \<and> \<not> covers s' s"
proof -
  have "wf_Subscription (sample_sub sa [- 400, 0, 1, 17] True)"
    "wf_Subscription (sample_sub sa [- 400, 17] False)" for sa
    by (simp_all add: wf_Subscription_def sample_sub_def)
  from covers_iff [OF this] covers_iff [OF this(2,1)] show ?thesis
    by (simp add: Let_def sample_sub_def is_same_subaccount_iff)
qed


lemma is_same_iff:
  "is_same s other \<longleftrightarrow>
     is_same_subaccount (subaccount s) (subaccount other) \<and>
     namespaces s = namespaces other \<and> want_data s = want_data other"
  by (auto simp: is_same_def is_same_params_def list.rel_eq)

section \<open>The signed MONITOR message\<close>

lemma append_namespaces_eq:
  "append_namespaces False s ns = s @ concat (map (\<lambda>n. CHR '','' # to_chars n) ns)"
  by (induction ns arbitrary: s) (simp_all add: append_int_def)

lemma join_Cons: "join d (p # ps) = p @ (if ps = [] then [] else d @ join d ps)"
  by (cases ps) simp_all

lemma concat_comma_join:
  "concat (map (\<lambda>n. CHR '','' # to_chars n) ns) =
     (if ns = [] then [] else CHR '','' # join '','' (map to_chars ns))"
  by (induction ns) (simp_all add: join_Cons)

lemma append_namespaces_join:
  "append_namespaces True s ns = s @ join '','' (map to_chars ns)"
  by (cases ns) (simp_all add: append_int_def append_namespaces_eq concat_comma_join join_Cons)

lemma append_same_length: "xs @ ys = xs' @ ys' \<Longrightarrow> length xs = length xs' \<Longrightarrow> xs = xs' \<and> ys = ys'"
  by simp

lemma split_at_first:
  "c \<notin> set p \<Longrightarrow> c \<notin> set q \<Longrightarrow> p @ c # r = q @ c # r' \<Longrightarrow> p = q \<and> r = r'"
proof (induction p arbitrary: q)
  case Nil
  then show ?case by (cases q) auto
next
  case (Cons x p)
  then show ?case by (cases q) auto
qed

lemma join_inj:
  assumes "ps \<noteq> []" "qs \<noteq> []" "join [c] ps = join [c] qs"
    and "\<forall>p \<in> set ps. c \<notin> set p" "\<forall>q \<in> set qs. c \<notin> set q"
  shows "ps = qs"
  using assms
proof (induction "[c]" ps arbitrary: qs rule: join.induct)
  case 1
  then show ?case by simp
next
  case (2 p)
  then show ?case by (cases "([c], qs)" rule: join.cases) auto
next
  case (3 p p' ps)
  then obtain q q' qs' where qs: "qs = q # q' # qs'"
    by (cases "([c], qs)" rule: join.cases) auto
  with "3.prems" have "p @ c # join [c] (p' # ps) = q @ c # join [c] (q' # qs')"
    "c \<notin> set p" "c \<notin> set q" by simp_all
  then have "p = q" "join [c] (p' # ps) = join [c] (q' # qs')"
    using split_at_first [of c p q] by blast+
  moreover have "p' # ps = q' # qs'"
    using "3.prems" qs calculation(2) by (intro "3.hyps") auto
  ultimately show ?case by (simp add: qs)
qed

lemma to_chars_no_comma: "CHR '','' \<notin> set (to_chars i)"
proof -
  have "\<not> is_digit (CHR '','')" by (simp add: is_digit_def)
  then show ?thesis using nat_chars_digits by (auto simp: to_chars_def)
qed

lemma join_to_chars_inj:
  assumes "ms \<noteq> []" "ns \<noteq> []" "join '','' (map to_chars ms) = join '','' (map to_chars ns)"
  shows "ms = ns"
proof -
  have "map to_chars ms = map to_chars ns"
    using assms to_chars_no_comma by (intro join_inj [of _ _ "CHR '',''"]) auto
  then show ?thesis
    by (metis (no_types, lifting) inj_onI map_inj_on to_chars_inj)
qed

lemma length_ten_digits:
  assumes "10 ^ 9 \<le> t" "t < 10 ^ 10"
  shows "length (to_chars t) = 10"
proof -
  have "10 ^ 9 \<le> nat t" "nat t < 10 ^ 10" using assms by auto
  then have "length (nat_chars (nat t)) = 10"
    using length_nat_chars_ge [of 9 "nat t"] length_nat_chars_le [of 10 "nat t"] by simp
  then show ?thesis using assms by (simp add: to_chars_def)
qed

text \<open>
  C35. The signed message is unambiguous: for ten-digit timestamps (2001 to 2286) two accounts,
  timestamps, data flags and namespace lists that give the same MONITOR text are the same, so a
  signature cannot be replayed for other subscription parameters.
\<close>

theorem monitor_sig_msg_inj:
  assumes "oxenc_documented ox"
    and "length (account_id p) = AccountID_SIZE" "length (account_id p') = AccountID_SIZE"
    and "10 ^ 9 \<le> ts" "ts < 10 ^ 10" "10 ^ 9 \<le> ts'" "ts' < 10 ^ 10" "ns \<noteq> []" "ns' \<noteq> []"
    and eq: "monitor_sig_msg ox p ts wd ns = monitor_sig_msg ox p' ts' wd' ns'"
  shows "account_id p = account_id p' \<and> ts = ts' \<and> wd = wd' \<and> ns = ns'"
proof -
  have hex: "length (to_hex ox (account_id p)) = length (to_hex ox (account_id p'))"
    and dec: "from_hex ox (to_hex ox b) = b" for b
    using assms(1-3) by (simp_all add: oxenc_documented_def)
  have len: "length (to_chars ts) = length (to_chars ts')"
    using assms by (simp add: length_ten_digits)
  let ?tail = "\<lambda>wd ns. (if wd then CHR ''1'' else CHR ''0'') # join '','' (map to_chars ns)"
  from eq have "to_hex ox (account_id p) @ to_chars ts @ ?tail wd ns =
      to_hex ox (account_id p') @ to_chars ts' @ ?tail wd' ns'"
    by (simp add: monitor_sig_msg_def append_namespaces_join append_int_def Let_def split: if_splits)
  with hex have id: "to_hex ox (account_id p) = to_hex ox (account_id p')"
    and "to_chars ts @ ?tail wd ns = to_chars ts' @ ?tail wd' ns'"
    using append_same_length by blast+
  with len have "to_chars ts = to_chars ts'" and tail: "?tail wd ns = ?tail wd' ns'"
    using append_same_length by blast+
  then have "ts = ts'" by (simp add: to_chars_inj)
  moreover from tail have "wd = wd'" "join '','' (map to_chars ns) = join '','' (map to_chars ns')"
    by (auto split: if_splits)
  ultimately show ?thesis
    using assms(8,9) id dec by (metis join_to_chars_inj)
qed

section \<open>Instances\<close>

definition sample_account :: "byte \<Rightarrow> bytes" where
  "sample_account b = 0x03 # replicate 32 b"

definition sample_pk :: "byte \<Rightarrow> SwarmPubkey" where
  "sample_pk b = \<lparr>account_id = sample_account b, ed25519 = replicate 32 b, session_ed = False,
     swarm_space = calc_swarm_space sample_oxenc (sample_account b), swarm = INVALID_SWARM_ID\<rparr>"

theorem Subscription_ctor_accepts_iff_witness:
  "Subscription_ctor sample_oxenc sample_sodium (sample_pk 7) None [- 400, 0] True 1700000000
     (replicate 32 7) False 1700000100 =
   Inr \<lparr>subaccount = None, namespaces = [- 400, 0], want_data = True, sig_ts = 1700000000,
        sig = replicate 32 7\<rparr>"
  by (subst Subscription_ctor_accepts_iff)
    (simp_all add: is_int64_def int64_min_def int64_max_def SIGNATURE_EXPIRY_def SIGNATURE_EARLY_def
      authorized_def signed_by_def sample_sodium_def sample_pk_def)

theorem monitor_sig_msg_inj_witness:
  "monitor_sig_msg sample_oxenc (sample_pk 7) 1700000000 True [0, 1] \<noteq>
   monitor_sig_msg sample_oxenc (sample_pk 7) 1700000000 False [1, 0]"
proof
  assume "monitor_sig_msg sample_oxenc (sample_pk 7) 1700000000 True [0, 1] =
    monitor_sig_msg sample_oxenc (sample_pk 7) 1700000000 False [1, 0]"
  from monitor_sig_msg_inj [OF sample_oxenc_documented _ _ _ _ _ _ _ _ this] show False
    by (simp add: sample_pk_def sample_account_def AccountID_SIZE_def)
qed

end
