(* ===== verification/Database.thy ===== *)
theory Database
  imports Subscription
begin

text \<open>
  The PostgreSQL tables of \<^verbatim>\<open>spns/schema.pgsql\<close> and the SQL statements of \<^verbatim>\<open>spns/hivemind.cpp\<close> over
  them. A statement is a function of the whole database; a transaction that throws leaves the
  database as it was. Rows carry the identity column, the three key columns of the UNIQUE
  constraint and the columns an UPDATE sets.
\<close>

section \<open>Tables\<close>

record sub_values =
  session_ed25519 :: "bytes option"
  subaccount_tag :: "bytes option"
  subaccount_sig :: "bytes option"
  signature :: bytes
  signature_ts :: seconds
  row_want_data :: bool
  row_enc_key :: bytes
  svcdata :: "string option"

record sub_row =
  row_id :: int
  row_account :: bytes
  row_service :: string
  row_svcid :: string
  row_vals :: sub_values

datatype stat_val = ValStr string | ValInt int

record DB =
  subscriptions :: "sub_row list"
  sub_namespaces :: "(int \<times> int) list"
  service_stats :: "((string \<times> string) \<times> stat_val) list"
  next_id :: int

type_synonym sub_key = "bytes \<times> string \<times> string"

definition row_key :: "sub_row \<Rightarrow> sub_key" where
  "row_key r = (row_account r, row_service r, row_svcid r)"

section \<open>Statements\<close>

text \<open>\<^verbatim>\<open>set_stat\<close> (string and integer) and \<^verbatim>\<open>increment_stat\<close>; BIGINT addition that overflows is an error.\<close>

definition set_stat_str :: "string \<Rightarrow> string \<Rightarrow> string \<Rightarrow> DB \<Rightarrow> DB" where
  "set_stat_str service name val db =
     db\<lparr>service_stats := AList.update (service, name) (ValStr val) (service_stats db)\<rparr>"

definition set_stat_int :: "string \<Rightarrow> string \<Rightarrow> int \<Rightarrow> DB \<Rightarrow> DB" where
  "set_stat_int service name val db =
     db\<lparr>service_stats := AList.update (service, name) (ValInt val) (service_stats db)\<rparr>"

definition increment_stat :: "string \<Rightarrow> string \<Rightarrow> int \<Rightarrow> DB \<Rightarrow> DB result" where
  "increment_stat service name incr db =
     (let v = (case map_of (service_stats db) (service, name) of
                 None \<Rightarrow> incr
               | Some (ValStr _) \<Rightarrow> 0 + incr
               | Some (ValInt old) \<Rightarrow> old + incr)
      in if is_int64 v then Inr (set_stat_int service name v db)
         else Inl (sql_error ''bigint out of range''))"

text \<open>\<^verbatim>\<open>ARRAY(SELECT namespace FROM sub_namespaces WHERE subscription = id ORDER BY namespace)\<close>\<close>

definition namespaces_of :: "DB \<Rightarrow> int \<Rightarrow> int list" where
  "namespaces_of db i = sort (map snd (filter (\<lambda>e. fst e = i) (sub_namespaces db)))"

text \<open>\<^verbatim>\<open>DELETE FROM subscriptions WHERE ...\<close>, with ON DELETE CASCADE on the namespaces.\<close>

definition delete_subscriptions :: "(sub_row \<Rightarrow> bool) \<Rightarrow> DB \<Rightarrow> nat \<times> DB" where
  "delete_subscriptions P db =
     (let gone = filter P (subscriptions db) in
      (length gone,
       db\<lparr>subscriptions := filter (\<lambda>r. \<not> P r) (subscriptions db),
          sub_namespaces := filter (\<lambda>e. fst e \<notin> row_id ` set gone) (sub_namespaces db)\<rparr>))"

definition delete_namespaces :: "int \<Rightarrow> DB \<Rightarrow> DB" where
  "delete_namespaces i db = db\<lparr>sub_namespaces := filter (\<lambda>e. fst e \<noteq> i) (sub_namespaces db)\<rparr>"

fun insert_namespaces :: "int \<Rightarrow> int list \<Rightarrow> DB \<Rightarrow> DB result" where
  "insert_namespaces i [] db = Inr db"
| "insert_namespaces i (n # ns) db =
     (if (i, n) \<in> set (sub_namespaces db) then Inl (sql_error ''duplicate key in sub_namespaces'')
      else insert_namespaces i ns (db\<lparr>sub_namespaces := sub_namespaces db @ [(i, n)]\<rparr>))"

definition select_subscription :: "sub_key \<Rightarrow> DB \<Rightarrow> sub_row option" where
  "select_subscription key db = find (\<lambda>r. row_key r = key) (subscriptions db)"

definition update_subscription :: "int \<Rightarrow> sub_values \<Rightarrow> DB \<Rightarrow> DB" where
  "update_subscription i vals db =
     db\<lparr>subscriptions := map (\<lambda>r. if row_id r = i then r\<lparr>row_vals := vals\<rparr> else r) (subscriptions db)\<rparr>"

definition insert_subscription :: "sub_key \<Rightarrow> sub_values \<Rightarrow> DB \<Rightarrow> (int \<times> DB) result" where
  "insert_subscription key vals db =
     (if \<exists>r \<in> set (subscriptions db). row_key r = key
      then Inl (sql_error ''duplicate key in subscriptions'')
      else case key of (account, service, svcid) \<Rightarrow>
        Inr (next_id db,
             db\<lparr>subscriptions := subscriptions db @
                  [\<lparr>row_id = next_id db, row_account = account, row_service = service,
                    row_svcid = svcid, row_vals = vals\<rparr>],
                next_id := next_id db + 1\<rparr>))"

section \<open>Transactions\<close>

text \<open>The columns \<^verbatim>\<open>add_subscription\<close> writes.\<close>

definition vals_of :: "SwarmPubkey \<Rightarrow> Subscription \<Rightarrow> bytes \<Rightarrow> string option \<Rightarrow> sub_values" where
  "vals_of pubkey sub enc_key service_data =
     \<lparr>session_ed25519 = (if session_ed pubkey then Some (ed25519 pubkey) else None),
      subaccount_tag = map_option sub_tag (subaccount sub),
      subaccount_sig = map_option sub_sig (subaccount sub),
      signature = sig sub, signature_ts = sig_ts sub, row_want_data = want_data sub,
      row_enc_key = enc_key, svcdata = service_data\<rparr>"

text \<open>\<^verbatim>\<open>for (const auto& s : {""s, service}) increment_stat(tx, s, ..., 1)\<close>\<close>

definition count_subscription :: "bool \<Rightarrow> string \<Rightarrow> DB \<Rightarrow> DB result" where
  "count_subscription new_sub service db =
     (let name = (if new_sub then ''subscription'' else ''sub_renew'')
      in bind_r (increment_stat '''' name 1 db) (increment_stat service name 1))"

text \<open>
  The database half of \<^verbatim>\<open>HiveMind::add_subscription\<close>, up to \<^verbatim>\<open>tx.commit()\<close>; the result says whether
  the subscription is new.
\<close>

definition upsert_subscription :: "sub_key \<Rightarrow> sub_values \<times> int list \<Rightarrow> DB \<Rightarrow> (bool \<times> DB) result" where
  "upsert_subscription key v db =
     (case v of (vals, ns) \<Rightarrow>
      bind_r
        (case select_subscription key db of
           Some row \<Rightarrow>
             (let i = row_id row;
                  insert_ns = (namespaces_of db i \<noteq> ns);
                  db1 = update_subscription i vals db
              in Inr (False, insert_ns, i, if insert_ns then delete_namespaces i db1 else db1))
         | None \<Rightarrow>
             bind_r (insert_subscription key vals db) (\<lambda>(i, db1). Inr (True, True, i, db1)))
        (\<lambda>(new_sub, insert_ns, i, db1).
           bind_r (if insert_ns then insert_namespaces i ns db1 else Inr db1) (\<lambda>db2.
           bind_r (count_subscription new_sub (fst (snd key)) db2) (\<lambda>db3.
           Inr (new_sub, db3)))))"

definition add_subscription_tx ::
  "SwarmPubkey \<Rightarrow> string \<Rightarrow> string \<Rightarrow> string option \<Rightarrow> bytes \<Rightarrow> Subscription \<Rightarrow> DB \<Rightarrow> (bool \<times> DB) result" where
  "add_subscription_tx pubkey service service_id service_data enc_key sub db =
     upsert_subscription (account_id pubkey, service, service_id)
       (vals_of pubkey sub enc_key service_data, namespaces sub) db"

text \<open>The \<^verbatim>\<open>DELETE\<close> of \<^verbatim>\<open>remove_subscription\<close>, one of \<^verbatim>\<open>on_drop_registrations\<close>, and \<^verbatim>\<open>db_cleanup\<close>.\<close>

definition remove_subscription_tx :: "sub_key \<Rightarrow> DB \<Rightarrow> bool \<times> DB" where
  "remove_subscription_tx key db =
     (case delete_subscriptions (\<lambda>r. row_key r = key) db of (n, db') \<Rightarrow> (n > 0, db'))"

definition drop_registration :: "string \<Rightarrow> string \<Rightarrow> DB \<Rightarrow> nat \<times> DB" where
  "drop_registration service svcid db =
     delete_subscriptions (\<lambda>r. row_service r = service \<and> row_svcid r = svcid) db"

definition db_cleanup :: "nanos \<Rightarrow> DB \<Rightarrow> DB" where
  "db_cleanup now db =
     snd (delete_subscriptions
       (\<lambda>r. signature_ts (row_vals r) \<le> unix_timestamp (now - SIGNATURE_EXPIRY * nanos_per_sec)) db)"

text \<open>The query of \<^verbatim>\<open>process_notifications\<close>: who is to be told of a message.\<close>

type_synonym notify_row = "bool \<times> bytes \<times> string \<times> string \<times> string option"

definition notify_query :: "bytes \<Rightarrow> int \<Rightarrow> DB \<Rightarrow> notify_row list" where
  "notify_query account ns db =
     map (\<lambda>r. (row_want_data (row_vals r), row_enc_key (row_vals r), row_service r, row_svcid r,
               svcdata (row_vals r)))
       (filter (\<lambda>r. row_account r = account \<and>
                    (\<exists>e \<in> set (sub_namespaces db). fst e = row_id r \<and> snd e = ns))
          (subscriptions db))"

section \<open>Integrity\<close>

text \<open>
  What the schema's constraints enforce: identity and UNIQUE keys, the identity sequence ahead
  of every row, the namespaces' primary key and foreign key, one statistic per key.
\<close>

definition db_ok :: "DB \<Rightarrow> bool" where
  "db_ok db \<longleftrightarrow>
     distinct (map row_id (subscriptions db)) \<and>
     distinct (map row_key (subscriptions db)) \<and>
     (\<forall>i \<in> row_id ` set (subscriptions db). i < next_id db) \<and>
     distinct (sub_namespaces db) \<and>
     fst ` set (sub_namespaces db) \<subseteq> row_id ` set (subscriptions db) \<and>
     keys_distinct (service_stats db)"

text \<open>The abstract view of the two subscription tables: a finite map from keys to values and namespaces.\<close>

definition sub_view :: "DB \<Rightarrow> sub_key \<Rightarrow> (sub_values \<times> int list) option" where
  "sub_view db key =
     map_option (\<lambda>r. (row_vals r, namespaces_of db (row_id r))) (select_subscription key db)"

lemma find_distinct:
  assumes "distinct (map f xs)" "x \<in> set xs"
  shows "find (\<lambda>y. f y = f x) xs = Some x"
  using assms by (induction xs) auto

lemma select_Some_iff:
  assumes "db_ok db"
  shows "select_subscription key db = Some r \<longleftrightarrow> r \<in> set (subscriptions db) \<and> row_key r = key"
proof
  assume "select_subscription key db = Some r"
  then show "r \<in> set (subscriptions db) \<and> row_key r = key"
    by (auto simp: select_subscription_def find_Some_iff)
next
  assume "r \<in> set (subscriptions db) \<and> row_key r = key"
  then show "select_subscription key db = Some r"
    using assms find_distinct [of row_key "subscriptions db" r]
    by (auto simp: db_ok_def select_subscription_def)
qed

lemma select_None_iff:
  "select_subscription key db = None \<longleftrightarrow> key \<notin> row_key ` set (subscriptions db)"
  by (auto simp: select_subscription_def find_None_iff)

lemma namespaces_of_set: "set (namespaces_of db i) = {n. (i, n) \<in> set (sub_namespaces db)}"
  by (force simp: namespaces_of_def)

lemma namespaces_of_strict: "distinct (sub_namespaces db) \<Longrightarrow> sorted_wrt (<) (namespaces_of db i)"
proof -
  assume d: "distinct (sub_namespaces db)"
  have "inj_on snd (set (filter (\<lambda>e. fst e = i) (sub_namespaces db)))"
    by (auto intro!: inj_onI prod_eqI)
  then have "distinct (map snd (filter (\<lambda>e. fst e = i) (sub_namespaces db)))"
    using d by (simp add: distinct_map)
  then show ?thesis by (simp add: namespaces_of_def strict_sorted_iff)
qed

section \<open>The statements keep the constraints and act on the view\<close>

lemma namespaces_of_cong: "sub_namespaces db' = sub_namespaces db \<Longrightarrow> namespaces_of db' i = namespaces_of db i"
  by (simp add: namespaces_of_def)

lemma db_ok_stats [inv_intros]:
  "db_ok db \<Longrightarrow> keys_distinct st \<Longrightarrow> db_ok (db\<lparr>service_stats := st\<rparr>)"
  by (simp add: db_ok_def)

lemma sub_view_stats [simp]: "sub_view (db\<lparr>service_stats := st\<rparr>) = sub_view db"
  by (simp add: fun_eq_iff sub_view_def select_subscription_def namespaces_of_def)

lemma set_stat_ok [inv_intros]:
  "db_ok db \<Longrightarrow> db_ok (set_stat_str s n v db)" "db_ok db \<Longrightarrow> db_ok (set_stat_int s n i db)"
  by (simp_all add: set_stat_str_def set_stat_int_def db_ok_def keys_distinct_update)

lemma increment_stat_shape:
  assumes "increment_stat s n i db = Inr db'"
  shows "\<exists>v. db' = set_stat_int s n v db"
  using assms by (auto simp: increment_stat_def Let_def split: if_splits)

lemma increment_stat_ok [inv_intros]: "increment_stat s n i db = Inr db' \<Longrightarrow> db_ok db \<Longrightarrow> db_ok db'"
  by (auto dest!: increment_stat_shape intro: set_stat_ok)

lemma increment_stat_view: "increment_stat s n i db = Inr db' \<Longrightarrow> sub_view db' = sub_view db"
  by (auto dest!: increment_stat_shape simp: set_stat_int_def)

lemma count_subscription_ok:
  assumes "count_subscription new s db = Inr db'" "db_ok db"
  shows "db_ok db' \<and> sub_view db' = sub_view db"
  using assms increment_stat_ok increment_stat_view
  by (auto simp: count_subscription_def Let_def result_simps)

lemma delete_subscriptions_ok [inv_intros]:
  assumes "db_ok db" "delete_subscriptions P db = (n, db')"
  shows "db_ok db'"
proof -
  have ids: "row_id ` {r \<in> set (subscriptions db). \<not> P r} =
      row_id ` set (subscriptions db) - row_id ` {r \<in> set (subscriptions db). P r}"
  proof -
    have "inj_on row_id (set (subscriptions db))"
      using assms(1) by (simp add: db_ok_def distinct_map)
    then show ?thesis
      by (subst inj_on_image_set_diff [symmetric, of row_id "set (subscriptions db)"]) auto
  qed
  have "fst e \<in> row_id ` {r \<in> set (subscriptions db). \<not> P r}"
    if "e \<in> set (sub_namespaces db)" "fst e \<notin> row_id ` {r \<in> set (subscriptions db). P r}" for e
    unfolding ids using that assms(1) by (auto simp: db_ok_def)
  with assms show ?thesis
    by (auto simp: db_ok_def delete_subscriptions_def Let_def distinct_map_filter image_subset_iff)
qed

lemma delete_subscriptions_view:
  assumes ok: "db_ok db" and del: "delete_subscriptions P db = (n, db')"
  shows "sub_view db' key =
    (case select_subscription key db of None \<Rightarrow> None | Some r \<Rightarrow> if P r then None else sub_view db key)"
proof -
  have ok': "db_ok db'" using ok del by (rule delete_subscriptions_ok)
  have subs: "set (subscriptions db') = {r \<in> set (subscriptions db). \<not> P r}"
    and ns: "sub_namespaces db' = filter (\<lambda>e. fst e \<notin> row_id ` {r \<in> set (subscriptions db). P r}) (sub_namespaces db)"
    using del by (auto simp: delete_subscriptions_def Let_def)
  have keep: "namespaces_of db' (row_id r) = namespaces_of db (row_id r)"
    if "r \<in> set (subscriptions db)" "\<not> P r" for r
  proof -
    have "row_id r \<notin> row_id ` {r \<in> set (subscriptions db). P r}"
      using ok that by (auto simp: db_ok_def distinct_map dest: inj_onD)
    then have "filter (\<lambda>e. fst e = row_id r) (sub_namespaces db') = filter (\<lambda>e. fst e = row_id r) (sub_namespaces db)"
      unfolding ns by (auto intro: filter_cong)
    then show ?thesis by (simp add: namespaces_of_def)
  qed
  show ?thesis
  proof (cases "select_subscription key db")
    case None
    then have "select_subscription key db' = None" using subs by (auto simp: select_None_iff)
    with None show ?thesis by (simp add: sub_view_def)
  next
    case (Some r)
    then have r: "r \<in> set (subscriptions db)" "row_key r = key" using ok by (auto simp: select_Some_iff)
    show ?thesis
    proof (cases "P r")
      case True
      have "select_subscription key db' = None"
        using True r subs ok by (auto simp: select_None_iff db_ok_def distinct_map dest: inj_onD)
      with Some True show ?thesis by (simp add: sub_view_def)
    next
      case False
      then have "select_subscription key db' = Some r"
        using r subs ok' by (simp add: select_Some_iff)
      with Some False r keep show ?thesis by (simp add: sub_view_def)
    qed
  qed
qed

lemma delete_subscriptions_count:
  "delete_subscriptions P db = (n, db') \<Longrightarrow> n = length (filter P (subscriptions db))"
  by (simp add: delete_subscriptions_def Let_def)

lemma insert_namespaces_iff:
  "insert_namespaces i ns db = Inr db' \<longleftrightarrow>
     distinct ns \<and> (\<forall>n \<in> set ns. (i, n) \<notin> set (sub_namespaces db)) \<and>
     db' = db\<lparr>sub_namespaces := sub_namespaces db @ map (Pair i) ns\<rparr>"
  by (induction ns arbitrary: db) auto

lemma insert_namespaces_of:
  assumes "insert_namespaces i ns db = Inr db'" "\<forall>n. (i, n) \<notin> set (sub_namespaces db)" "sorted_wrt (<) ns"
  shows "namespaces_of db' i = ns" and "j \<noteq> i \<Longrightarrow> namespaces_of db' j = namespaces_of db j"
proof -
  have "filter (\<lambda>e. fst e = i) (sub_namespaces db) = []"
    using assms(2) by (auto simp: filter_empty_conv)
  moreover have "filter (\<lambda>e. fst e = i) (map (Pair i) ns) = map (Pair i) ns" by simp
  moreover have "sort ns = ns" using assms(3) by (simp add: sorted_sort_id strict_sorted_imp_sorted)
  ultimately show "namespaces_of db' i = ns"
    using assms(1) by (simp add: insert_namespaces_iff namespaces_of_def comp_def)
  have "filter (\<lambda>e. fst e = j) (map (Pair i) ns) = []" if "j \<noteq> i"
    using that by (auto simp: filter_empty_conv)
  then show "j \<noteq> i \<Longrightarrow> namespaces_of db' j = namespaces_of db j"
    using assms(1) by (simp add: insert_namespaces_iff namespaces_of_def)
qed

section \<open>Subscribing refines an update of the view\<close>

lemma find_map: "find P (map f xs) = map_option f (find (P \<circ> f) xs)"
  by (induction xs) auto

lemma find_append_miss: "\<not> P x \<Longrightarrow> find P (xs @ [x]) = find P xs"
  by (induction xs) auto

lemma row_key_vals [simp]: "row_key (r\<lparr>row_vals := v\<rparr>) = row_key r"
  by (simp add: row_key_def)

lemma update_subscription_frame [simp]:
  "map row_id (subscriptions (update_subscription i vals db)) = map row_id (subscriptions db)"
  "map row_key (subscriptions (update_subscription i vals db)) = map row_key (subscriptions db)"
  "sub_namespaces (update_subscription i vals db) = sub_namespaces db"
  "service_stats (update_subscription i vals db) = service_stats db"
  "next_id (update_subscription i vals db) = next_id db"
  by (simp_all add: update_subscription_def)

lemma update_subscription_ok [inv_intros]: "db_ok db \<Longrightarrow> db_ok (update_subscription i vals db)"
  unfolding db_ok_def image_set update_subscription_frame .

lemma select_update:
  "select_subscription key (update_subscription i vals db) =
     map_option (\<lambda>r. if row_id r = i then r\<lparr>row_vals := vals\<rparr> else r) (select_subscription key db)"
proof -
  have "row_key (if row_id r = i then r\<lparr>row_vals := vals\<rparr> else r) = row_key r" for r by simp
  then show ?thesis
    by (simp add: select_subscription_def update_subscription_def find_map comp_def)
qed

lemma delete_namespaces_ok [inv_intros]: "db_ok db \<Longrightarrow> db_ok (delete_namespaces i db)"
  by (auto simp: db_ok_def delete_namespaces_def)

lemma insert_subscription_shape:
  assumes "insert_subscription key vals db = Inr (i, db')"
  obtains r where "row_id r = i" "row_key r = key" "row_vals r = vals" "i = next_id db"
    "key \<notin> row_key ` set (subscriptions db)"
    "db' = db\<lparr>subscriptions := subscriptions db @ [r], next_id := next_id db + 1\<rparr>"
proof -
  obtain account service svcid where key: "key = (account, service, svcid)" by (cases key)
  let ?r = "\<lparr>row_id = next_id db, row_account = account, row_service = service,
    row_svcid = svcid, row_vals = vals\<rparr>"
  have free: "\<not> (\<exists>r \<in> set (subscriptions db). row_key r = key)"
    using assms by (auto simp: insert_subscription_def split: if_splits)
  then have "i = next_id db"
    "db' = db\<lparr>subscriptions := subscriptions db @ [?r], next_id := next_id db + 1\<rparr>"
    using assms by (auto simp: insert_subscription_def key)
  with free show ?thesis by (intro that [of ?r]) (auto simp: row_key_def key)
qed

lemma insert_subscription_ok [inv_intros]:
  assumes "db_ok db" "insert_subscription key vals db = Inr (i, db')"
  shows "db_ok db'"
proof -
  from assms(2) obtain r where r: "row_id r = next_id db" "row_key r = key"
    "key \<notin> row_key ` set (subscriptions db)"
    "db' = db\<lparr>subscriptions := subscriptions db @ [r], next_id := next_id db + 1\<rparr>"
    by (rule insert_subscription_shape) auto
  then have "row_id r \<notin> row_id ` set (subscriptions db)"
    using assms(1) by (auto simp: db_ok_def)
  with r assms(1) show ?thesis by (auto simp: db_ok_def)
qed

lemma insert_namespaces_ok [inv_intros]:
  assumes "db_ok db" "insert_namespaces i ns db = Inr db'" "i \<in> row_id ` set (subscriptions db)"
  shows "db_ok db'"
  using assms by (auto simp: db_ok_def insert_namespaces_iff distinct_map inj_on_def)

text \<open>
  The state between the row statement and the namespace statements: the row of the key holds the
  new values, the other rows are untouched, and the row's namespaces are either still to be
  written or already right.
\<close>

definition row_written :: "DB \<Rightarrow> sub_key \<Rightarrow> sub_values \<Rightarrow> int list \<Rightarrow> bool \<Rightarrow> int \<Rightarrow> DB \<Rightarrow> bool" where
  "row_written db key vals ns insert_ns i db1 \<longleftrightarrow>
     db_ok db1 \<and>
     (\<exists>r. select_subscription key db1 = Some r \<and> row_id r = i \<and> row_vals r = vals) \<and>
     (\<forall>k. k \<noteq> key \<longrightarrow> select_subscription k db1 = select_subscription k db) \<and>
     (\<forall>j. j \<noteq> i \<longrightarrow> namespaces_of db1 j = namespaces_of db j) \<and>
     (if insert_ns then \<forall>n. (i, n) \<notin> set (sub_namespaces db1) else namespaces_of db1 i = ns)"

lemma row_written_update:
  fixes ns :: "int list" and vals :: sub_values
  assumes ok: "db_ok db" and sel: "select_subscription key db = Some row"
  defines "i \<equiv> row_id row"
  defines "insert_ns \<equiv> namespaces_of db i \<noteq> ns"
  defines "db1 \<equiv> update_subscription i vals db"
  shows "row_written db key vals ns insert_ns i (if insert_ns then delete_namespaces i db1 else db1)"
proof -
  have row: "row \<in> set (subscriptions db)" "row_key row = key" using ok sel by (auto simp: select_Some_iff)
  have other: "row_id r \<noteq> i" if "select_subscription k db = Some r" "k \<noteq> key" for k r
    using that row ok by (auto simp: select_Some_iff i_def db_ok_def distinct_map dest: inj_onD)
  have sel1: "select_subscription k db1 = select_subscription k db" if "k \<noteq> key" for k
    using other [of k] that by (cases "select_subscription k db") (auto simp: db1_def select_update)
  have key1: "\<exists>r. select_subscription key db1 = Some r \<and> row_id r = i \<and> row_vals r = vals"
    by (simp add: db1_def select_update sel i_def)
  have ok1: "db_ok db1" using ok by (simp add: db1_def update_subscription_ok)
  have ns1: "namespaces_of db1 j = namespaces_of db j" for j
    by (rule namespaces_of_cong) (simp add: db1_def update_subscription_def)
  have del: "select_subscription k (delete_namespaces i db1) = select_subscription k db1"
    "j \<noteq> i \<Longrightarrow> namespaces_of (delete_namespaces i db1) j = namespaces_of db1 j"
    "(i, n) \<notin> set (sub_namespaces (delete_namespaces i db1))" for k j n
    by (auto simp: delete_namespaces_def select_subscription_def namespaces_of_def
        intro!: arg_cong [where f = sort] arg_cong [where f = "map snd"] filter_cong)
  show ?thesis
    using ok1 sel1 key1 ns1 del by (auto simp: row_written_def insert_ns_def delete_namespaces_ok)
qed

lemma row_written_insert:
  assumes ok: "db_ok db" and ins: "insert_subscription key vals db = Inr (i, db1)"
  shows "row_written db key vals ns True i db1"
proof -
  have ok1: "db_ok db1" using ok ins by (rule insert_subscription_ok)
  from ins obtain r where r: "row_id r = i" "row_key r = key" "row_vals r = vals"
    and subs: "subscriptions db1 = subscriptions db @ [r]" and ns: "sub_namespaces db1 = sub_namespaces db"
    and i: "i = next_id db"
    by (rule insert_subscription_shape) simp_all
  have "select_subscription key db1 = Some r" using ok1 r subs by (simp add: select_Some_iff)
  moreover have "select_subscription k db1 = select_subscription k db" if "k \<noteq> key" for k
    using r that by (simp add: select_subscription_def subs find_append_miss)
  moreover have "(i, n) \<notin> set (sub_namespaces db)" for n
    using ok i by (fastforce simp: db_ok_def)
  moreover have "namespaces_of db1 j = namespaces_of db j" for j
    using ns by (rule namespaces_of_cong)
  ultimately show ?thesis
    using ok1 r ns by (auto simp: row_written_def)
qed

lemma row_written_finish:
  assumes w: "row_written db key vals ns insert_ns i db1" and ok: "db_ok db" and ns: "sorted_wrt (<) ns"
    and ins: "(if insert_ns then insert_namespaces i ns db1 else Inr db1) = Inr db2"
  shows "db_ok db2 \<and> sub_view db2 = (sub_view db)(key \<mapsto> (vals, ns))"
proof -
  obtain r where r: "select_subscription key db1 = Some r" "row_id r = i" "row_vals r = vals"
    and ok1: "db_ok db1" using w by (auto simp: row_written_def)
  have i: "i \<in> row_id ` set (subscriptions db1)" using r ok1 by (auto simp: select_Some_iff)
  have ok2: "db_ok db2"
    using ins ok1 i by (auto split: if_splits intro: insert_namespaces_ok)
  have subs: "subscriptions db2 = subscriptions db1"
    using ins by (auto simp: insert_namespaces_iff split: if_splits)
  then have sel: "select_subscription k db2 = select_subscription k db1" for k
    by (simp add: select_subscription_def)
  have nsi: "namespaces_of db2 i = ns"
    using ins w ns insert_namespaces_of(1) [of i ns db1 db2]
    by (auto simp: row_written_def split: if_splits)
  have nsj: "namespaces_of db2 j = namespaces_of db1 j" if "j \<noteq> i" for j
  proof (cases insert_ns)
    case True
    then show ?thesis
      using ins w ns that insert_namespaces_of(2) [of i ns db1 db2 j] by (simp add: row_written_def)
  next
    case False
    then show ?thesis using ins by simp
  qed
  have other: "row_id r' \<noteq> i" if "select_subscription k db1 = Some r'" "k \<noteq> key" for k r'
    using that r ok1 by (auto simp: select_Some_iff db_ok_def distinct_map dest: inj_onD)
  have "sub_view db2 k = ((sub_view db)(key \<mapsto> (vals, ns))) k" for k
  proof (cases "k = key")
    case True
    with r nsi sel show ?thesis by (auto simp: sub_view_def)
  next
    case False
    with w have "select_subscription k db1 = select_subscription k db"
      unfolding row_written_def by blast
    with False w other [of k] nsj show ?thesis
      by (cases "select_subscription k db") (auto simp: sub_view_def sel row_written_def)
  qed
  with ok2 show ?thesis by auto
qed

lemma upsert_subscription_view:
  assumes ok: "db_ok db" and ns: "sorted_wrt (<) ns"
    and up: "upsert_subscription key (vals, ns) db = Inr (new, db')"
  shows "db_ok db' \<and> (new \<longleftrightarrow> sub_view db key = None) \<and> sub_view db' = (sub_view db)(key \<mapsto> (vals, ns))"
proof -
  obtain insert_ns i db1 db2 where
    w: "row_written db key vals ns insert_ns i db1" and new: "new \<longleftrightarrow> select_subscription key db = None"
    and ins: "(if insert_ns then insert_namespaces i ns db1 else Inr db1) = Inr db2"
    and cnt: "count_subscription new (fst (snd key)) db2 = Inr db'"
  proof (cases "select_subscription key db")
    case None
    with up obtain i db1 db2 where
      "insert_subscription key vals db = Inr (i, db1)" "insert_namespaces i ns db1 = Inr db2"
      "count_subscription True (fst (snd key)) db2 = Inr db'" "new"
      by (auto simp: upsert_subscription_def result_simps)
    with row_written_insert [OF ok, of key vals i db1 ns] None that [of True i db1 db2] show ?thesis
      by simp
  next
    case (Some row)
    let ?i = "row_id row" and ?ins = "namespaces_of db (row_id row) \<noteq> ns"
    let ?db1 = "if ?ins then delete_namespaces ?i (update_subscription ?i vals db)
      else update_subscription ?i vals db"
    from Some up obtain db2 where "(if ?ins then insert_namespaces ?i ns ?db1 else Inr ?db1) = Inr db2"
      "count_subscription False (fst (snd key)) db2 = Inr db'" "\<not> new"
      unfolding upsert_subscription_def Let_def by (auto simp only: bind_r_Inr prod.case option.case)
    with row_written_update [OF ok Some, of vals ns] Some that [of ?ins ?i ?db1 db2] show ?thesis
      by simp
  qed
  from row_written_finish [OF w ok ns ins] count_subscription_ok [OF cnt] new show ?thesis
    by (simp add: sub_view_def)
qed

section \<open>The subscription store as an interface\<close>

text \<open>
  What \<^verbatim>\<open>add_subscription\<close> and \<^verbatim>\<open>remove_subscription\<close> rely on: a keyed store with an upsert that
  reports whether the key was new and a delete that reports whether it was there.
\<close>

locale sub_store =
  fixes ok :: "'d \<Rightarrow> bool"
    and view :: "'d \<Rightarrow> 'k \<Rightarrow> 'v option"
    and valid :: "'v \<Rightarrow> bool"
    and upsert :: "'k \<Rightarrow> 'v \<Rightarrow> 'd \<Rightarrow> (bool \<times> 'd) result"
    and remove :: "'k \<Rightarrow> 'd \<Rightarrow> bool \<times> 'd"
  assumes upsert_spec: "ok d \<Longrightarrow> valid v \<Longrightarrow> upsert k v d = Inr (new, d') \<Longrightarrow>
      ok d' \<and> (new \<longleftrightarrow> view d k = None) \<and> view d' = (view d)(k \<mapsto> v)"
    and remove_spec: "ok d \<Longrightarrow> remove k d = (found, d') \<Longrightarrow>
      ok d' \<and> (found \<longleftrightarrow> view d k \<noteq> None) \<and> view d' = (view d)(k := None)"
begin

lemma upsert_then_remove:
  assumes "ok d" "valid v" "upsert k v d = Inr (new, d1)" "remove k d1 = (found, d2)"
  shows "found \<and> view d2 = (view d)(k := None)"
  using upsert_spec [OF assms(1-3)] remove_spec [of d1 k found d2] assms(4) by auto

lemma new_then_remove_restores:
  assumes "ok d" "valid v" "upsert k v d = Inr (True, d1)" "remove k d1 = (found, d2)"
  shows "found \<and> view d2 = view d"
  using upsert_then_remove [OF assms] upsert_spec [OF assms(1-3)] by (auto simp: fun_upd_idem)

lemma upsert_again_not_new:
  assumes "ok d" "valid v" "upsert k v d = Inr (new, d1)" "valid w" "upsert k w d1 = Inr (new', d2)"
  shows "\<not> new' \<and> view d2 = (view d)(k \<mapsto> w)"
  using upsert_spec [OF assms(1-3)] upsert_spec [of d1 w k new' d2] assms(4,5) by auto

lemma remove_again_absent:
  assumes "ok d" "remove k d = (found, d1)" "remove k d1 = (found', d2)"
  shows "\<not> found' \<and> view d2 = view d1"
  using remove_spec [OF assms(1,2)] remove_spec [of d1 k found' d2] assms(3) by auto

end

definition valid_values :: "sub_values \<times> int list \<Rightarrow> bool" where
  "valid_values v \<longleftrightarrow> sorted_wrt (<) (snd v)"

lemma remove_subscription_tx_view:
  assumes ok: "db_ok db" and rm: "remove_subscription_tx key db = (found, db')"
  shows "db_ok db' \<and> (found \<longleftrightarrow> sub_view db key \<noteq> None) \<and> sub_view db' = (sub_view db)(key := None)"
proof -
  obtain n where del: "delete_subscriptions (\<lambda>r. row_key r = key) db = (n, db')" and found: "found \<longleftrightarrow> n > 0"
    using rm by (auto simp: remove_subscription_tx_def split: prod.splits)
  have "n > 0 \<longleftrightarrow> key \<in> row_key ` set (subscriptions db)"
    using delete_subscriptions_count [OF del] by (auto simp: filter_empty_conv)
  then have "found \<longleftrightarrow> sub_view db key \<noteq> None"
    using found select_None_iff [of key db] by (auto simp: sub_view_def)
  moreover have "sub_view db' k = ((sub_view db)(key := None)) k" for k
    using delete_subscriptions_view [OF ok del, of k] ok
    by (auto simp: sub_view_def select_Some_iff split: option.splits)
  ultimately show ?thesis using delete_subscriptions_ok [OF ok del] by auto
qed

interpretation store: sub_store db_ok sub_view valid_values upsert_subscription remove_subscription_tx
proof
  fix d v k new d'
  assume "db_ok d" "valid_values v" "upsert_subscription k v d = Inr (new, d')"
  then show "db_ok d' \<and> (new \<longleftrightarrow> sub_view d k = None) \<and> sub_view d' = (sub_view d)(k \<mapsto> v)"
    using upsert_subscription_view [of d "snd v" k "fst v" new d'] by (simp add: valid_values_def)
qed (rule remove_subscription_tx_view)

section \<open>Sequences of transactions\<close>

text \<open>
  The transactions that change the subscription tables, run one after another on the table, and
  the same operations on a plain map. A failing transaction throws before it commits, so it leaves
  the database as it was.
\<close>

datatype db_op =
    Subscribe sub_key sub_values "int list"
  | Unsubscribe sub_key
  | Drop string string
  | Cleanup nanos

fun run_op :: "db_op \<Rightarrow> DB \<Rightarrow> DB" where
  "run_op (Subscribe key vals ns) db =
     (case upsert_subscription key (vals, ns) db of Inl _ \<Rightarrow> db | Inr (_, db') \<Rightarrow> db')"
| "run_op (Unsubscribe key) db = snd (remove_subscription_tx key db)"
| "run_op (Drop service svcid) db = snd (drop_registration service svcid db)"
| "run_op (Cleanup now) db = db_cleanup now db"

type_synonym sub_map = "sub_key \<Rightarrow> (sub_values \<times> int list) option"

fun op_spec :: "db_op \<Rightarrow> sub_map \<Rightarrow> sub_map" where
  "op_spec (Subscribe key vals ns) m = m(key \<mapsto> (vals, ns))"
| "op_spec (Unsubscribe key) m = m(key := None)"
| "op_spec (Drop service svcid) m = (\<lambda>k. if snd k = (service, svcid) then None else m k)"
| "op_spec (Cleanup now) m =
     (\<lambda>k. case m k of None \<Rightarrow> None
          | Some v \<Rightarrow> if signature_ts (fst v) \<le> floor_seconds now - SIGNATURE_EXPIRY then None else Some v)"

fun op_valid :: "db_op \<Rightarrow> bool" where
  "op_valid (Subscribe key vals ns) = sorted_wrt (<) ns"
| "op_valid (Cleanup now) = (SIGNATURE_EXPIRY * nanos_per_sec \<le> now)"
| "op_valid _ = True"


lemma delete_subscriptions_snd_ok:
  "db_ok db \<Longrightarrow> db_ok (snd (delete_subscriptions P db))"
  by (rule delete_subscriptions_ok [of db P "fst (delete_subscriptions P db)"]) simp_all

lemma sub_view_delete:
  assumes "db_ok db"
  shows "sub_view (snd (delete_subscriptions P db)) =
    (\<lambda>k. case select_subscription k db of None \<Rightarrow> None | Some r \<Rightarrow> if P r then None else sub_view db k)"
  using delete_subscriptions_view [OF assms, of P "fst (delete_subscriptions P db)"] by auto

lemma cleanup_cutoff:
  assumes "SIGNATURE_EXPIRY * nanos_per_sec \<le> now"
  shows "unix_timestamp (now - SIGNATURE_EXPIRY * nanos_per_sec) = floor_seconds now - SIGNATURE_EXPIRY"
  using assms by (simp add: unix_timestamp_def trunc_div_nonneg floor_seconds_def)
    (simp add: nanos_per_sec_def div_diff)

text \<open>
  The counters of \<^verbatim>\<open>service_stats\<close> are BIGINTs. \<open>stats_room n db\<close> says that \<open>n\<close> more increments by
  one cannot overflow any of them; it is the only way a well-formed subscription can fail to commit.
\<close>

definition stats_room :: "nat \<Rightarrow> DB \<Rightarrow> bool" where
  "stats_room n db \<longleftrightarrow>
     int n \<le> int64_max \<and>
     (\<forall>e \<in> set (service_stats db).
        case snd e of ValStr _ \<Rightarrow> True | ValInt i \<Rightarrow> int64_min \<le> i \<and> i + int n \<le> int64_max)"

lemma stats_room_cong: "service_stats db' = service_stats db \<Longrightarrow> stats_room n db' = stats_room n db"
  by (simp add: stats_room_def)

lemma stats_room_mono:
  assumes "stats_room n db" "m \<le> n"
  shows "stats_room m db"
proof -
  have "case snd e of ValStr _ \<Rightarrow> True | ValInt i \<Rightarrow> int64_min \<le> i \<and> i + int m \<le> int64_max"
    if "e \<in> set (service_stats db)" for e
    using assms that by (cases "snd e") (force simp: stats_room_def)+
  with assms show ?thesis by (auto simp: stats_room_def)
qed

lemma stats_room_lookup:
  "stats_room n db \<Longrightarrow> map_of (service_stats db) k = Some (ValInt i) \<Longrightarrow> int64_min \<le> i \<and> i + int n \<le> int64_max"
  by (drule map_of_SomeD) (force simp: stats_room_def)

lemma set_update_subset: "set (AList.update k v m) \<subseteq> insert (k, v) (set m)"
  by (induction m) auto

lemma increment_stat_room:
  assumes room: "stats_room (Suc n) db"
  shows "\<exists>db'. increment_stat s name 1 db = Inr db' \<and> stats_room n db'"
proof -
  let ?v = "case map_of (service_stats db) (s, name) of
      None \<Rightarrow> 1 | Some (ValStr _) \<Rightarrow> 0 + 1 | Some (ValInt old) \<Rightarrow> old + (1 :: int)"
  have bounds: "int64_min \<le> ?v \<and> ?v + int n \<le> int64_max"
    using room stats_room_lookup [OF room, of "(s, name)"]
    by (auto simp: stats_room_def int64_min_def int64_max_def split: option.splits stat_val.splits)
  then have "increment_stat s name 1 db = Inr (set_stat_int s name ?v db)"
    by (simp add: increment_stat_def Let_def is_int64_def)
  moreover have "stats_room n (set_stat_int s name ?v db)"
    using set_update_subset [of "(s, name)" "ValInt ?v" "service_stats db"] bounds
      stats_room_mono [OF room, of n]
    by (auto simp: stats_room_def set_stat_int_def)
  ultimately show ?thesis by blast
qed

lemma count_subscription_room:
  assumes "stats_room (Suc (Suc n)) db"
  shows "\<exists>db'. count_subscription new s db = Inr db' \<and> stats_room n db'"
proof -
  let ?name = "if new then ''subscription'' else ''sub_renew''"
  obtain db1 where 1: "increment_stat '''' ?name 1 db = Inr db1" "stats_room (Suc n) db1"
    using increment_stat_room [OF assms] by blast
  obtain db2 where "increment_stat s ?name 1 db1 = Inr db2" "stats_room n db2"
    using increment_stat_room [OF 1(2)] by blast
  with 1 show ?thesis by (auto simp: count_subscription_def Let_def)
qed

lemma upsert_subscription_commits:
  assumes ok: "db_ok db" and ns: "sorted_wrt (<) ns" and room: "stats_room (Suc (Suc n)) db"
  shows "\<exists>new db'. upsert_subscription key (vals, ns) db = Inr (new, db') \<and> stats_room n db'"
proof -
  obtain new insert_ns i db1 where
    stage: "upsert_subscription key (vals, ns) db =
      bind_r (if insert_ns then insert_namespaces i ns db1 else Inr db1) (\<lambda>db2.
        bind_r (count_subscription new (fst (snd key)) db2) (\<lambda>db3. Inr (new, db3)))"
    and w: "row_written db key vals ns insert_ns i db1" and st: "service_stats db1 = service_stats db"
  proof (cases "select_subscription key db")
    case None
    then have "\<not> (\<exists>r \<in> set (subscriptions db). row_key r = key)"
      by (auto simp: select_None_iff)
    then obtain i db1 where ins: "insert_subscription key vals db = Inr (i, db1)"
      and st: "service_stats db1 = service_stats db"
      by (cases key) (simp add: insert_subscription_def)
    show ?thesis
      by (rule that [of True i db1 True])
        (simp_all add: upsert_subscription_def None ins st row_written_insert [OF ok ins])
  next
    case (Some row)
    show ?thesis
      by (rule that [OF _ row_written_update [OF ok Some]])
        (simp_all add: upsert_subscription_def Some Let_def delete_namespaces_def)
  qed
  have fresh: "\<forall>m. (i, m) \<notin> set (sub_namespaces db1)" if insert_ns
    using w that by (simp add: row_written_def)
  obtain db2 where db2: "(if insert_ns then insert_namespaces i ns db1 else Inr db1) = Inr db2"
    and st2: "service_stats db2 = service_stats db1"
  proof (cases insert_ns)
    case True
    with fresh ns that show ?thesis by (simp add: insert_namespaces_iff strict_sorted_iff)
  qed (use that in simp)
  have "stats_room (Suc (Suc n)) db2"
    using room st st2 stats_room_cong [of db2 db] by simp
  then obtain db3 where "count_subscription new (fst (snd key)) db2 = Inr db3" "stats_room n db3"
    using count_subscription_room by blast
  then show ?thesis unfolding stage db2 by simp
qed

lemma run_op_refines:
  assumes ok: "db_ok db" and val: "op_valid op" and room: "stats_room (Suc (Suc n)) db"
  shows "db_ok (run_op op db) \<and> stats_room n (run_op op db) \<and>
    sub_view (run_op op db) = op_spec op (sub_view db)"
proof (cases op)
  case (Subscribe key vals ns)
  with val obtain new db' where
    up: "upsert_subscription key (vals, ns) db = Inr (new, db')" and r: "stats_room n db'"
    using upsert_subscription_commits [OF ok _ room] by fastforce
  show ?thesis
    using store.upsert_spec [OF ok _ up] val up r Subscribe by (simp add: valid_values_def)
next
  case (Unsubscribe key)
  have "service_stats (run_op op db) = service_stats db"
    by (simp add: Unsubscribe remove_subscription_tx_def delete_subscriptions_def Let_def)
  with Unsubscribe show ?thesis
    using store.remove_spec [OF ok, of key "fst (remove_subscription_tx key db)"]
      stats_room_cong [of "run_op op db" db n] stats_room_mono [OF room] by simp
next
  case (Drop service svcid)
  have "service_stats (run_op op db) = service_stats db"
    by (simp add: Drop drop_registration_def delete_subscriptions_def Let_def)
  then have "stats_room n (run_op op db)"
    using stats_room_cong [of "run_op op db" db n] stats_room_mono [OF room] by simp
  moreover have "sub_view (run_op op db) = op_spec op (sub_view db)"
    using ok by (auto simp: Drop drop_registration_def sub_view_delete fun_eq_iff sub_view_def
        select_Some_iff row_key_def split: option.splits)
  ultimately show ?thesis
    using delete_subscriptions_snd_ok [OF ok] by (simp add: Drop drop_registration_def)
next
  case (Cleanup now)
  have "service_stats (run_op op db) = service_stats db"
    by (simp add: Cleanup db_cleanup_def delete_subscriptions_def Let_def)
  then have "stats_room n (run_op op db)"
    using stats_room_cong [of "run_op op db" db n] stats_room_mono [OF room] by simp
  moreover have "sub_view (run_op op db) = op_spec op (sub_view db)"
    using val Cleanup cleanup_cutoff [of now]
    by (auto simp: db_cleanup_def sub_view_delete [OF ok] fun_eq_iff sub_view_def split: option.splits)
  ultimately show ?thesis
    using delete_subscriptions_snd_ok [OF ok] by (simp add: Cleanup db_cleanup_def)
qed

text \<open>
  C23. Any sequence of subscriptions (with namespaces in the validated, strictly increasing form),
  unsubscriptions, dropped registrations and clean-ups, run as the program's transactions on
  the tables, keeps every constraint of the schema and has exactly the effect of the same
  operations on a map from (account, service, service id) to the latest values and namespaces.
\<close>

theorem db_transactions_refine_map:
  assumes "db_ok db" "list_all op_valid ops" "stats_room (2 * length ops) db"
  shows "db_ok (fold run_op ops db) \<and> sub_view (fold run_op ops db) = fold op_spec ops (sub_view db)"
  using assms
proof (induction ops arbitrary: db)
  case (Cons op ops)
  then have "db_ok (run_op op db) \<and> stats_room (2 * length ops) (run_op op db) \<and>
      sub_view (run_op op db) = op_spec op (sub_view db)"
    by (intro run_op_refines) simp_all
  with Cons.IH [of "run_op op db"] Cons.prems show ?case by simp
qed simp

definition sample_values :: "bytes \<Rightarrow> seconds \<Rightarrow> sub_values" where
  "sample_values enc ts =
     \<lparr>session_ed25519 = None, subaccount_tag = None, subaccount_sig = None, signature = replicate 64 1,
      signature_ts = ts, row_want_data = True, row_enc_key = enc, svcdata = None\<rparr>"

definition empty_DB :: DB where
  "empty_DB = \<lparr>subscriptions = [], sub_namespaces = [], service_stats = [], next_id = 1\<rparr>"

theorem db_transactions_refine_map_witness:
  "let ops = [Subscribe ([1], ''apns'', ''x'') (sample_values [7] 5000000) [0, 3],
              Subscribe ([1], ''apns'', ''x'') (sample_values [8] 6000000) [0, 5],
              Cleanup (6500000 * nanos_per_sec), Unsubscribe ([2], ''apns'', ''x'')]
   in db_ok (fold run_op ops empty_DB) \<and>
      sub_view (fold run_op ops empty_DB) ([1], ''apns'', ''x'') = Some (sample_values [8] 6000000, [0, 5])"
proof -
  let ?ops = "[Subscribe ([1], ''apns'', ''x'') (sample_values [7] 5000000) [0, 3],
              Subscribe ([1], ''apns'', ''x'') (sample_values [8] 6000000) [0, 5],
              Cleanup (6500000 * nanos_per_sec), Unsubscribe ([2], ''apns'', ''x'')]"
  have "db_ok empty_DB" "list_all op_valid ?ops" "stats_room (2 * length ?ops) empty_DB"
    by (simp_all add: db_ok_def empty_DB_def stats_room_def int64_max_def SIGNATURE_EXPIRY_def
        nanos_per_sec_def)
  from db_transactions_refine_map [OF this] show ?thesis
    by (simp add: Let_def sample_values_def floor_seconds_def SIGNATURE_EXPIRY_def)
qed


text \<open>
  Subscribing a new device and then unsubscribing it finds the subscription and leaves every
  subscription as it was before.
\<close>

theorem subscribe_unsubscribe_roundtrip:
  assumes "db_ok db" "wf_Subscription sub"
    "add_subscription_tx pubkey service svcid data enc sub db = Inr (True, db1)"
  shows "fst (remove_subscription_tx (account_id pubkey, service, svcid) db1) \<and>
    sub_view (snd (remove_subscription_tx (account_id pubkey, service, svcid) db1)) = sub_view db"
proof -
  let ?key = "(account_id pubkey, service, svcid)" and ?v = "(vals_of pubkey sub enc data, namespaces sub)"
  have "valid_values ?v" using assms(2) by (simp add: valid_values_def wf_Subscription_def)
  moreover have "upsert_subscription ?key ?v db = Inr (True, db1)"
    using assms(3) by (simp add: add_subscription_tx_def)
  ultimately show ?thesis
    using store.new_then_remove_restores [OF assms(1), of ?v ?key db1] by (metis prod.collapse)
qed

theorem subscribe_unsubscribe_roundtrip_witness:
  "\<exists>db1. add_subscription_tx (sample_pk 5) ''apns'' ''dev'' None [1] (sample_sub None [0, 3] True) empty_DB
       = Inr (True, db1) \<and> sub_view db1 \<noteq> sub_view empty_DB \<and>
     sub_view (snd (remove_subscription_tx (account_id (sample_pk 5), ''apns'', ''dev'') db1)) = sub_view empty_DB"
proof -
  let ?sub = "sample_sub None [0, 3] True"
  have ok: "db_ok empty_DB" by (simp add: db_ok_def empty_DB_def)
  have wf: "wf_Subscription ?sub" by (simp add: wf_Subscription_def sample_sub_def)
  have "stats_room (Suc (Suc 0)) empty_DB" by (simp add: stats_room_def empty_DB_def int64_max_def)
  then obtain new db1 where
    tx: "add_subscription_tx (sample_pk 5) ''apns'' ''dev'' None [1] ?sub empty_DB = Inr (new, db1)"
    using upsert_subscription_commits [OF ok, of "namespaces ?sub"] wf
    unfolding add_subscription_tx_def wf_Subscription_def by blast
  let ?key = "(account_id (sample_pk 5), ''apns'', ''dev'')"
  have spec: "(new \<longleftrightarrow> sub_view empty_DB ?key = None) \<and> sub_view db1 ?key \<noteq> None"
    using upsert_subscription_view [OF ok, of "namespaces ?sub"] wf tx
    by (auto simp: add_subscription_tx_def wf_Subscription_def)
  have none: "sub_view empty_DB ?key = None"
    by (simp add: sub_view_def select_subscription_def empty_DB_def)
  with spec tx have "add_subscription_tx (sample_pk 5) ''apns'' ''dev'' None [1] ?sub empty_DB = Inr (True, db1)"
    by simp
  from this subscribe_unsubscribe_roundtrip [OF ok wf this] spec none show ?thesis by metis
qed

lemma notify_query_mem:
  assumes "db_ok db"
  shows "(wd, enc, service, svcid, data) \<in> set (notify_query account ns db) \<longleftrightarrow>
      (\<exists>vals nss. sub_view db (account, service, svcid) = Some (vals, nss) \<and> ns \<in> set nss \<and>
        row_want_data vals = wd \<and> row_enc_key vals = enc \<and> svcdata vals = data)"
proof -
  have "(\<exists>e \<in> set (sub_namespaces db). fst e = i \<and> snd e = ns) \<longleftrightarrow> ns \<in> set (namespaces_of db i)" for i
    by (force simp: namespaces_of_set)
  then have "(wd, enc, service, svcid, data) \<in> set (notify_query account ns db) \<longleftrightarrow>
      (\<exists>r. (r \<in> set (subscriptions db) \<and> row_key r = (account, service, svcid)) \<and>
        ns \<in> set (namespaces_of db (row_id r)) \<and> row_want_data (row_vals r) = wd \<and>
        row_enc_key (row_vals r) = enc \<and> svcdata (row_vals r) = data)"
    by (auto simp: notify_query_def row_key_def)
  also have "\<dots> \<longleftrightarrow> (\<exists>vals nss. sub_view db (account, service, svcid) = Some (vals, nss) \<and> ns \<in> set nss \<and>
        row_want_data vals = wd \<and> row_enc_key vals = enc \<and> svcdata vals = data)"
    unfolding select_Some_iff [OF assms, symmetric] by (auto simp: sub_view_def)
  finally show ?thesis .
qed

lemma notify_query_distinct:
  assumes "db_ok db"
  shows "distinct (map (\<lambda>(_, _, service, svcid, _). (service, svcid)) (notify_query account ns db))"
proof -
  let ?sel = "filter (\<lambda>r. row_account r = account \<and>
    (\<exists>e \<in> set (sub_namespaces db). fst e = row_id r \<and> snd e = ns)) (subscriptions db)"
  have keys: "map (\<lambda>(_, _, service, svcid, _). (service, svcid)) (notify_query account ns db) =
      map (snd \<circ> row_key) ?sel"
    by (simp add: notify_query_def comp_def row_key_def)
  have "inj_on (snd \<circ> row_key) (set ?sel)"
  proof (rule inj_onI)
    fix r r' assume "r \<in> set ?sel" "r' \<in> set ?sel" "(snd \<circ> row_key) r = (snd \<circ> row_key) r'"
    then have "row_key r = row_key r'" "r \<in> set (subscriptions db)" "r' \<in> set (subscriptions db)"
      by (auto simp: row_key_def)
    with assms show "r = r'" by (auto simp: db_ok_def distinct_map dest: inj_onD)
  qed
  moreover have "distinct (subscriptions db)" using assms by (simp add: db_ok_def distinct_map)
  ultimately have "distinct (map (snd \<circ> row_key) ?sel)" by (simp add: distinct_map del: o_apply)
  with keys show ?thesis by simp
qed

text \<open>
  The query behind a notification returns exactly the devices subscribed to the account whose
  namespaces contain the message's, each device once.
\<close>

theorem notify_query_exact:
  assumes "db_ok db"
  shows "distinct (map (\<lambda>(_, _, service, svcid, _). (service, svcid)) (notify_query account ns db)) \<and>
    ((wd, enc, service, svcid, data) \<in> set (notify_query account ns db) \<longleftrightarrow>
      (\<exists>vals nss. sub_view db (account, service, svcid) = Some (vals, nss) \<and> ns \<in> set nss \<and>
        row_want_data vals = wd \<and> row_enc_key vals = enc \<and> svcdata vals = data))"
  using notify_query_distinct notify_query_mem assms by blast

definition sample_DB :: DB where
  "sample_DB =
     \<lparr>subscriptions =
        [\<lparr>row_id = 1, row_account = [1], row_service = ''apns'', row_svcid = ''x'', row_vals = sample_values [7] 5000000\<rparr>,
         \<lparr>row_id = 2, row_account = [1], row_service = ''apns'', row_svcid = ''y'', row_vals = sample_values [8] 5000000\<rparr>,
         \<lparr>row_id = 3, row_account = [2], row_service = ''fcm'', row_svcid = ''x'', row_vals = sample_values [9] 5000000\<rparr>],
      sub_namespaces = [(1, 0), (1, 5), (2, 5), (3, 0), (3, 5)], service_stats = [], next_id = 4\<rparr>"

lemma sample_DB_ok: "db_ok sample_DB"
  by (simp add: db_ok_def sample_DB_def row_key_def)

theorem notify_query_exact_witness:
  "notify_query [1] 0 sample_DB = [(True, [7], ''apns'', ''x'', None)] \<and>
   sub_view sample_DB ([1], ''apns'', ''x'') \<noteq> None"
proof -
  have q: "notify_query [1] 0 sample_DB = [(True, [7], ''apns'', ''x'', None)]"
    by (simp add: notify_query_def sample_DB_def sample_values_def)
  then show ?thesis
    using notify_query_exact [OF sample_DB_ok, of "[1]" 0 True "[7]" "''apns''" "''x''" None] by auto
qed


end
