(* ===== verification/SNode.thy ===== *)
theory SNode
  imports Subscription
begin

text \<open>
  \<^verbatim>\<open>spns/hive/snode.hpp\<close> and \<^verbatim>\<open>spns/hive/snode.cpp\<close>: the connection to one service node, its queue
  of (re-)subscriptions and the subscription requests, together with the connection gate of
  \<^verbatim>\<open>HiveMind\<close> (\<^verbatim>\<open>allow_connect\<close>, the counters of pending connections). \<^verbatim>\<open>system_clock\<close> and
  \<^verbatim>\<open>steady_clock\<close> readings are arguments; the connection object is represented by the number
  \<^verbatim>\<open>connect_count_\<close> had when it was opened.
\<close>

section \<open>Constants\<close>

definition SUBS_REQUEST_LIMIT :: nat where "SUBS_REQUEST_LIMIT = 2000"
definition RESUBSCRIBE_MIN :: seconds where "RESUBSCRIBE_MIN = 45 * 60"
definition RESUBSCRIBE_MAX :: seconds where "RESUBSCRIBE_MAX = 55 * 60"
definition CONNECT_COOLDOWN :: "seconds list" where "CONNECT_COOLDOWN = [10, 30, 60, 120]"
definition RECONNECT_WAIT :: seconds where "RECONNECT_WAIT = 1"
definition system_epoch :: nanos where "system_epoch = 0"

section \<open>The connection gate\<close>

text \<open>
  \<^verbatim>\<open>quic_out_\<close> (set or not), the two counters and \<^verbatim>\<open>config.max_pending_connects\<close>, all \<^verbatim>\<open>int\<close>s of the
  program; the counters change by one at a time.
\<close>

record Gate =
  quic_out :: bool
  pending_connects :: int
  connect_count :: int
  max_pending_connects :: int

definition allow_connect :: "Gate \<Rightarrow> bool \<times> Gate" where
  "allow_connect g =
     (if \<not> quic_out g then (False, g)
      else let count = pending_connects g + 1 in
        if count > max_pending_connects g then (False, g)
        else (True, g\<lparr>pending_connects := count, connect_count := connect_count g + 1\<rparr>))"

section \<open>State\<close>

record RemoteAddress =
  remote_key :: bytes
  host :: string
  port :: int

type_synonym next_entry = "SwarmPubkey option \<times> nanos"

text \<open>
  \<^verbatim>\<open>subs_\<close> is a set of accounts under \<^verbatim>\<open>SwarmPubkey::operator==\<close>; \<^verbatim>\<open>next_\<close> is the deque. \<^verbatim>\<open>stream\<close> says
  whether \<^verbatim>\<open>stream_\<close> is set.
\<close>

record SNode =
  conn :: "int option"
  addr :: RemoteAddress
  stream :: bool
  connected :: bool
  sn_subs :: "SwarmPubkey list"
  sn_swarm :: u64
  next_q :: "next_entry list"
  cooldown_until :: "nanos option"
  cooldown_fails :: int

section \<open>Connecting\<close>

definition in_cooldown :: "nanos \<Rightarrow> SNode \<Rightarrow> bool" where
  "in_cooldown steady_now sn = (case cooldown_until sn of None \<Rightarrow> False | Some t \<Rightarrow> t > steady_now)"

definition snode_connect :: "nanos \<Rightarrow> SNode \<Rightarrow> Gate \<Rightarrow> SNode \<times> Gate" where
  "snode_connect steady_now sn g =
     (if conn sn \<noteq> None then (sn, g)
      else if in_cooldown steady_now sn then (sn, g)
      else let sn = sn\<lparr>cooldown_until := None\<rparr> in
        (case allow_connect g of
           (False, g) \<Rightarrow> (sn, g)
         | (True, g) \<Rightarrow> (sn\<lparr>conn := Some (connect_count g), stream := True\<rparr>, g)))"

definition disconnect :: "SNode \<Rightarrow> SNode" where
  "disconnect sn =
     (let sn = sn\<lparr>connected := False\<rparr> in
      if conn sn \<noteq> None then sn\<lparr>stream := False, conn := None\<rparr> else sn)"

definition connect_addr :: "nanos \<Rightarrow> RemoteAddress \<Rightarrow> SNode \<Rightarrow> Gate \<Rightarrow> SNode \<times> Gate" where
  "connect_addr steady_now a sn g =
     (let sn = (if a \<noteq> addr sn then (disconnect sn)\<lparr>addr := a\<rparr> else sn)
      in snode_connect steady_now sn g)"

definition SNode_ctor :: "nanos \<Rightarrow> RemoteAddress \<Rightarrow> u64 \<Rightarrow> Gate \<Rightarrow> SNode \<times> Gate" where
  "SNode_ctor steady_now a sw g =
     snode_connect steady_now
       \<lparr>conn = None, addr = a, stream = False, connected = False, sn_subs = [], sn_swarm = sw,
        next_q = [], cooldown_until = None, cooldown_fails = 0\<rparr> g"

text \<open>
  The part of \<^verbatim>\<open>on_connected\<close> before \<^verbatim>\<open>hivemind_.finished_connect()\<close>; the flag is \<^verbatim>\<open>no_conn\<close>. The part of
  \<^verbatim>\<open>on_disconnected\<close> before its call; the flag says whether \<^verbatim>\<open>finished_connect\<close> is to be called.
\<close>

definition snode_on_connected :: "SNode \<Rightarrow> bool \<times> SNode" where
  "snode_on_connected sn =
     (let sn = sn\<lparr>cooldown_fails := 0, cooldown_until := None\<rparr> in
      if conn sn = None then (True, sn)
      else (False, sn\<lparr>next_q := map (\<lambda>(acc, _). (acc, system_epoch)) (next_q sn), connected := True\<rparr>))"

definition cooldown_for :: "int \<Rightarrow> seconds" where
  "cooldown_for fails =
     (if nat fails \<ge> length CONNECT_COOLDOWN then last CONNECT_COOLDOWN else CONNECT_COOLDOWN ! nat fails)"

definition snode_on_disconnected :: "nanos \<Rightarrow> bool \<Rightarrow> SNode \<Rightarrow> bool \<times> SNode" where
  "snode_on_disconnected steady_now has_quic_out sn =
     (let is_failed_connect = (\<not> connected sn);
          sn = sn\<lparr>connected := False\<rparr>;
          sn = (if has_quic_out then
                  if is_failed_connect then
                    sn\<lparr>cooldown_until := Some (steady_now + cooldown_for (cooldown_fails sn) * nanos_per_sec),
                       cooldown_fails := cooldown_fails sn + 1\<rparr>
                  else
                    sn\<lparr>cooldown_until := Some (steady_now + RECONNECT_WAIT * nanos_per_sec),
                       cooldown_fails := 0\<rparr>
                else sn);
          sn = sn\<lparr>stream := False, conn := None\<rparr>
      in (has_quic_out \<and> is_failed_connect, sn))"

section \<open>Accounts\<close>

text \<open>The loop that empties the first queue entry of an account.\<close>

fun clear_first :: "SwarmPubkey \<Rightarrow> next_entry list \<Rightarrow> next_entry list" where
  "clear_first account [] = []"
| "clear_first account ((acc, t) # q) =
     (case acc of
        Some a \<Rightarrow> if same_account a account then (None, t) # q else (acc, t) # clear_first account q
      | None \<Rightarrow> (acc, t) # clear_first account q)"

definition add_account :: "SwarmPubkey \<Rightarrow> bool \<Rightarrow> SNode \<Rightarrow> SNode" where
  "add_account account force_now sn =
     (if \<not> (\<exists>s \<in> set (sn_subs sn). same_account s account) then
        sn\<lparr>sn_subs := sn_subs sn @ [account], next_q := (Some account, system_epoch) # next_q sn\<rparr>
      else if force_now then
        sn\<lparr>next_q := (Some account, system_epoch) # clear_first account (next_q sn)\<rparr>
      else sn)"

definition reset_swarm :: "u64 \<Rightarrow> SNode \<Rightarrow> SNode" where
  "reset_swarm new_swarm sn = sn\<lparr>next_q := [], sn_subs := [], sn_swarm := new_swarm\<rparr>"

text \<open>
  The second loop of \<^verbatim>\<open>remove_stale_swarm_members\<close>, over the queue: an entry whose account's \<^verbatim>\<open>swarm\<close>
  is another one is emptied and its account erased from \<^verbatim>\<open>subs_\<close>.
\<close>

fun eject_stale :: "u64 \<Rightarrow> next_entry list \<Rightarrow> SwarmPubkey list \<Rightarrow> next_entry list \<times> SwarmPubkey list" where
  "eject_stale sw [] sub = ([], sub)"
| "eject_stale sw ((acc, t) # q) sub =
     (case acc of
        Some a \<Rightarrow>
          if swarm a \<noteq> sw then
            (case eject_stale sw q (filter (\<lambda>s. \<not> same_account s a) sub) of
               (q', sub') \<Rightarrow> ((None, t) # q', sub'))
          else (case eject_stale sw q sub of (q', sub') \<Rightarrow> ((acc, t) # q', sub'))
      | None \<Rightarrow> (case eject_stale sw q sub of (q', sub') \<Rightarrow> ((acc, t) # q', sub')))"

definition remove_stale_swarm_members :: "u64 list \<Rightarrow> SNode \<Rightarrow> SNode" where
  "remove_stale_swarm_members swarm_ids sn =
     (let sub = map (\<lambda>s. snd (update_swarm swarm_ids s)) (sn_subs sn)
      in case eject_stale (sn_swarm sn) (next_q sn) sub of
           (q, sub') \<Rightarrow> sn\<lparr>sn_subs := sub', next_q := q\<rparr>)"

section \<open>Subscription requests\<close>

text \<open>A bt-encoded value before serialization.\<close>

datatype bt = BtInt int | BtStr string | BtList "bt list" | BtDict "(string \<times> bt) list"

type_synonym subscribers = "(SwarmPubkey \<times> Subscription list) list"

definition find_subscriber :: "SwarmPubkey \<Rightarrow> subscribers \<Rightarrow> (SwarmPubkey \<times> Subscription list) option" where
  "find_subscriber acct subs = find (\<lambda>e. same_account (fst e) acct) subs"

text \<open>One element of the \<^verbatim>\<open>monitor\<close> request.\<close>

definition monitor_dict :: "SwarmPubkey \<Rightarrow> Subscription \<Rightarrow> (string \<times> bt) list" where
  "monitor_dict acct sub =
     (if session_ed acct then [(''P'', BtStr (as_sv (ed25519 acct)))] else []) @
     (case subaccount sub of
        Some sa \<Rightarrow> [(''S'', BtStr (as_sv (sub_sig sa))), (''T'', BtStr (as_sv (sub_tag sa)))]
      | None \<Rightarrow> []) @
     (if want_data sub then [(''d'', BtInt 1)] else []) @
     [(''n'', BtList (map BtInt (namespaces sub)))] @
     (if \<not> session_ed acct then [(''p'', BtStr (as_sv (account_id acct)))] else []) @
     [(''s'', BtStr (as_sv (sig sub))), (''t'', BtInt (sig_ts sub))]"

definition sig_in_window :: "nanos \<Rightarrow> Subscription \<Rightarrow> bool" where
  "sig_in_window now sub \<longleftrightarrow>
     (let sig_min = now - SIGNATURE_EXPIRY * nanos_per_sec + 10 * nanos_per_sec;
          sig_max = now + SIGNATURE_EARLY * nanos_per_sec
      in \<not> (sig_ts sub * nanos_per_sec < sig_min \<or> sig_ts sub * nanos_per_sec > sig_max))"

text \<open>
  \<^verbatim>\<open>std::uniform_int_distribution<int>{lo, hi}\<close>: some value of the range, chosen by an arbitrary number.
\<close>

definition uniform_int :: "int \<Rightarrow> int \<Rightarrow> nat \<Rightarrow> int" where
  "uniform_int lo hi r = lo + int r mod (hi - lo + 1)"

lemma uniform_int_range: "lo \<le> hi \<Longrightarrow> lo \<le> uniform_int lo hi r \<and> uniform_int lo hi r \<le> hi"
  using pos_mod_bound [of "hi - lo + 1" "int r"] by (simp add: uniform_int_def)

definition resubscribe_at :: "nanos \<Rightarrow> nat \<Rightarrow> nanos" where
  "resubscribe_at now r = now + uniform_int RESUBSCRIBE_MIN RESUBSCRIBE_MAX r * nanos_per_sec"

lemma resubscribe_at_range:
  "now + RESUBSCRIBE_MIN * nanos_per_sec \<le> resubscribe_at now r \<and>
   resubscribe_at now r \<le> now + RESUBSCRIBE_MAX * nanos_per_sec"
  using uniform_int_range [of RESUBSCRIBE_MIN RESUBSCRIBE_MAX r]
  by (simp add: resubscribe_at_def RESUBSCRIBE_MIN_def RESUBSCRIBE_MAX_def nanos_per_sec_def)

lemma resubscribe_at_later: "now < resubscribe_at now r"
  using resubscribe_at_range [of now r] by (simp add: RESUBSCRIBE_MIN_def nanos_per_sec_def)

lemma resubscribe_at_not_due [simp]: "\<not> resubscribe_at now r \<le> now"
  using resubscribe_at_later [of now r] by simp

record drain_state =
  d_next :: "next_entry list"
  d_req :: "(string \<times> bt) list list"
  d_next_added :: nat
  d_rate_limited :: bool

text \<open>
  The loop of \<^verbatim>\<open>check_subs\<close> over the front of the queue. \<open>rnd\<close> gives the random number of the next
  draw; \<^verbatim>\<open>subreq_count\<close> is the length of the request under construction.
\<close>

function drain :: "nanos \<Rightarrow> subscribers \<Rightarrow> (nat \<Rightarrow> nat) \<Rightarrow> drain_state \<Rightarrow> drain_state" where
  "drain now all_subs rnd d =
     (case d_next d of
        [] \<Rightarrow> d
      | (maybe_acct, t) # rest \<Rightarrow>
          if t > now then d
          else (case maybe_acct of
              None \<Rightarrow> drain now all_subs rnd (d\<lparr>d_next := rest\<rparr>)
            | Some acct \<Rightarrow>
                (case find_subscriber acct all_subs of
                   None \<Rightarrow> drain now all_subs rnd (d\<lparr>d_next := rest\<rparr>)
                 | Some (_, subs) \<Rightarrow>
                     let req = d_req d @ map (monitor_dict acct) (filter (sig_in_window now) subs);
                         d' = d\<lparr>d_next := rest @ [(Some acct, resubscribe_at now (rnd (d_next_added d)))],
                                d_req := req, d_next_added := d_next_added d + 1\<rparr>
                     in if length req \<ge> SUBS_REQUEST_LIMIT then d'\<lparr>d_rate_limited := True\<rparr>
                        else drain now all_subs rnd d')))"
  by pat_completeness auto
termination
  by (relation "measure (\<lambda>(now, _, _, d). length (filter (\<lambda>e. snd e \<le> now) (d_next d)))")
    (auto simp: not_less)

declare drain.simps [simp del]

text \<open>The re-sort of the tail: \<^verbatim>\<open>std::partition_point\<close> on the untouched front, then \<^verbatim>\<open>std::sort\<close> to the end.\<close>

definition resort :: "nanos \<Rightarrow> nat \<Rightarrow> next_entry list \<Rightarrow> next_entry list" where
  "resort now next_added q =
     (let untouched = take (length q - next_added) q;
          k = length (takeWhile (\<lambda>n. snd n < now + RESUBSCRIBE_MIN * nanos_per_sec) untouched)
      in take k q @ sort_key snd (drop k q))"

text \<open>
  \<^verbatim>\<open>SNode::check_subs\<close>: the new node and gate and, when a \<^verbatim>\<open>monitor\<close> command is sent on the stream,
  its list of dicts with the \<^verbatim>\<open>rate_limited\<close> flag its response handler captures.
\<close>

definition check_subs ::
  "nanos \<Rightarrow> nanos \<Rightarrow> (nat \<Rightarrow> nat) \<Rightarrow> subscribers \<Rightarrow> SNode \<Rightarrow> Gate \<Rightarrow>
   (SNode \<times> Gate) \<times> ((string \<times> bt) list list \<times> bool) option" where
  "check_subs steady_now now rnd all_subs sn g =
     (if \<not> connected sn then
        if conn sn \<noteq> None then ((sn, g), None)
        else if in_cooldown steady_now sn then ((sn, g), None)
        else (snode_connect steady_now (sn\<lparr>cooldown_until := None\<rparr>) g, None)
      else
        let d = drain now all_subs rnd
                  \<lparr>d_next = next_q sn, d_req = [], d_next_added = 0, d_rate_limited = False\<rparr>
        in ((sn\<lparr>next_q := resort now (d_next_added d) (d_next d)\<rparr>, g),
            if d_req d \<noteq> [] then Some (d_req d, d_rate_limited d) else None))"

text \<open>
  The handler of a \<^verbatim>\<open>monitor\<close> response: what it logs and whether it schedules another
  \<^verbatim>\<open>check_my_subs\<close>. The response is a failure or a body, which the bt parser turns into one
  result per element or an exception.
\<close>

datatype monitor_result = has_error | has_success | neither

datatype monitor_log = request_failed | parse_failed | counts int int | all_good int

definition on_monitor_response ::
  "(string \<Rightarrow> monitor_result list result) \<Rightarrow> nat \<Rightarrow> bool \<Rightarrow> string option \<Rightarrow> monitor_log \<times> bool" where
  "on_monitor_response parse expected_count rate_limited response =
     (case response of
        None \<Rightarrow> (request_failed, False)
      | Some body \<Rightarrow>
          ((case parse body of
              Inl e \<Rightarrow> parse_failed
            | Inr rs \<Rightarrow>
                let good = int (length (filter (\<lambda>r. r = has_success) rs));
                    bad = int (length (filter (\<lambda>r. r = has_error) rs))
                in if bad \<noteq> 0 \<or> good \<noteq> int expected_count then counts good bad else all_good good),
           rate_limited))"


section \<open>What draining the queue does\<close>

text \<open>The accounts queued, and what one due entry contributes to the request and to the queue.\<close>

fun queue_accounts :: "next_entry list \<Rightarrow> SwarmPubkey list" where
  "queue_accounts [] = []"
| "queue_accounts ((acc, t) # q) = (case acc of Some a \<Rightarrow> a # queue_accounts q | None \<Rightarrow> queue_accounts q)"

definition monitored :: "subscribers \<Rightarrow> SwarmPubkey \<Rightarrow> bool" where
  "monitored all_subs a \<longleftrightarrow> find_subscriber a all_subs \<noteq> None"

definition account_reqs :: "nanos \<Rightarrow> subscribers \<Rightarrow> SwarmPubkey \<Rightarrow> (string \<times> bt) list list" where
  "account_reqs now all_subs a =
     (case find_subscriber a all_subs of
        None \<Rightarrow> []
      | Some (_, subs) \<Rightarrow> map (monitor_dict a) (filter (sig_in_window now) subs))"

definition due_reqs :: "nanos \<Rightarrow> subscribers \<Rightarrow> next_entry list \<Rightarrow> (string \<times> bt) list list" where
  "due_reqs now all_subs q = concat (map (account_reqs now all_subs) (queue_accounts q))"

definition resubscribe_time :: "nanos \<Rightarrow> nanos \<Rightarrow> bool" where
  "resubscribe_time now t \<longleftrightarrow>
     now + RESUBSCRIBE_MIN * nanos_per_sec \<le> t \<and> t \<le> now + RESUBSCRIBE_MAX * nanos_per_sec"

lemma account_reqs_unmonitored: "\<not> monitored all_subs a \<Longrightarrow> account_reqs now all_subs a = []"
  by (auto simp: monitored_def account_reqs_def split: option.splits)

lemma queue_accounts_append [simp]: "queue_accounts (p @ q) = queue_accounts p @ queue_accounts q"
  by (induction p rule: queue_accounts.induct) (auto split: option.splits)

lemma set_queue_accounts: "set (queue_accounts q) = {a. \<exists>t. (Some a, t) \<in> set q}"
  by (induction q rule: queue_accounts.induct) (auto split: option.splits)

lemma due_reqs_append [simp]: "due_reqs now all_subs (p @ q) = due_reqs now all_subs p @ due_reqs now all_subs q"
  by (simp add: due_reqs_def)

lemma due_reqs_Nil [simp]: "due_reqs now all_subs [] = []"
  by (simp add: due_reqs_def)

lemma resubscribe_time_not_due: "resubscribe_time now t \<Longrightarrow> now < t"
  by (simp add: resubscribe_time_def RESUBSCRIBE_MIN_def nanos_per_sec_def)

text \<open>
  The loop invariant and its outcome: \<open>done\<close> is the processed front, \<open>left\<close> what is still in place,
  \<open>added\<close> the entries appended at the back.
\<close>

definition drained ::
  "nanos \<Rightarrow> subscribers \<Rightarrow> next_entry list \<Rightarrow> next_entry list \<Rightarrow> next_entry list \<Rightarrow> drain_state \<Rightarrow> bool" where
  "drained now all_subs front left added d \<longleftrightarrow>
     d_next d = left @ added \<and> length added = d_next_added d \<and>
     (\<forall>e \<in> set front. snd e \<le> now) \<and>
     (\<forall>e \<in> set added. resubscribe_time now (snd e)) \<and>
     queue_accounts added = filter (monitored all_subs) (queue_accounts front) \<and>
     (\<forall>e \<in> set added. fst e \<noteq> None) \<and>
     d_req d = due_reqs now all_subs front"

definition exhausted :: "nanos \<Rightarrow> next_entry list \<Rightarrow> bool" where
  "exhausted now left \<longleftrightarrow> (left = [] \<or> snd (hd left) > now)"

lemma drain_stop: "exhausted now (d_next d) \<Longrightarrow> drain now all_subs rnd d = d"
  by (cases "d_next d") (auto simp: exhausted_def drain.simps [of now all_subs rnd d])

definition wanted :: "subscribers \<Rightarrow> next_entry \<Rightarrow> bool" where
  "wanted all_subs e \<longleftrightarrow> (case fst e of None \<Rightarrow> False | Some a \<Rightarrow> monitored all_subs a)"

lemma drain_skip:
  assumes "d_next d = e # q" "snd e \<le> now" "\<not> wanted all_subs e"
  shows "drain now all_subs rnd d = drain now all_subs rnd (d\<lparr>d_next := q\<rparr>)"
  using assms
  by (cases e) (auto simp: drain.simps [of now all_subs rnd d] wanted_def monitored_def split: option.splits)

definition requeue :: "nanos \<Rightarrow> subscribers \<Rightarrow> (nat \<Rightarrow> nat) \<Rightarrow> SwarmPubkey \<Rightarrow> next_entry list \<Rightarrow> drain_state \<Rightarrow> drain_state" where
  "requeue now all_subs rnd a q d =
     d\<lparr>d_next := q @ [(Some a, resubscribe_at now (rnd (d_next_added d)))],
       d_req := d_req d @ account_reqs now all_subs a, d_next_added := d_next_added d + 1\<rparr>"

lemma drain_take:
  assumes "d_next d = (Some a, t) # q" "t \<le> now" "monitored all_subs a"
  shows "drain now all_subs rnd d =
    (let d' = requeue now all_subs rnd a q d
     in if length (d_req d') \<ge> SUBS_REQUEST_LIMIT then d'\<lparr>d_rate_limited := True\<rparr>
        else drain now all_subs rnd d')"
  using assms
  by (auto simp: drain.simps [of now all_subs rnd d] requeue_def monitored_def account_reqs_def Let_def)

lemma drained_skip:
  assumes "drained now all_subs front (e # left) added d" "snd e \<le> now" "\<not> wanted all_subs e"
  shows "drained now all_subs (front @ [e]) left added (d\<lparr>d_next := left @ added\<rparr>)"
  using assms
  by (cases e; cases "fst e") (auto simp: drained_def due_reqs_def account_reqs_unmonitored wanted_def)

lemma drained_take:
  assumes "drained now all_subs front ((Some a, t) # left) added d" "t \<le> now" "monitored all_subs a"
  shows "drained now all_subs (front @ [(Some a, t)]) left
    (added @ [(Some a, resubscribe_at now (rnd (d_next_added d)))])
    (requeue now all_subs rnd a (left @ added) d)"
  using assms resubscribe_at_range [of now "rnd (d_next_added d)"]
  by (simp add: drained_def requeue_def due_reqs_def resubscribe_time_def)

definition drain_outcome :: "nanos \<Rightarrow> subscribers \<Rightarrow> next_entry list \<Rightarrow> next_entry list \<Rightarrow> bool \<Rightarrow> bool" where
  "drain_outcome now all_subs front left limited \<longleftrightarrow>
     (if limited then
        length (due_reqs now all_subs front) \<ge> SUBS_REQUEST_LIMIT \<and> front \<noteq> [] \<and>
        length (due_reqs now all_subs (butlast front)) < SUBS_REQUEST_LIMIT
      else exhausted now left \<and> length (due_reqs now all_subs front) < SUBS_REQUEST_LIMIT)"

lemma drained_exhausted:
  assumes "drained now all_subs front left added d" "exhausted now left"
  shows "exhausted now (d_next d)"
  using assms resubscribe_time_not_due by (cases left; cases added) (auto simp: drained_def exhausted_def)

lemma drain_drained_stop:
  assumes "drained now all_subs front left added d" "\<not> d_rate_limited d" "exhausted now left" "length (d_req d) < SUBS_REQUEST_LIMIT"
  shows "\<exists>front' left' added'. front' @ left' = front @ left \<and>
    drained now all_subs front' left' added' (drain now all_subs rnd d) \<and>
    drain_outcome now all_subs front' left' (d_rate_limited (drain now all_subs rnd d))"
proof -
  have "drain now all_subs rnd d = d" by (intro drain_stop drained_exhausted [OF assms(1,3)])
  moreover have "d_req d = due_reqs now all_subs front" using assms(1) by (simp add: drained_def)
  ultimately have "drained now all_subs front left added (drain now all_subs rnd d) \<and>
      drain_outcome now all_subs front left (d_rate_limited (drain now all_subs rnd d))"
    using assms by (simp add: drain_outcome_def)
  then show ?thesis by blast
qed

lemma drain_drained:
  assumes "drained now all_subs front left added d" "\<not> d_rate_limited d" "length (d_req d) < SUBS_REQUEST_LIMIT"
  shows "\<exists>front' left' added'. front' @ left' = front @ left \<and>
    drained now all_subs front' left' added' (drain now all_subs rnd d) \<and>
    drain_outcome now all_subs front' left' (d_rate_limited (drain now all_subs rnd d))"
  using assms
proof (induction left arbitrary: front added d)
  case Nil
  then show ?case using drain_drained_stop [of now all_subs front "[]" added d] by (simp add: exhausted_def)
next
  case (Cons e left)
  have nxt: "d_next d = e # left @ added" using Cons.prems(1) by (simp add: drained_def)
  consider (later) "snd e > now" | (skip) "snd e \<le> now" "\<not> wanted all_subs e"
    | (take) a t where "e = (Some a, t)" "t \<le> now" "monitored all_subs a"
    by (cases e) (force simp: wanted_def split: option.splits)
  then show ?case
  proof cases
    case later
    with Cons.prems show ?thesis using drain_drained_stop [of now all_subs front "e # left" added d] by (simp add: exhausted_def)
  next
    case skip
    let ?d = "d\<lparr>d_next := left @ added\<rparr>"
    from Cons.IH [OF drained_skip [OF Cons.prems(1) skip]] Cons.prems(2,3)
    show ?thesis by (simp add: drain_skip [OF nxt skip])
  next
    case take
    let ?d = "requeue now all_subs rnd a (left @ added) d" and ?front = "front @ [(Some a, t)]"
    let ?added = "added @ [(Some a, resubscribe_at now (rnd (d_next_added d)))]"
    have dr: "drained now all_subs ?front left ?added ?d"
      using drained_take [of now all_subs front a t left added d rnd] Cons.prems(1) take by simp
    have step: "drain now all_subs rnd d = (if length (d_req ?d) \<ge> SUBS_REQUEST_LIMIT
        then ?d\<lparr>d_rate_limited := True\<rparr> else drain now all_subs rnd ?d)"
      using drain_take [of d a t "left @ added" now all_subs rnd] nxt take by (simp add: Let_def)
    have rl: "\<not> d_rate_limited ?d" using Cons.prems(2) by (simp add: requeue_def)
    show ?thesis
    proof (cases "length (d_req ?d) \<ge> SUBS_REQUEST_LIMIT")
      case True
      have "drained now all_subs ?front left ?added (?d\<lparr>d_rate_limited := True\<rparr>)"
        using dr by (simp add: drained_def)
      moreover have "d_req ?d = due_reqs now all_subs ?front" "d_req d = due_reqs now all_subs front"
        using dr Cons.prems(1) by (simp_all add: drained_def)
      ultimately show ?thesis using True Cons.prems(3) step take
        by (intro exI [of _ ?front] exI [of _ left] exI [of _ ?added]) (simp add: drain_outcome_def)
    next
      case False
      with Cons.IH [OF dr rl] step take show ?thesis by simp
    qed
  qed
qed

section \<open>Re-sorting the tail\<close>

lemma mset_resort: "mset (resort now k q) = mset q"
proof -
  have "mset (take n q) + mset (sort_key snd (drop n q)) = mset q" for n
    by (simp flip: mset_append)
  then show ?thesis by (simp add: resort_def Let_def)
qed

lemma sorted_resort:
  assumes srt: "sorted (map snd left)"
    and late: "\<forall>e \<in> set added. now + RESUBSCRIBE_MIN * nanos_per_sec \<le> snd e"
  shows "sorted (map snd (resort now (length added) (left @ added)))"
proof -
  let ?P = "\<lambda>e :: next_entry. snd e < now + RESUBSCRIBE_MIN * nanos_per_sec"
  have cut: "take (length (takeWhile ?P left)) (left @ added) = takeWhile ?P left"
    "drop (length (takeWhile ?P left)) (left @ added) = dropWhile ?P left @ added"
    using length_takeWhile_le [of ?P left]
    by (simp_all add: takeWhile_eq_take [symmetric] dropWhile_eq_drop [symmetric])
  have untouched: "take (length (left @ added) - length added) (left @ added) = left" by simp
  have "sorted (map snd (takeWhile ?P left))"
    using srt by (metis map_append sorted_append takeWhile_dropWhile_id)
  moreover have "\<not> ?P e" if "e \<in> set (dropWhile ?P left @ added)" for e
    using sorted_dropWhile_ge [OF srt, of e "now + RESUBSCRIBE_MIN * nanos_per_sec"] that late by auto
  then have "snd x \<le> snd y" if "x \<in> set (takeWhile ?P left)" "y \<in> set (dropWhile ?P left @ added)" for x y
    using set_takeWhileD [OF that(1)] that(2) by (meson not_less less_imp_le order.trans)
  moreover have "resort now (length added) (left @ added) =
      takeWhile ?P left @ sort_key snd (dropWhile ?P left @ added)"
    unfolding resort_def Let_def untouched cut ..
  ultimately show ?thesis by (auto simp: sorted_append)
qed

section \<open>Checking the subscriptions of a connected node\<close>

text \<open>
  The shape of one \<^verbatim>\<open>check_subs\<close>: the queue splits into a processed front and the rest; the request is
  what the front's accounts contribute; the new queue holds the rest and one entry for each of
  the front's accounts that is still subscribed.
\<close>

lemma check_subs_shape:
  assumes con: "connected sn" and srt: "sorted (map snd (next_q sn))"
    and chk: "check_subs st now rnd all_subs sn g = ((sn', g'), out)"
  obtains front left added limited q' where
    "next_q sn = front @ left" "\<forall>e \<in> set front. snd e \<le> now"
    "mset q' = mset (left @ added)" "sorted (map snd q')"
    "queue_accounts added = filter (monitored all_subs) (queue_accounts front)"
    "\<forall>e \<in> set added. fst e \<noteq> None \<and> resubscribe_time now (snd e)"
    "drain_outcome now all_subs front left limited"
    "out = (if due_reqs now all_subs front = [] then None else Some (due_reqs now all_subs front, limited))"
    "sn' = sn\<lparr>next_q := q'\<rparr>" "g' = g"
proof -
  let ?start = "\<lparr>d_next = next_q sn, d_req = [], d_next_added = 0, d_rate_limited = False\<rparr>"
  let ?d = "drain now all_subs rnd ?start"
  have "drained now all_subs [] (next_q sn) [] ?start" by (simp add: drained_def)
  then obtain front left added where
    split: "front @ left = next_q sn" and dr: "drained now all_subs front left added ?d"
    and oc: "drain_outcome now all_subs front left (d_rate_limited ?d)"
    using drain_drained [of now all_subs "[]" "next_q sn" "[]" ?start rnd] by (auto simp: SUBS_REQUEST_LIMIT_def)
  have sn': "sn' = sn\<lparr>next_q := resort now (d_next_added ?d) (d_next ?d)\<rparr>" "g' = g"
    "out = (if d_req ?d \<noteq> [] then Some (d_req ?d, d_rate_limited ?d) else None)"
    using chk con by (simp_all add: check_subs_def Let_def)
  have "sorted (map snd left)" using srt by (metis split map_append sorted_append)
  then have "sorted (map snd (next_q sn'))"
    using dr sorted_resort [of left added now] by (auto simp: sn' drained_def resubscribe_time_def)
  moreover have "mset (next_q sn') = mset (left @ added)"
    using dr by (simp add: sn' mset_resort drained_def)
  ultimately show ?thesis
    using that [of front left "next_q sn'" added "d_rate_limited ?d"] split dr oc sn' by (simp add: drained_def)
qed

section \<open>The invariant of a node\<close>

text \<open>
  The queue is in time order with no time before the epoch, holds each account at most once and
  only accounts of \<^verbatim>\<open>subs_\<close>, which has no duplicates; the stream exists exactly when the connection
  does, and a connected node has one.
\<close>

definition queue_ok :: "SwarmPubkey list \<Rightarrow> next_entry list \<Rightarrow> bool" where
  "queue_ok sub q \<longleftrightarrow>
     sorted (map snd q) \<and> (\<forall>e \<in> set q. system_epoch \<le> snd e) \<and>
     distinct (map account_id (queue_accounts q)) \<and>
     account_id ` set (queue_accounts q) \<subseteq> account_id ` set sub \<and>
     distinct (map account_id sub)"

definition link_ok :: "SNode \<Rightarrow> bool" where
  "link_ok sn \<longleftrightarrow>
     (stream sn \<longleftrightarrow> conn sn \<noteq> None) \<and> (connected sn \<longrightarrow> conn sn \<noteq> None) \<and> 0 \<le> cooldown_fails sn"

definition snode_ok :: "SNode \<Rightarrow> bool" where
  "snode_ok sn \<longleftrightarrow> queue_ok (sn_subs sn) (next_q sn) \<and> link_ok sn"

lemma clear_first_times [simp]: "map snd (clear_first a q) = map snd q"
  by (induction a q rule: clear_first.induct) (auto split: option.splits)

lemma clear_first_ids:
  assumes "distinct (map account_id (queue_accounts q))"
  shows "map account_id (queue_accounts (clear_first a q)) =
    filter (\<lambda>i. i \<noteq> account_id a) (map account_id (queue_accounts q))"
  using assms
proof (induction a q rule: clear_first.induct)
  case (2 a acc t q)
  have "filter (\<lambda>i. i \<noteq> account_id a) ids = ids" if "account_id a \<notin> set ids" for ids
    using that by (auto simp: filter_id_conv)
  with 2 show ?case by (auto simp: same_account_def split: option.splits)
qed simp

lemma snode_connect_frame [simp]:
  "next_q (fst (snode_connect st sn g)) = next_q sn" "sn_subs (fst (snode_connect st sn g)) = sn_subs sn"
  "sn_swarm (fst (snode_connect st sn g)) = sn_swarm sn" "addr (fst (snode_connect st sn g)) = addr sn"
  "connected (fst (snode_connect st sn g)) = connected sn"
  "cooldown_fails (fst (snode_connect st sn g)) = cooldown_fails sn"
  by (simp_all add: snode_connect_def Let_def split: prod.splits bool.splits)

lemma snode_connect_link [inv_intros]: "link_ok sn \<Longrightarrow> link_ok (fst (snode_connect st sn g))"
  by (auto simp: snode_connect_def link_ok_def Let_def split: prod.splits bool.splits)

lemma snode_connect_ok [inv_intros]: "snode_ok sn \<Longrightarrow> snode_ok (fst (snode_connect st sn g))"
  by (simp add: snode_ok_def snode_connect_link)

lemma disconnect_ok [inv_intros]: "snode_ok sn \<Longrightarrow> snode_ok (disconnect sn)"
  by (simp add: snode_ok_def disconnect_def link_ok_def Let_def)

lemma connect_addr_ok [inv_intros]: "snode_ok sn \<Longrightarrow> snode_ok (fst (connect_addr st a sn g))"
proof -
  assume ok: "snode_ok sn"
  then have "snode_ok ((disconnect sn)\<lparr>addr := a\<rparr>)"
    using disconnect_ok [OF ok] by (simp add: snode_ok_def link_ok_def)
  with ok show ?thesis by (simp add: connect_addr_def Let_def snode_connect_ok)
qed

lemma SNode_ctor_ok [inv_intros]: "snode_ok (fst (SNode_ctor st a sw g))"
  unfolding SNode_ctor_def
  by (rule snode_connect_ok) (simp add: snode_ok_def queue_ok_def link_ok_def)

lemma queue_accounts_reset [simp]:
  "queue_accounts (map (\<lambda>(acc, _). (acc, c)) q) = queue_accounts q"
  by (induction q rule: queue_accounts.induct) (auto split: option.splits)

lemma queue_ok_reset:
  assumes "queue_ok sub q"
  shows "queue_ok sub (map (\<lambda>(acc, _). (acc, system_epoch)) q)"
proof -
  have t: "map snd (map (\<lambda>(acc, _). (acc, system_epoch)) q) = replicate (length q) system_epoch"
    by (induction q) auto
  have "sorted (map snd (map (\<lambda>(acc, _). (acc, system_epoch)) q))"
    unfolding t by (rule sorted_replicate)
  moreover have "\<forall>e \<in> set (map (\<lambda>(acc, _). (acc, system_epoch)) q). system_epoch \<le> snd e" by auto
  ultimately show ?thesis using assms unfolding queue_ok_def queue_accounts_reset by blast
qed

lemma snode_on_connected_ok [inv_intros]: "snode_ok sn \<Longrightarrow> snode_ok (snd (snode_on_connected sn))"
  by (auto simp: snode_ok_def link_ok_def snode_on_connected_def Let_def queue_ok_reset)

lemma snode_on_disconnected_ok [inv_intros]:
  "snode_ok sn \<Longrightarrow> snode_ok (snd (snode_on_disconnected st has sn))"
  by (simp add: snode_ok_def link_ok_def snode_on_disconnected_def Let_def)

lemma times_ge:
  assumes "map snd q' = map snd q" "\<forall>e \<in> set q. c \<le> snd e"
  shows "\<forall>e \<in> set q'. c \<le> snd e"
proof -
  have "\<forall>t \<in> set (map snd q'). c \<le> t" unfolding assms(1) using assms(2) by simp
  then show ?thesis by simp
qed

lemma queue_ok_insert:
  assumes "queue_ok sub q" "account_id a \<notin> account_id ` set sub"
  shows "queue_ok (sub @ [a]) ((Some a, system_epoch) # q)"
  using assms by (auto simp: queue_ok_def)

lemma queue_ok_requeue:
  assumes ok: "queue_ok sub q" and a: "account_id a \<in> account_id ` set sub"
  shows "queue_ok sub ((Some a, system_epoch) # clear_first a q)"
proof -
  have ids: "map account_id (queue_accounts (clear_first a q)) =
      filter (\<lambda>i. i \<noteq> account_id a) (map account_id (queue_accounts q))"
    using ok by (intro clear_first_ids) (simp add: queue_ok_def)
  then have set: "account_id ` set (queue_accounts (clear_first a q)) =
      account_id ` set (queue_accounts q) - {account_id a}"
    by (metis (no_types) filter_set list.set_map set_minus_filter_out)
  have "\<forall>e \<in> set (clear_first a q). system_epoch \<le> snd e"
    using ok times_ge [OF clear_first_times] unfolding queue_ok_def by blast
  moreover have "distinct (map account_id (queue_accounts (clear_first a q)))"
    unfolding ids using ok by (simp add: queue_ok_def)
  moreover have "account_id a # map account_id (queue_accounts (clear_first a q)) =
      map account_id (queue_accounts ((Some a, system_epoch) # clear_first a q))" by simp
  ultimately show ?thesis
    using ok a set unfolding queue_ok_def by auto
qed

lemma add_account_cases:
  obtains (new) "account_id a \<notin> account_id ` set (sn_subs sn)"
      "add_account a force sn = sn\<lparr>sn_subs := sn_subs sn @ [a], next_q := (Some a, system_epoch) # next_q sn\<rparr>"
  | (forced) "account_id a \<in> account_id ` set (sn_subs sn)" "force"
      "add_account a force sn = sn\<lparr>next_q := (Some a, system_epoch) # clear_first a (next_q sn)\<rparr>"
  | (known) "account_id a \<in> account_id ` set (sn_subs sn)" "\<not> force" "add_account a force sn = sn"
proof -
  have "(\<exists>s \<in> set (sn_subs sn). same_account s a) \<longleftrightarrow> account_id a \<in> account_id ` set (sn_subs sn)"
    unfolding same_account_def image_iff by metis
  with that show ?thesis by (cases force) (auto simp: add_account_def)
qed

lemma add_account_ok [inv_intros]:
  assumes "snode_ok sn"
  shows "snode_ok (add_account a force sn)"
  by (rule add_account_cases [of a sn force])
    (use assms in \<open>simp_all add: snode_ok_def link_ok_def queue_ok_insert queue_ok_requeue\<close>)

lemma reset_swarm_ok [inv_intros]: "snode_ok sn \<Longrightarrow> snode_ok (reset_swarm sw sn)"
  by (simp add: snode_ok_def queue_ok_def link_ok_def reset_swarm_def)

lemma eject_stale_spec:
  "eject_stale sw q sub = (q', sub') \<Longrightarrow>
     map snd q' = map snd q \<and> queue_accounts q' = filter (\<lambda>a. swarm a = sw) (queue_accounts q) \<and>
     sub' = filter (\<lambda>s. \<forall>a \<in> set (queue_accounts q). swarm a \<noteq> sw \<longrightarrow> \<not> same_account s a) sub"
proof (induction sw q sub arbitrary: q' sub' rule: eject_stale.induct)
  case (2 sw acc t q sub)
  then show ?case
    by (cases acc) (auto split: prod.splits if_splits simp: conj_commute intro!: filter_cong)
qed simp

lemma eject_stale_ok:
  assumes ok: "queue_ok sub q" and ej: "eject_stale sw q sub = (q', sub')"
  shows "queue_ok sub' q'"
proof -
  note spec = eject_stale_spec [OF ej]
  have "account_id a \<in> account_id ` set sub'"
    if a: "a \<in> set (queue_accounts q)" "swarm a = sw" for a
  proof -
    from ok a obtain s where s: "s \<in> set sub" "account_id s = account_id a"
      unfolding queue_ok_def by (metis (no_types, lifting) image_iff subset_iff)
    have "b = a" if "b \<in> set (queue_accounts q)" "account_id b = account_id a" for b
      using ok a that unfolding queue_ok_def distinct_map by (blast dest: inj_onD)
    then have "\<forall>b \<in> set (queue_accounts q). swarm b \<noteq> sw \<longrightarrow> \<not> same_account s b"
      using s a by (metis same_account_def)
    then have "s \<in> set sub'" using spec s by simp
    with s show ?thesis by (metis image_eqI)
  qed
  then have "account_id ` set (queue_accounts q') \<subseteq> account_id ` set sub'"
    using spec by auto
  moreover have "distinct (map account_id (queue_accounts q'))" "distinct (map account_id sub')"
    using ok spec by (auto simp: queue_ok_def distinct_map_filter)
  moreover have "sorted (map snd q')" "\<forall>e \<in> set q'. system_epoch \<le> snd e"
    using ok spec times_ge [of q' q system_epoch] by (auto simp: queue_ok_def)
  ultimately show ?thesis by (simp add: queue_ok_def)
qed

lemma queue_ok_update_swarm:
  assumes "queue_ok sub q"
  shows "queue_ok (map (\<lambda>s. snd (update_swarm ids s)) sub) q"
proof -
  have "map account_id (map (\<lambda>s. snd (update_swarm ids s)) sub) = map account_id sub" by simp
  moreover from this have "account_id ` set (map (\<lambda>s. snd (update_swarm ids s)) sub) = account_id ` set sub"
    by (metis list.set_map)
  ultimately show ?thesis using assms unfolding queue_ok_def by metis
qed

lemma remove_stale_ok [inv_intros]: "snode_ok sn \<Longrightarrow> snode_ok (remove_stale_swarm_members ids sn)"
  using eject_stale_ok [OF queue_ok_update_swarm]
  by (auto simp: snode_ok_def link_ok_def remove_stale_swarm_members_def Let_def split: prod.splits)

lemma mset_queue_accounts: "mset q = mset q' \<Longrightarrow> mset (queue_accounts q) = mset (queue_accounts q')"
proof -
  have "mset (queue_accounts p) = image_mset the (filter_mset (\<lambda>a. a \<noteq> None) (image_mset fst (mset p)))" for p
    by (induction p rule: queue_accounts.induct) (auto split: option.splits)
  then show "mset q = mset q' \<Longrightarrow> ?thesis" by simp
qed

lemma check_subs_ok [inv_intros]:
  assumes ok: "snode_ok sn" and now: "0 \<le> now"
    and chk: "check_subs st now rnd all_subs sn g = ((sn', g'), out)"
  shows "snode_ok sn'"
proof (cases "connected sn")
  case False
  have "snode_ok (sn\<lparr>cooldown_until := None\<rparr>)" using ok by (simp add: snode_ok_def link_ok_def)
  then have "snode_ok (fst (snode_connect st (sn\<lparr>cooldown_until := None\<rparr>) g))" by (rule snode_connect_ok)
  with False ok chk show ?thesis by (auto simp: check_subs_def split: if_splits)
next
  case True
  have srt: "sorted (map snd (next_q sn))" using ok by (simp add: snode_ok_def queue_ok_def)
  from True srt chk obtain front left added limited q' where
    q: "next_q sn = front @ left" and m: "mset q' = mset (left @ added)" and s': "sorted (map snd q')"
    and acc: "queue_accounts added = filter (monitored all_subs) (queue_accounts front)"
    and add: "\<forall>e \<in> set added. fst e \<noteq> None \<and> resubscribe_time now (snd e)"
    and sn': "sn' = sn\<lparr>next_q := q'\<rparr>"
    by (rule check_subs_shape)
  have accs: "mset (queue_accounts q') = mset (queue_accounts left) + mset (queue_accounts added)"
    using mset_queue_accounts [OF m] by simp
  have sub: "set (queue_accounts q') \<subseteq> set (queue_accounts (next_q sn))"
    using arg_cong [OF accs, of set_mset] acc q by auto
  have "mset (map account_id (queue_accounts q')) =
      mset (map account_id (queue_accounts left @ filter (monitored all_subs) (queue_accounts front)))"
    using accs acc by simp
  moreover have "distinct (map account_id (queue_accounts left @ filter (monitored all_subs) (queue_accounts front)))"
    using ok q by (auto simp: snode_ok_def queue_ok_def distinct_map_filter)
  ultimately have "distinct (map account_id (queue_accounts q'))"
    by (metis mset_eq_imp_distinct_iff)
  moreover have "set q' = set left \<union> set added" using arg_cong [OF m, of set_mset] by simp
  moreover have "system_epoch \<le> snd e" if "e \<in> set added" for e
    using add that now by (fastforce simp: system_epoch_def resubscribe_time_def RESUBSCRIBE_MIN_def nanos_per_sec_def)
  moreover have "account_id ` set (queue_accounts q') \<subseteq> account_id ` set (sn_subs sn)"
    using image_mono [OF sub, of account_id] ok unfolding snode_ok_def queue_ok_def by blast
  ultimately have "queue_ok (sn_subs sn) q'"
    using ok s' q by (auto simp: snode_ok_def queue_ok_def)
  with ok show ?thesis by (simp add: sn' snode_ok_def link_ok_def)
qed

section \<open>Properties of a node\<close>

lemma drain_outcome_front:
  assumes "drain_outcome now all_subs front left False" "\<forall>e \<in> set front. snd e \<le> now"
  shows "takeWhile (\<lambda>e. snd e \<le> now) (front @ left) = front"
proof -
  have "takeWhile (\<lambda>e. snd e \<le> now) left = []"
    using assms(1) by (cases left) (auto simp: drain_outcome_def exhausted_def)
  with assms(2) show ?thesis by (simp add: takeWhile_append2)
qed

lemma sorted_exhausted: "sorted (map snd left) \<Longrightarrow> exhausted now left \<Longrightarrow> e \<in> set left \<Longrightarrow> now < snd e"
  by (cases left) (auto simp: exhausted_def)

text \<open>
  C24. Checking the subscriptions of a connected node leaves its queue in time order and loses no
  account that is still subscribed: an account is dropped from the queue only when nobody
  subscribes to it any more. If the request was not cut short by the rate limit, nothing is
  overdue afterwards.
\<close>

theorem check_subs_keeps_accounts:
  assumes ok: "snode_ok sn" and con: "connected sn" and now: "0 \<le> now"
    and chk: "check_subs st now rnd all_subs sn g = ((sn', g'), out)"
  shows "snode_ok sn' \<and>
    set (queue_accounts (next_q sn')) \<subseteq> set (queue_accounts (next_q sn)) \<and>
    (\<forall>a \<in> set (queue_accounts (next_q sn)). monitored all_subs a \<longrightarrow> a \<in> set (queue_accounts (next_q sn'))) \<and>
    ((\<nexists>req. out = Some (req, True)) \<longrightarrow> (\<forall>e \<in> set (next_q sn'). now < snd e))"
proof -
  have srt: "sorted (map snd (next_q sn))" using ok by (simp add: snode_ok_def queue_ok_def)
  from con srt chk obtain front left added limited q' where
    q: "next_q sn = front @ left" and m: "mset q' = mset (left @ added)"
    and acc: "queue_accounts added = filter (monitored all_subs) (queue_accounts front)"
    and add: "\<forall>e \<in> set added. fst e \<noteq> None \<and> resubscribe_time now (snd e)"
    and oc: "drain_outcome now all_subs front left limited"
    and out: "out = (if due_reqs now all_subs front = [] then None else Some (due_reqs now all_subs front, limited))"
    and sn': "sn' = sn\<lparr>next_q := q'\<rparr>"
    by (rule check_subs_shape)
  have accs: "set (queue_accounts q') = set (queue_accounts left) \<union> set (queue_accounts added)"
    using arg_cong [OF mset_queue_accounts [OF m], of set_mset] by simp
  have ents: "set q' = set left \<union> set added" using arg_cong [OF m, of set_mset] by simp
  have lim: "limited \<Longrightarrow> \<exists>req. out = Some (req, True)"
    using oc out by (auto simp: drain_outcome_def SUBS_REQUEST_LIMIT_def)
  have late: "now < snd e" if "e \<in> set q'" "\<not> limited" for e
  proof -
    have "sorted (map snd left)" using srt q by (simp add: sorted_append)
    moreover have "exhausted now left" using oc that(2) by (simp add: drain_outcome_def)
    ultimately show ?thesis
      using that(1) ents add sorted_exhausted [of left now e] by (auto dest: resubscribe_time_not_due)
  qed
  have "snode_ok sn'" using ok now chk by (rule check_subs_ok)
  then show ?thesis using accs acc q late lim by (auto simp: sn')
qed

text \<open>
  C30. The request that \<^verbatim>\<open>check_subs\<close> sends holds, in queue order, exactly the subscriptions with a
  usable signature of all the accounts due; when it is cut short, it has reached
  \<^verbatim>\<open>SUBS_REQUEST_LIMIT\<close> only with the last account it took.
\<close>

theorem check_subs_request:
  assumes ok: "snode_ok sn" and con: "connected sn"
    and chk: "check_subs st now rnd all_subs sn g = ((sn', g'), out)"
  defines "due \<equiv> takeWhile (\<lambda>e. snd e \<le> now) (next_q sn)"
  shows "case out of
      None \<Rightarrow> due_reqs now all_subs due = []
    | Some (req, False) \<Rightarrow> req = due_reqs now all_subs due \<and> length req < SUBS_REQUEST_LIMIT
    | Some (req, True) \<Rightarrow> \<exists>n < length due. req = due_reqs now all_subs (take (Suc n) due) \<and>
        SUBS_REQUEST_LIMIT \<le> length req \<and> length (due_reqs now all_subs (take n due)) < SUBS_REQUEST_LIMIT"
proof -
  have srt: "sorted (map snd (next_q sn))" using ok by (simp add: snode_ok_def queue_ok_def)
  from con srt chk obtain front left limited where
    q: "next_q sn = front @ left" and fr: "\<forall>e \<in> set front. snd e \<le> now"
    and oc: "drain_outcome now all_subs front left limited"
    and out: "out = (if due_reqs now all_subs front = [] then None else Some (due_reqs now all_subs front, limited))"
    by (rule check_subs_shape)
  show ?thesis
  proof (cases limited)
    case False
    then have "due = front" using drain_outcome_front [of now all_subs front left] oc fr by (simp add: due_def q)
    with False out oc show ?thesis by (simp add: drain_outcome_def)
  next
    case True
    then have "front \<noteq> []" using oc by (simp add: drain_outcome_def)
    then obtain n where n: "length front = Suc n" by (cases front) auto
    have due: "due = front @ takeWhile (\<lambda>e. snd e \<le> now) left" using fr by (simp add: due_def q takeWhile_append2)
    have cut: "take (Suc n) due = front" "take n due = butlast front" "n < length due"
      using n due by (simp_all add: butlast_conv_take)
    with True oc out show ?thesis
      by (auto simp: drain_outcome_def SUBS_REQUEST_LIMIT_def intro!: exI [of _ n])
  qed
qed

text \<open>
  Every element of the request has one-letter keys in strictly ascending order, as a bt dict
  must, names the account by its Ed25519 key or else by its id, and carries the subscription's
  subaccount, namespaces, timestamp and signature.
\<close>

theorem monitor_dict_keys:
  "list_all (\<lambda>(k, _). length k = 1) (monitor_dict acct sub) \<and>
   sorted_wrt (<) (map (\<lambda>(k, _). of_char (hd k) :: nat) (monitor_dict acct sub)) \<and>
   map_of (monitor_dict acct sub) ''P'' = (if session_ed acct then Some (BtStr (as_sv (ed25519 acct))) else None) \<and>
   map_of (monitor_dict acct sub) ''p'' = (if session_ed acct then None else Some (BtStr (as_sv (account_id acct)))) \<and>
   map_of (monitor_dict acct sub) ''T'' = map_option (\<lambda>sa. BtStr (as_sv (sub_tag sa))) (subaccount sub) \<and>
   map_of (monitor_dict acct sub) ''S'' = map_option (\<lambda>sa. BtStr (as_sv (sub_sig sa))) (subaccount sub) \<and>
   (map_of (monitor_dict acct sub) ''d'' \<noteq> None \<longleftrightarrow> want_data sub) \<and>
   map_of (monitor_dict acct sub) ''n'' = Some (BtList (map BtInt (namespaces sub))) \<and>
   map_of (monitor_dict acct sub) ''t'' = Some (BtInt (sig_ts sub)) \<and>
   map_of (monitor_dict acct sub) ''s'' = Some (BtStr (as_sv (sig sub)))"
  by (cases "subaccount sub"; cases "session_ed acct"; cases "want_data sub")
    (simp_all add: monitor_dict_def of_char_def)

text \<open>
  After a failed connection attempt a node makes no attempt before the cool-down is over: 10,
  30 and 60 seconds after the first three consecutive failures, 120 seconds after any later
  one. Then the next attempt goes out as soon as the connection limit allows it.
\<close>

theorem cooldown_schedule:
  fixes sn :: SNode
  defines "failed steady_now \<equiv> snd (snode_on_disconnected steady_now True sn)"
    and "wait \<equiv> [10, 30, 60, 120] ! min 3 (nat (cooldown_fails sn)) * nanos_per_sec"
  assumes "\<not> connected sn"
  shows "cooldown_fails (failed t0) = cooldown_fails sn + 1 \<and>
    (t < t0 + wait \<longrightarrow> snode_connect t (failed t0) g = (failed t0, g)) \<and>
    (t0 + wait \<le> t \<and> fst (allow_connect g) \<longrightarrow> conn (fst (snode_connect t (failed t0) g)) \<noteq> None)"
proof -
  have w: "cooldown_for (cooldown_fails sn) * nanos_per_sec = wait"
  proof -
    have "nat (cooldown_fails sn) \<in> {0, 1, 2, 3} \<or> nat (cooldown_fails sn) \<ge> 4" by auto
    then show ?thesis by (auto simp: cooldown_for_def CONNECT_COOLDOWN_def wait_def)
  qed
  have f: "conn (failed t0) = None" "cooldown_until (failed t0) = Some (t0 + wait)"
    "cooldown_fails (failed t0) = cooldown_fails sn + 1"
    using assms(3) w by (simp_all add: failed_def snode_on_disconnected_def Let_def)
  then show ?thesis
    by (auto simp: snode_connect_def in_cooldown_def Let_def split: prod.splits bool.splits)
qed

text \<open>
  C38. Accounts are queued with the swarm they had when they were added, the node's own. For such
  a queue \<^verbatim>\<open>remove_stale_swarm_members\<close> removes nothing: the swarm change reaches the copies in
  \<^verbatim>\<open>subs_\<close> only, and the loop that ejects accounts looks at the copies in \<^verbatim>\<open>next_\<close>.
\<close>

theorem remove_stale_removes_nothing:
  assumes "\<forall>a \<in> set (queue_accounts (next_q sn)). swarm a = sn_swarm sn"
  shows "next_q (remove_stale_swarm_members ids sn) = next_q sn \<and>
    map account_id (sn_subs (remove_stale_swarm_members ids sn)) = map account_id (sn_subs sn)"
proof -
  have "eject_stale sw q sub = (q, sub)" if "\<forall>a \<in> set (queue_accounts q). swarm a = sw" for sw q sub
    using that by (induction sw q sub rule: eject_stale.induct) (auto split: option.splits)
  from this [OF assms] show ?thesis by (simp add: remove_stale_swarm_members_def Let_def)
qed

section \<open>Witnesses\<close>

definition sample_addr :: RemoteAddress where
  "sample_addr = \<lparr>remote_key = replicate 32 7, host = ''10.0.0.1'', port = 22020\<rparr>"

definition sample_gate :: Gate where
  "sample_gate = \<lparr>quic_out = True, pending_connects = 0, connect_count = 0, max_pending_connects = 1\<rparr>"

text \<open>A connected node of swarm 8 with one account due and one queued for later.\<close>

definition sample_snode :: SNode where
  "sample_snode =
     \<lparr>conn = Some 1, addr = sample_addr, stream = True, connected = True,
      sn_subs = [(sample_pk 5)\<lparr>swarm := 8\<rparr>, (sample_pk 3)\<lparr>swarm := 8\<rparr>], sn_swarm = 8,
      next_q = [(Some ((sample_pk 5)\<lparr>swarm := 8\<rparr>), 0), (Some ((sample_pk 3)\<lparr>swarm := 8\<rparr>), 1700009000000000000)],
      cooldown_until = None, cooldown_fails = 0\<rparr>"

definition sample_subscribers :: subscribers where
  "sample_subscribers = [(sample_pk 5, [sample_sub None [0] True]), (sample_pk 3, [sample_sub None [0, 5] False])]"

definition sample_now :: nanos where "sample_now = 1700000100000000000"

lemma sample_snode_ok: "snode_ok sample_snode"
  by (simp add: snode_ok_def queue_ok_def link_ok_def sample_snode_def sample_pk_def sample_account_def
      system_epoch_def)

lemma sample_monitored: "monitored sample_subscribers ((sample_pk 5)\<lparr>swarm := 8\<rparr>)"
  by (simp add: monitored_def find_subscriber_def sample_subscribers_def same_account_def)

lemma sample_check_subs:
  obtains sn' g' out where
    "check_subs 0 sample_now (\<lambda>_. 0) sample_subscribers sample_snode sample_gate = ((sn', g'), out)"
  by (metis prod.exhaust)

theorem check_subs_keeps_accounts_witness:
  "(sample_pk 5)\<lparr>swarm := 8\<rparr> \<in> set (queue_accounts (next_q (fst (fst
     (check_subs 0 sample_now (\<lambda>_. 0) sample_subscribers sample_snode sample_gate)))))"
proof -
  obtain sn' g' out where
    chk: "check_subs 0 sample_now (\<lambda>_. 0) sample_subscribers sample_snode sample_gate = ((sn', g'), out)"
    by (rule sample_check_subs)
  have "connected sample_snode" "0 \<le> sample_now" by (simp_all add: sample_snode_def sample_now_def)
  moreover have "(sample_pk 5)\<lparr>swarm := 8\<rparr> \<in> set (queue_accounts (next_q sample_snode))"
    by (simp add: sample_snode_def)
  ultimately show ?thesis
    using check_subs_keeps_accounts [OF sample_snode_ok _ _ chk] sample_monitored by (simp add: chk)
qed

lemma sample_due_reqs:
  "due_reqs sample_now sample_subscribers (takeWhile (\<lambda>e. snd e \<le> sample_now) (next_q sample_snode)) =
     [monitor_dict ((sample_pk 5)\<lparr>swarm := 8\<rparr>) (sample_sub None [0] True)]"
  by (simp add: sample_snode_def sample_now_def due_reqs_def account_reqs_def find_subscriber_def
      sample_subscribers_def same_account_def sig_in_window_def sample_sub_def Let_def
      SIGNATURE_EXPIRY_def SIGNATURE_EARLY_def nanos_per_sec_def)

theorem check_subs_request_witness:
  "snd (check_subs 0 sample_now (\<lambda>_. 0) sample_subscribers sample_snode sample_gate) =
     Some ([monitor_dict ((sample_pk 5)\<lparr>swarm := 8\<rparr>) (sample_sub None [0] True)], False)"
proof -
  obtain sn' g' out where
    chk: "check_subs 0 sample_now (\<lambda>_. 0) sample_subscribers sample_snode sample_gate = ((sn', g'), out)"
    by (rule sample_check_subs)
  have con: "connected sample_snode" by (simp add: sample_snode_def)
  have len: "length (takeWhile (\<lambda>e. snd e \<le> sample_now) (next_q sample_snode)) = 1"
    by (simp add: sample_snode_def sample_now_def)
  have one: "length (due_reqs sample_now sample_subscribers
      (take (Suc n) (takeWhile (\<lambda>e. snd e \<le> sample_now) (next_q sample_snode)))) < SUBS_REQUEST_LIMIT" for n
    using sample_due_reqs len by (simp add: SUBS_REQUEST_LIMIT_def)
  show ?thesis
    using check_subs_request [OF sample_snode_ok con chk] one sample_due_reqs
    by (auto simp: chk not_le [symmetric] split: option.splits prod.splits bool.splits)
qed

theorem cooldown_schedule_witness:
  "let sn = sample_snode\<lparr>connected := False, cooldown_fails := 1\<rparr>; failed = snd (snode_on_disconnected 0 True sn)
   in snode_connect (29 * nanos_per_sec) failed sample_gate = (failed, sample_gate) \<and>
      conn (fst (snode_connect (30 * nanos_per_sec) failed sample_gate)) \<noteq> None"
proof -
  let ?sn = "sample_snode\<lparr>connected := False, cooldown_fails := 1\<rparr>"
  have "\<not> connected ?sn" "fst (allow_connect sample_gate)" "min 3 (nat (cooldown_fails ?sn)) = 1"
    by (simp_all add: sample_gate_def allow_connect_def)
  then show ?thesis
    using cooldown_schedule [of ?sn 0 "29 * nanos_per_sec" sample_gate]
      cooldown_schedule [of ?sn 0 "30 * nanos_per_sec" sample_gate] by (simp add: Let_def)
qed

text \<open>Both accounts of the sample node belong to swarm 4 once that exists, and stay queued for swarm 8.\<close>

theorem remove_stale_removes_nothing_witness:
  "closest_swarm [4, 2 ^ 63] (swarm_space (sample_pk 5)) = 4 \<and> sn_swarm sample_snode \<noteq> 4 \<and>
   next_q (remove_stale_swarm_members [4, 2 ^ 63] sample_snode) = next_q sample_snode"
proof -
  have "\<forall>a \<in> set (queue_accounts (next_q sample_snode)). swarm a = sn_swarm sample_snode"
    by (simp add: sample_snode_def)
  from remove_stale_removes_nothing [OF this, of "[4, 2 ^ 63]"]
  have "next_q (remove_stale_swarm_members [4, 2 ^ 63] sample_snode) = next_q sample_snode" by blast
  moreover have "closest_swarm [4, 2 ^ 63] (swarm_space (sample_pk 5)) = 4" by code_simp
  moreover have "sn_swarm sample_snode \<noteq> 4" by (simp add: sample_snode_def)
  ultimately show ?thesis by blast
qed


end
