(* ===== verification/Json_Lib.thy ===== *)
theory Json_Lib
  imports Errors
begin

text \<open>
  The part of the JSON library the program calls, as a parameter of the handlers: a value type
  \<open>'j\<close>, its parser and printer, its accessors (each of which may throw) and its constructors. What
  the handlers rely on is named in \<open>json_documented\<close>; a concrete instance over a small datatype
  shows that it can hold.
\<close>

section \<open>The interface\<close>

record 'j json_lib =
  j_parse :: "string \<Rightarrow> 'j result"
  j_dump :: "'j \<Rightarrow> string"
  j_is_array :: "'j \<Rightarrow> bool"
  j_is_object :: "'j \<Rightarrow> bool"
  j_elems :: "'j \<Rightarrow> 'j list"
  j_index :: "'j \<Rightarrow> string \<Rightarrow> 'j result"
  j_at :: "'j \<Rightarrow> string \<Rightarrow> 'j result"
  j_find :: "'j \<Rightarrow> string \<Rightarrow> 'j option"
  j_string :: "'j \<Rightarrow> string result"
  j_bool :: "'j \<Rightarrow> bool result"
  j_int64 :: "'j \<Rightarrow> int result"
  j_uint64 :: "'j \<Rightarrow> u64 result"
  j_uint16 :: "'j \<Rightarrow> int result"
  j_int16s :: "'j \<Rightarrow> int list result"
  j_object :: "(string \<times> 'j) list \<Rightarrow> 'j"
  j_array :: "'j list \<Rightarrow> 'j"
  j_null :: 'j
  j_of_int :: "int \<Rightarrow> 'j"
  j_of_bool :: "bool \<Rightarrow> 'j"
  j_of_string :: "string \<Rightarrow> 'j"

text \<open>
  \<^verbatim>\<open>get<int16_t>\<close> yields 16-bit values; arrays and objects read back as they were built.
\<close>

definition json_documented :: "'j json_lib \<Rightarrow> bool" where
  "json_documented J \<longleftrightarrow>
     (\<forall>v ns. j_int16s J v = Inr ns \<longrightarrow> list_all is_int16 ns) \<and>
     (\<forall>v i. j_int64 J v = Inr i \<longrightarrow> is_int64 i) \<and>
     (\<forall>vs. j_is_array J (j_array J vs) \<and> j_elems J (j_array J vs) = vs) \<and>
     (\<forall>kvs k. j_find J (j_object J kvs) k = map_of kvs k)"

section \<open>An instance\<close>

datatype json = JNull | JBool bool | JInt int | JStr string | JArr "json list" | JObj "(string \<times> json) list"

fun sample_elems :: "json \<Rightarrow> json list" where
  "sample_elems (JArr vs) = vs"
| "sample_elems (JObj kvs) = map snd kvs"
| "sample_elems v = (if v = JNull then [] else [v])"

fun sample_find :: "json \<Rightarrow> string \<Rightarrow> json option" where
  "sample_find (JObj kvs) k = map_of kvs k"
| "sample_find v k = None"

definition sample_at :: "json \<Rightarrow> string \<Rightarrow> json result" where
  "sample_at v k = require_r (json_exception ''key not found'') (sample_find v k)"

fun sample_string :: "json \<Rightarrow> string result" where
  "sample_string (JStr s) = Inr s"
| "sample_string v = Inl (json_exception ''type must be string'')"

fun sample_bool :: "json \<Rightarrow> bool result" where
  "sample_bool (JBool b) = Inr b"
| "sample_bool v = Inl (json_exception ''type must be boolean'')"

fun sample_int :: "(int \<Rightarrow> bool) \<Rightarrow> json \<Rightarrow> int result" where
  "sample_int ok (JInt i) = (if ok i then Inr i else Inl (json_exception ''number out of range''))"
| "sample_int ok v = Inl (json_exception ''type must be number'')"

fun sample_int16s :: "json \<Rightarrow> int list result" where
  "sample_int16s (JArr vs) = traverse_r (sample_int is_int16) vs"
| "sample_int16s v = Inl (json_exception ''type must be array'')"

text \<open>The instance parses one fixed document and prints nothing; handlers only pass text through.\<close>

definition sample_json :: "json result \<Rightarrow> json json_lib" where
  "sample_json doc =
     \<lparr>j_parse = (\<lambda>_. doc), j_dump = (\<lambda>_. []),
      j_is_array = (\<lambda>v. case v of JArr _ \<Rightarrow> True | _ \<Rightarrow> False),
      j_is_object = (\<lambda>v. case v of JObj _ \<Rightarrow> True | _ \<Rightarrow> False),
      j_elems = sample_elems,
      j_index = (\<lambda>v k. Inr (case sample_find v k of Some w \<Rightarrow> w | None \<Rightarrow> JNull)),
      j_at = sample_at, j_find = sample_find, j_string = sample_string, j_bool = sample_bool,
      j_int64 = sample_int is_int64,
      j_uint64 = (\<lambda>v. bind_r (sample_int (\<lambda>i. 0 \<le> i \<and> i < 2 ^ 64) v) (\<lambda>i. Inr (of_int i))),
      j_uint16 = sample_int (\<lambda>i. 0 \<le> i \<and> i < 2 ^ 16),
      j_int16s = sample_int16s,
      j_object = JObj, j_array = JArr, j_null = JNull, j_of_int = JInt, j_of_bool = JBool, j_of_string = JStr\<rparr>"

lemma sample_int_range: "sample_int ok v = Inr i \<Longrightarrow> ok i"
  by (cases v) (auto split: if_splits)

lemma sample_json_documented: "json_documented (sample_json doc)"
proof -
  have "sample_int16s v = Inr ns \<Longrightarrow> list_all is_int16 ns" for v ns
    by (cases v) (auto simp: list_all_iff dest!: traverse_r_set sample_int_range)
  then show ?thesis
    by (auto simp: json_documented_def sample_json_def dest: sample_int_range)
qed

end
