(* ===== verification/Network.thy ===== *)
theory Network
  imports SNode Json_Lib
begin

text \<open>
  The part of \<^verbatim>\<open>HiveMind\<close> that follows the service node network (\<^verbatim>\<open>spns/hivemind.cpp\<close>,
  \<^verbatim>\<open>on_sns_response\<close> to \<^verbatim>\<open>allow_connect\<close>): the known service nodes, the swarms they form, the swarm ids,
  the subscribers, and the callbacks of the connections. Everything here runs on the loop thread,
  one call at a time. A node is identified by its Ed25519 key.
\<close>

section \<open>State\<close>

record Net =
  gate :: Gate
  sns :: "(bytes \<times> SNode) list"
  swarms :: "(u64 \<times> bytes list) list"
  swarm_ids :: "u64 list"
  subscribers :: subscribers
  last_block :: "string \<times> int"

text \<open>The clocks and the random numbers a call sees.\<close>

record env =
  steady_now :: nanos
  sys_now :: nanos
  rng :: "bytes \<Rightarrow> nat \<Rightarrow> nat"

section \<open>Connections and subscriptions of all nodes\<close>

text \<open>\<^verbatim>\<open>HiveMind::check_subs\<close>: every node in turn; the requests sent, by node.\<close>

type_synonym monitor_request = "bytes \<times> (string \<times> bt) list list \<times> bool"

fun check_subs_loop ::
  "env \<Rightarrow> subscribers \<Rightarrow> (bytes \<times> SNode) list \<Rightarrow> Gate \<Rightarrow> (bytes \<times> SNode) list \<times> Gate \<times> monitor_request list" where
  "check_subs_loop e subs [] g = ([], g, [])"
| "check_subs_loop e subs ((pk, sn) # rest) g =
     (case check_subs (steady_now e) (sys_now e) (rng e pk) subs sn g of
        ((sn', g'), out) \<Rightarrow>
          (case check_subs_loop e subs rest g' of
             (rest', g'', outs) \<Rightarrow>
               ((pk, sn') # rest', g'', (case out of None \<Rightarrow> outs | Some (req, lim) \<Rightarrow> (pk, req, lim) # outs))))"

definition hm_check_subs :: "env \<Rightarrow> Net \<Rightarrow> Net \<times> monitor_request list" where
  "hm_check_subs e net =
     (case check_subs_loop e (subscribers net) (sns net) (gate net) of
        (sns', g, outs) \<Rightarrow> (net\<lparr>sns := sns', gate := g\<rparr>, outs))"

fun make_conns_loop :: "nanos \<Rightarrow> (bytes \<times> SNode) list \<Rightarrow> Gate \<Rightarrow> (bytes \<times> SNode) list \<times> Gate" where
  "make_conns_loop st [] g = ([], g)"
| "make_conns_loop st ((pk, sn) # rest) g =
     (if pending_connects g \<ge> max_pending_connects g then ((pk, sn) # rest, g)
      else case snode_connect st sn g of
        (sn', g') \<Rightarrow> (case make_conns_loop st rest g' of (rest', g'') \<Rightarrow> ((pk, sn') # rest', g'')))"

definition make_conns :: "env \<Rightarrow> Net \<Rightarrow> Net" where
  "make_conns e net =
     (case make_conns_loop (steady_now e) (sns net) (gate net) of
        (sns', g) \<Rightarrow> net\<lparr>sns := sns', gate := g\<rparr>)"

definition check_my_subs :: "env \<Rightarrow> bytes \<Rightarrow> Net \<Rightarrow> Net \<times> monitor_request list" where
  "check_my_subs e pk net =
     (case map_of (sns net) pk of
        None \<Rightarrow> (net, [])
      | Some sn \<Rightarrow>
          (case check_subs (steady_now e) (sys_now e) (rng e pk) (subscribers net) sn (gate net) of
             ((sn', g'), out) \<Rightarrow>
               (net\<lparr>sns := AList.update pk sn' (sns net), gate := g'\<rparr>,
                case out of None \<Rightarrow> [] | Some (req, lim) \<Rightarrow> [(pk, req, lim)])))"

definition finished_connect :: "env \<Rightarrow> Net \<Rightarrow> Net" where
  "finished_connect e net =
     (let g = gate net;
          try_more = (pending_connects g < max_pending_connects g);
          net = net\<lparr>gate := g\<lparr>pending_connects := pending_connects g - 1\<rparr>\<rparr>
      in if try_more then make_conns e net else net)"

text \<open>\<^verbatim>\<open>SNode::on_connected\<close> and \<^verbatim>\<open>SNode::on_disconnected\<close>, with their calls back into \<^verbatim>\<open>HiveMind\<close>.\<close>

definition on_connected :: "env \<Rightarrow> bytes \<Rightarrow> Net \<Rightarrow> Net \<times> monitor_request list" where
  "on_connected e pk net =
     (case map_of (sns net) pk of
        None \<Rightarrow> (net, [])
      | Some sn \<Rightarrow>
          (case snode_on_connected sn of
             (no_conn, sn') \<Rightarrow>
               let net = finished_connect e (net\<lparr>sns := AList.update pk sn' (sns net)\<rparr>)
               in if no_conn then (net, []) else check_my_subs e pk net))"

definition on_disconnected :: "env \<Rightarrow> bytes \<Rightarrow> Net \<Rightarrow> Net" where
  "on_disconnected e pk net =
     (case map_of (sns net) pk of
        None \<Rightarrow> net
      | Some sn \<Rightarrow>
          (case snode_on_disconnected (steady_now e) (quic_out (gate net)) sn of
             (failed, sn') \<Rightarrow>
               let net = net\<lparr>sns := AList.update pk sn' (sns net)\<rparr>
               in if failed then finished_connect e net else net))"

section \<open>The list of service nodes\<close>

definition swarm_erase :: "u64 \<Rightarrow> bytes \<Rightarrow> (u64 \<times> bytes list) list \<Rightarrow> (u64 \<times> bytes list) list" where
  "swarm_erase sw pk m = AList.update sw (removeAll pk (find_or [] m sw)) m"

definition swarm_insert :: "u64 \<Rightarrow> bytes \<Rightarrow> (u64 \<times> bytes list) list \<Rightarrow> (u64 \<times> bytes list) list" where
  "swarm_insert sw pk m = AList.update sw (List.insert pk (find_or [] m sw)) m"

type_synonym sn_details = "string \<times> int \<times> u64"

text \<open>The ids of the swarms in the response, as \<^verbatim>\<open>std::set<uint64_t>\<close> orders them.\<close>

definition new_swarm_ids :: "'j json_lib \<Rightarrow> 'j list \<Rightarrow> u64 list result" where
  "new_swarm_ids J sn_st =
     bind_r (traverse_r (\<lambda>sn. bind_r (j_at J sn ''swarm_id'') (j_uint64 J)) sn_st) (\<lambda>ids.
     Inr (sort (remdups (filter (\<lambda>i. i \<noteq> INVALID_SWARM_ID) ids))))"

text \<open>One element of the response; an element without usable details is left out.\<close>

definition sn_entry :: "oxenc_lib \<Rightarrow> 'j json_lib \<Rightarrow> 'j \<Rightarrow> (bytes \<times> sn_details) option result" where
  "sn_entry ox J s =
     bind_r (bind_r (j_at J s ''pubkey_ed25519'') (j_string J)) (\<lambda>pked.
     bind_r (bind_r (j_at J s ''public_ip'') (j_string J)) (\<lambda>ip.
     bind_r (bind_r (j_at J s ''storage_lmq_port'') (j_uint16 J)) (\<lambda>port.
     bind_r (bind_r (j_at J s ''swarm_id'') (j_uint64 J)) (\<lambda>sw.
     if length pked = 64 \<and> ip \<noteq> [] \<and> ip \<noteq> ''0.0.0.0'' \<and> port > 0 \<and> sw \<noteq> INVALID_SWARM_ID then
       bind_r (from_hex_or_b64 ox Ed25519PK_SIZE pked) (\<lambda>pk. Inr (Some (pk, ip, port, sw)))
     else Inr None))))"

text \<open>\<^verbatim>\<open>emplace\<close> keeps the first value of a key.\<close>

fun emplace_sns :: "(bytes \<times> sn_details) option list \<Rightarrow> (bytes \<times> sn_details) list \<Rightarrow> (bytes \<times> sn_details) list" where
  "emplace_sns [] m = m"
| "emplace_sns (None # es) m = emplace_sns es m"
| "emplace_sns (Some (pk, d) # es) m =
     emplace_sns es (if map_of m pk = None then m @ [(pk, d)] else m)"

definition drop_one :: "bytes \<times> SNode \<Rightarrow> (u64 \<times> bytes list) list \<Rightarrow> (u64 \<times> bytes list) list" where
  "drop_one e sw = swarm_erase (sn_swarm (snd e)) (fst e) sw"

text \<open>The loop that drops the nodes no longer listed; each is disconnected and erased.\<close>

definition drop_missing :: "(bytes \<times> sn_details) list \<Rightarrow> Net \<Rightarrow> Net" where
  "drop_missing new net =
     net\<lparr>swarms := fold drop_one (filter (\<lambda>e. map_of new (fst e) = None) (sns net)) (swarms net),
         sns := filter (\<lambda>e. map_of new (fst e) \<noteq> None) (sns net)\<rparr>"

text \<open>
  One iteration of the loop over the listed nodes; \<open>mk_addr\<close> is the constructor of
  \<^verbatim>\<open>quic::RemoteAddress\<close>. The flag says whether the node is new or changed.
\<close>

definition update_sn ::
  "(bytes \<Rightarrow> string \<Rightarrow> int \<Rightarrow> RemoteAddress result) \<Rightarrow> env \<Rightarrow> bytes \<times> sn_details \<Rightarrow> Net \<Rightarrow> (bool \<times> Net) result" where
  "update_sn mk_addr e entry net =
     (case entry of (pk, ip, lmq_port, sw) \<Rightarrow>
      bind_r (mk_addr pk ip lmq_port) (\<lambda>a.
      case map_of (sns net) pk of
        Some sn \<Rightarrow>
          (let changed = (sn_swarm sn \<noteq> sw);
               swarms' = (if changed then swarm_insert sw pk (swarm_erase (sn_swarm sn) pk (swarms net))
                          else swarms net);
               sn1 = (if changed then reset_swarm sw sn else sn)
           in case connect_addr (steady_now e) a sn1 (gate net) of
                (sn2, g) \<Rightarrow> Inr (changed, net\<lparr>swarms := swarms', sns := AList.update pk sn2 (sns net), gate := g\<rparr>))
      | None \<Rightarrow>
          (case SNode_ctor (steady_now e) a sw (gate net) of
             (sn, g) \<Rightarrow>
               Inr (True, net\<lparr>sns := sns net @ [(pk, sn)], swarms := swarm_insert sw pk (swarms net), gate := g\<rparr>))))"

text \<open>The whole loop: an exception ends it and leaves what was done so far.\<close>

fun update_sns ::
  "(bytes \<Rightarrow> string \<Rightarrow> int \<Rightarrow> RemoteAddress result) \<Rightarrow> env \<Rightarrow> (bytes \<times> sn_details) list \<Rightarrow> Net \<Rightarrow>
   Net \<times> bool result" where
  "update_sns mk_addr e [] net = (net, Inr False)"
| "update_sns mk_addr e (x # xs) net =
     (case update_sn mk_addr e x net of
        Inl ex \<Rightarrow> (net, Inl ex)
      | Inr (changed, net') \<Rightarrow>
          (case update_sns mk_addr e xs net' of
             (net'', Inl ex) \<Rightarrow> (net'', Inl ex)
           | (net'', Inr any) \<Rightarrow> (net'', Inr (changed \<or> any))))"

definition prune_swarms :: "Net \<Rightarrow> Net" where
  "prune_swarms net = net\<lparr>swarms := filter (\<lambda>(_, pks). pks \<noteq> []) (swarms net)\<rparr>"

text \<open>
  The batch after a change: the job of one swarm, then all of them. Each node is in one swarm, so
  the jobs, which run in parallel, touch different nodes.
\<close>

definition rejoin :: "subscribers \<Rightarrow> u64 \<Rightarrow> SNode \<Rightarrow> SNode" where
  "rejoin subs swid sn =
     fold (\<lambda>(spk, _) sn. if swarm spk = swid then add_account spk False sn else sn) subs sn"

definition recheck_job :: "u64 \<times> bytes list \<Rightarrow> Net \<Rightarrow> Net" where
  "recheck_job job net =
     (case job of (swid, pks) \<Rightarrow>
      net\<lparr>sns := map (\<lambda>(pk, sn). (pk,
             if pk \<in> set pks then rejoin (subscribers net) swid (remove_stale_swarm_members (swarm_ids net) sn)
             else sn)) (sns net)\<rparr>)"

definition recheck_swarms :: "Net \<Rightarrow> Net" where
  "recheck_swarms net =
     (let net = net\<lparr>subscribers := map (\<lambda>(pk, v). (snd (update_swarm (swarm_ids net) pk), v)) (subscribers net)\<rparr>
      in fold recheck_job (swarms net) net)"

text \<open>
  \<^verbatim>\<open>on_sns_response\<close>, in three parts: reading the block and the swarm ids, reading the nodes, and
  applying them. A failed part ends the call with the changes made before it.
\<close>

definition read_block :: "'j json_lib \<Rightarrow> 'j \<Rightarrow> 'j list \<Rightarrow> Net \<Rightarrow> (bool \<times> Net) result" where
  "read_block J res sn_st net =
     bind_r (bind_r (j_at J res ''block_hash'') (j_string J)) (\<lambda>new_hash.
     bind_r (bind_r (j_at J res ''height'') (j_int64 J)) (\<lambda>new_height.
     if new_hash \<noteq> fst (last_block net) then
       bind_r (new_swarm_ids J sn_st) (\<lambda>ids.
       Inr (ids \<noteq> swarm_ids net, net\<lparr>swarm_ids := ids, last_block := (new_hash, new_height)\<rparr>))
     else Inr (False, net)))"

definition apply_sns ::
  "(bytes \<Rightarrow> string \<Rightarrow> int \<Rightarrow> RemoteAddress result) \<Rightarrow> env \<Rightarrow> bool \<Rightarrow> (bytes \<times> sn_details) list \<Rightarrow> Net \<Rightarrow>
   Net \<times> monitor_request list" where
  "apply_sns mk_addr e swarms_changed new net =
     (case update_sns mk_addr e new (drop_missing new net) of
        (net, Inl ex) \<Rightarrow> (net, [])
      | (net, Inr changed) \<Rightarrow>
          (let net = prune_swarms net
           in if swarms_changed \<or> changed then hm_check_subs e (recheck_swarms net) else (net, [])))"

definition on_sns_response ::
  "oxenc_lib \<Rightarrow> 'j json_lib \<Rightarrow> (bytes \<Rightarrow> string \<Rightarrow> int \<Rightarrow> RemoteAddress result) \<Rightarrow> env \<Rightarrow> string list \<Rightarrow> Net \<Rightarrow>
   Net \<times> monitor_request list" where
  "on_sns_response ox J mk_addr e data net =
     (if length data \<noteq> 2 then (net, [])
      else if data ! 0 \<noteq> ''200'' then (net, [])
      else case j_parse J (data ! 1) of Inl _ \<Rightarrow> (net, []) | Inr res \<Rightarrow>
        case j_index J res ''service_node_states'' of Inl _ \<Rightarrow> (net, []) | Inr sn_st \<Rightarrow>
          if \<not> j_is_array J sn_st then (net, [])
          else case read_block J res (j_elems J sn_st) net of Inl _ \<Rightarrow> (net, []) | Inr (swarms_changed, net) \<Rightarrow>
            case traverse_r (sn_entry ox J) (j_elems J sn_st) of
              Inl _ \<Rightarrow> (net, [])
            | Inr entries \<Rightarrow> apply_sns mk_addr e swarms_changed (emplace_sns entries []) net)"

text \<open>\<^verbatim>\<open>refresh_sns\<close>: the callback of the request for the list.\<close>

definition refresh_sns_reply ::
  "oxenc_lib \<Rightarrow> 'j json_lib \<Rightarrow> (bytes \<Rightarrow> string \<Rightarrow> int \<Rightarrow> RemoteAddress result) \<Rightarrow> env \<Rightarrow> bool \<Rightarrow> string list \<Rightarrow> Net \<Rightarrow>
   Net \<times> monitor_request list" where
  "refresh_sns_reply ox J mk_addr e success data net =
     (if success then on_sns_response ox J mk_addr e data net else (net, []))"


section \<open>New subscriptions\<close>

text \<open>
  The part of \<^verbatim>\<open>add_subscription\<close> that runs on the loop after the commit. The first loop looks for an
  equivalent subscription and renews its signature; the flag says whether there was one.
\<close>

fun note_existing :: "Subscription \<Rightarrow> Subscription list \<Rightarrow> bool \<times> Subscription list" where
  "note_existing sub [] = (False, [])"
| "note_existing sub (existing # rest) =
     (if is_same existing sub then
        (True, (if is_newer sub existing then existing\<lparr>sig := sig sub, sig_ts := sig_ts sub\<rparr> else existing) # rest)
      else case note_existing sub rest of (found, rest') \<Rightarrow> (found, existing # rest'))"

fun put_subscriber :: "SwarmPubkey \<Rightarrow> Subscription list \<Rightarrow> subscribers \<Rightarrow> subscribers" where
  "put_subscriber pk v [] = [(pk, v)]"
| "put_subscriber pk v ((pk', v') # m) =
     (if same_account pk' pk then (pk', v) # m else (pk', v') # put_subscriber pk v m)"

definition add_subscription_loop :: "SwarmPubkey \<Rightarrow> Subscription \<Rightarrow> bool \<Rightarrow> Net \<Rightarrow> Net" where
  "add_subscription_loop pubkey sub new_sub net =
     (let pk = snd (update_swarm (swarm_ids net) pubkey);
          current = (case find_subscriber pk (subscribers net) of None \<Rightarrow> [] | Some (_, l) \<Rightarrow> l);
          updated = (case note_existing sub current of (found, l) \<Rightarrow> if found then l else l @ [sub]);
          net = net\<lparr>subscribers := put_subscriber pk updated (subscribers net)\<rparr>;
          members = find_or [] (swarms net) (swarm pk)
      in if new_sub then
           net\<lparr>swarms := AList.update (swarm pk) members (swarms net),
               sns := map (\<lambda>(k, sn). (k, if k \<in> set members then add_account pk True sn else sn)) (sns net)\<rparr>
         else net)"

section \<open>The invariant of the network\<close>

text \<open>
  \<open>swarm_of\<close> is what the node table says of a key. The swarm table lists, under each id, exactly the
  nodes of that swarm.
\<close>

definition swarm_of :: "(bytes \<times> SNode) list \<Rightarrow> bytes \<Rightarrow> u64 option" where
  "swarm_of s pk = map_option sn_swarm (map_of s pk)"

definition index_ok :: "(bytes \<times> SNode) list \<Rightarrow> (u64 \<times> bytes list) list \<Rightarrow> bool" where
  "index_ok s sw \<longleftrightarrow>
     keys_distinct s \<and> keys_distinct sw \<and>
     (\<forall>i pk. pk \<in> set (find_or [] sw i) \<longleftrightarrow> swarm_of s pk = Some i)"

definition nodes_ok :: "(bytes \<times> SNode) list \<Rightarrow> bool" where
  "nodes_ok s \<longleftrightarrow> (\<forall>e \<in> set s. snode_ok (snd e))"

definition gate_ok :: "Gate \<Rightarrow> bool" where
  "gate_ok g \<longleftrightarrow> pending_connects g \<le> max 0 (max_pending_connects g)"

definition ids_ok :: "u64 list \<Rightarrow> bool" where
  "ids_ok ids \<longleftrightarrow> sorted_wrt (<) ids \<and> INVALID_SWARM_ID \<notin> set ids"

definition net_ok :: "Net \<Rightarrow> bool" where
  "net_ok net \<longleftrightarrow>
     index_ok (sns net) (swarms net) \<and> nodes_ok (sns net) \<and> gate_ok (gate net) \<and> ids_ok (swarm_ids net)"

lemma index_ok_cong:
  "index_ok s sw \<Longrightarrow> keys_distinct s' \<Longrightarrow> swarm_of s' = swarm_of s \<Longrightarrow> index_ok s' sw"
  by (simp add: index_ok_def)

lemma nodes_ok_lookup: "nodes_ok s \<Longrightarrow> map_of s pk = Some sn \<Longrightarrow> snode_ok sn"
  by (drule map_of_SomeD) (force simp: nodes_ok_def)

lemma nodes_ok_update: "nodes_ok s \<Longrightarrow> snode_ok sn \<Longrightarrow> nodes_ok (AList.update pk sn s)"
  by (induction s) (auto simp: nodes_ok_def)

lemma swarm_of_update: "swarm_of (AList.update pk sn s) = (swarm_of s)(pk \<mapsto> sn_swarm sn)"
  by (auto simp: swarm_of_def AList.update_conv')

lemma swarm_of_update_same:
  "map_of s pk = Some sn \<Longrightarrow> sn_swarm sn' = sn_swarm sn \<Longrightarrow> swarm_of (AList.update pk sn' s) = swarm_of s"
  by (auto simp: swarm_of_def AList.update_conv')

subsection \<open>The gate\<close>

lemma allow_connect_gate:
  "allow_connect g = (b, g') \<Longrightarrow> gate_ok g \<Longrightarrow> gate_ok g' \<and> max_pending_connects g' = max_pending_connects g"
  by (auto simp: allow_connect_def gate_ok_def Let_def split: if_splits)

lemma snode_connect_gate:
  assumes "snode_connect st sn g = (sn', g')" "gate_ok g"
  shows "gate_ok g'"
  using assms allow_connect_gate [of g] by (auto simp: snode_connect_def Let_def split: if_splits prod.splits bool.splits)

lemma snode_connect_swarm: "snode_connect st sn g = (sn', g') \<Longrightarrow> sn_swarm sn' = sn_swarm sn \<and> sn_subs sn' = sn_subs sn"
  using snode_connect_frame(2,3) [of st sn g] by simp

lemma connect_addr_gate:
  assumes "connect_addr st a sn g = (sn', g')" "gate_ok g"
  shows "gate_ok g'"
  using assms by (auto simp: connect_addr_def Let_def intro: snode_connect_gate)

lemma connect_addr_swarm:
  assumes "connect_addr st a sn g = (sn', g')"
  shows "sn_swarm sn' = sn_swarm sn \<and> sn_subs sn' = sn_subs sn"
  using snode_connect_swarm assms [unfolded connect_addr_def Let_def]
  by (fastforce simp: disconnect_def Let_def split: if_splits)

lemma check_subs_frame:
  assumes "check_subs st now r subs sn g = ((sn', g'), out)"
  shows "sn_swarm sn' = sn_swarm sn \<and> sn_subs sn' = sn_subs sn \<and> (gate_ok g \<longrightarrow> gate_ok g')"
  using assms snode_connect_swarm [of st "sn\<lparr>cooldown_until := None\<rparr>" g]
    snode_connect_gate [of st "sn\<lparr>cooldown_until := None\<rparr>" g]
  by (auto simp: check_subs_def Let_def split: if_splits)

subsection \<open>Loops over all nodes\<close>

lemma check_subs_loop_frame:
  assumes "check_subs_loop e subs s g = (s', g', outs)"
  shows "map fst s' = map fst s \<and> map (sn_swarm \<circ> snd) s' = map (sn_swarm \<circ> snd) s \<and>
    map (sn_subs \<circ> snd) s' = map (sn_subs \<circ> snd) s \<and> (gate_ok g \<longrightarrow> gate_ok g')"
  using assms
proof (induction e subs s g arbitrary: s' g' outs rule: check_subs_loop.induct)
  case (2 e subs pk sn rest g)
  obtain sn1 g1 out where c: "check_subs (steady_now e) (sys_now e) (rng e pk) subs sn g = ((sn1, g1), out)"
    by (metis prod.exhaust)
  obtain rest1 g2 outs1 where l: "check_subs_loop e subs rest g1 = (rest1, g2, outs1)"
    by (metis prod.exhaust)
  from "2.IH" [OF c [symmetric] refl l] check_subs_frame [OF c] "2.prems" show ?case by (auto simp: c l)
qed simp

lemma check_subs_loop_ok:
  assumes "check_subs_loop e subs s g = (s', g', outs)" "nodes_ok s" "0 \<le> sys_now e"
  shows "nodes_ok s'"
  using assms
proof (induction e subs s g arbitrary: s' g' outs rule: check_subs_loop.induct)
  case (2 e subs pk sn rest g)
  obtain sn1 g1 out where c: "check_subs (steady_now e) (sys_now e) (rng e pk) subs sn g = ((sn1, g1), out)"
    by (metis prod.exhaust)
  obtain rest1 g2 outs1 where l: "check_subs_loop e subs rest g1 = (rest1, g2, outs1)"
    by (metis prod.exhaust)
  have "snode_ok sn1" using 2(3,4) check_subs_ok [OF _ _ c] by (simp add: nodes_ok_def)
  with "2.IH" [OF c [symmetric] refl l] "2.prems" show ?case by (auto simp: c l nodes_ok_def)
qed simp

lemma make_conns_loop_frame:
  assumes "make_conns_loop st s g = (s', g')"
  shows "map fst s' = map fst s \<and> map (sn_swarm \<circ> snd) s' = map (sn_swarm \<circ> snd) s \<and>
    map (sn_subs \<circ> snd) s' = map (sn_subs \<circ> snd) s \<and> (gate_ok g \<longrightarrow> gate_ok g') \<and> (nodes_ok s \<longrightarrow> nodes_ok s')"
  using assms
proof (induction st s g arbitrary: s' g' rule: make_conns_loop.induct)
  case (2 st pk sn rest g)
  obtain sn1 g1 where c: "snode_connect st sn g = (sn1, g1)" by (metis prod.exhaust)
  obtain rest1 g2 where l: "make_conns_loop st rest g1 = (rest1, g2)" by (metis prod.exhaust)
  show ?case
  proof (cases "pending_connects g \<ge> max_pending_connects g")
    case True
    with "2.prems" show ?thesis by auto
  next
    case False
    from "2.IH" [OF False c [symmetric] l] snode_connect_swarm [OF c] snode_connect_gate [OF c]
      snode_connect_ok [of sn st g] False "2.prems"
    show ?thesis by (auto simp: c l nodes_ok_def)
  qed
qed simp

lemma map_of_frame:
  fixes s :: "('k \<times> 'v) list"
  assumes "map fst s' = map fst s" "map (f \<circ> snd) s' = map (f \<circ> snd) s"
  shows "map_option f (map_of s' k) = map_option f (map_of s k)"
proof -
  have "map (\<lambda>(k, v). (k, f v)) t = zip (map fst t) (map (f \<circ> snd) t)" for t :: "('k \<times> 'v) list"
    by (induction t) auto
  then have "map (\<lambda>(k, v). (k, f v)) s' = map (\<lambda>(k, v). (k, f v)) s"
    using assms by simp
  then have "map_of (map (\<lambda>(k, v). (k, f v)) s') k = map_of (map (\<lambda>(k, v). (k, f v)) s) k"
    by simp
  then show ?thesis by (simp add: map_of_map_snd)
qed

lemma swarm_of_frame:
  assumes "map fst s' = map fst s" "map (sn_swarm \<circ> snd) s' = map (sn_swarm \<circ> snd) s"
  shows "swarm_of s' = swarm_of s"
  using map_of_frame [OF assms] by (simp add: swarm_of_def fun_eq_iff)

subsection \<open>The handlers keep the invariant\<close>

lemma net_ok_frame:
  assumes "net_ok net" "map fst s' = map fst (sns net)" "map (sn_swarm \<circ> snd) s' = map (sn_swarm \<circ> snd) (sns net)"
    "nodes_ok s'" "gate_ok g'"
  shows "net_ok (net\<lparr>sns := s', gate := g'\<rparr>)"
proof -
  have "index_ok s' (swarms net)"
  proof (rule index_ok_cong)
    show "index_ok (sns net) (swarms net)" using assms(1) unfolding net_ok_def by blast
    then show "keys_distinct s'" unfolding index_ok_def assms(2) by blast
  qed (rule swarm_of_frame [OF assms(2,3)])
  with assms show ?thesis by (simp add: net_ok_def)
qed

lemma net_ok_node:
  assumes ok: "net_ok net" and sn: "map_of (sns net) pk = Some sn" "snode_ok sn'" "sn_swarm sn' = sn_swarm sn" "gate_ok g'"
  shows "net_ok (net\<lparr>sns := AList.update pk sn' (sns net), gate := g'\<rparr>)"
proof -
  have "index_ok (AList.update pk sn' (sns net)) (swarms net)"
  proof (rule index_ok_cong)
    show "index_ok (sns net) (swarms net)" using ok unfolding net_ok_def by blast
    then show "keys_distinct (AList.update pk sn' (sns net))"
      unfolding index_ok_def by (blast intro: keys_distinct_update)
  qed (rule swarm_of_update_same [OF sn(1,3)])
  with assms show ?thesis by (simp add: net_ok_def nodes_ok_update)
qed

lemma hm_check_subs_ok [inv_intros]:
  assumes "net_ok net" "0 \<le> sys_now e"
  shows "net_ok (fst (hm_check_subs e net))"
proof -
  obtain s' g' outs where l: "check_subs_loop e (subscribers net) (sns net) (gate net) = (s', g', outs)"
    by (metis prod.exhaust)
  show ?thesis
    using check_subs_loop_frame [OF l] check_subs_loop_ok [OF l] assms net_ok_frame [OF assms(1), of s' g']
    by (simp add: hm_check_subs_def l net_ok_def)
qed

lemma make_conns_ok [inv_intros]:
  assumes "net_ok net"
  shows "net_ok (make_conns e net)"
proof -
  obtain s' g' where l: "make_conns_loop (steady_now e) (sns net) (gate net) = (s', g')" by (metis prod.exhaust)
  show ?thesis
    using make_conns_loop_frame [OF l] assms net_ok_frame [OF assms, of s' g']
    by (simp add: make_conns_def l net_ok_def)
qed

lemma finished_connect_ok [inv_intros]:
  assumes "net_ok net"
  shows "net_ok (finished_connect e net)"
proof -
  have "net_ok (net\<lparr>gate := (gate net)\<lparr>pending_connects := pending_connects (gate net) - 1\<rparr>\<rparr>)"
    using assms by (simp add: net_ok_def gate_ok_def)
  then show ?thesis by (simp add: finished_connect_def Let_def make_conns_ok)
qed

lemma check_my_subs_ok [inv_intros]:
  assumes ok: "net_ok net" and now: "0 \<le> sys_now e"
  shows "net_ok (fst (check_my_subs e pk net))"
proof (cases "map_of (sns net) pk")
  case (Some sn)
  obtain sn' g' out where
    c: "check_subs (steady_now e) (sys_now e) (rng e pk) (subscribers net) sn (gate net) = ((sn', g'), out)"
    by (metis prod.exhaust)
  have "snode_ok sn'"
    using check_subs_ok [OF _ now c] nodes_ok_lookup [OF _ Some] ok by (simp add: net_ok_def)
  with check_subs_frame [OF c] ok have "net_ok (net\<lparr>sns := AList.update pk sn' (sns net), gate := g'\<rparr>)"
    by (intro net_ok_node [OF ok Some]) (simp_all add: net_ok_def)
  then show ?thesis by (simp add: check_my_subs_def Some c)
qed (use ok in \<open>simp add: check_my_subs_def\<close>)

lemma snode_on_connected_swarm [simp]: "sn_swarm (snd (snode_on_connected sn)) = sn_swarm sn"
  by (simp add: snode_on_connected_def Let_def)

lemma snode_on_disconnected_swarm [simp]: "sn_swarm (snd (snode_on_disconnected st has sn)) = sn_swarm sn"
  by (simp add: snode_on_disconnected_def Let_def)

lemma on_connected_ok [inv_intros]:
  assumes ok: "net_ok net" and now: "0 \<le> sys_now e"
  shows "net_ok (fst (on_connected e pk net))"
proof (cases "map_of (sns net) pk")
  case (Some sn)
  let ?sn = "snd (snode_on_connected sn)"
  have "net_ok (net\<lparr>sns := AList.update pk ?sn (sns net), gate := gate net\<rparr>)"
    using ok nodes_ok_lookup [OF _ Some]
    by (intro net_ok_node [OF ok Some]) (simp_all add: net_ok_def snode_on_connected_ok)
  then have "net_ok (finished_connect e (net\<lparr>sns := AList.update pk ?sn (sns net)\<rparr>))"
    by (intro finished_connect_ok) simp
  then show ?thesis
    using check_my_subs_ok [OF _ now] by (simp add: on_connected_def Some Let_def split_beta)
qed (use ok in \<open>simp add: on_connected_def\<close>)

lemma on_disconnected_ok [inv_intros]:
  assumes ok: "net_ok net"
  shows "net_ok (on_disconnected e pk net)"
proof (cases "map_of (sns net) pk")
  case (Some sn)
  let ?sn = "snd (snode_on_disconnected (steady_now e) (quic_out (gate net)) sn)"
  have "net_ok (net\<lparr>sns := AList.update pk ?sn (sns net), gate := gate net\<rparr>)"
    using ok nodes_ok_lookup [OF _ Some]
    by (intro net_ok_node [OF ok Some]) (simp_all add: net_ok_def snode_on_disconnected_ok)
  then show ?thesis
    using finished_connect_ok by (simp add: on_disconnected_def Some Let_def split_beta)
qed (use ok in \<open>simp add: on_disconnected_def\<close>)


subsection \<open>Following the list of nodes\<close>

lemma find_or_swarm_erase [simp]:
  "find_or [] (swarm_erase sw pk m) i = (if i = sw then removeAll pk (find_or [] m i) else find_or [] m i)"
  by (simp add: swarm_erase_def alist_simps)

lemma find_or_swarm_insert [simp]:
  "find_or [] (swarm_insert sw pk m) i = (if i = sw then List.insert pk (find_or [] m i) else find_or [] m i)"
  by (simp add: swarm_insert_def alist_simps)

lemma swarm_edit_distinct [simp]:
  "keys_distinct m \<Longrightarrow> keys_distinct (swarm_erase sw pk m)" "keys_distinct m \<Longrightarrow> keys_distinct (swarm_insert sw pk m)"
  by (simp_all add: swarm_erase_def swarm_insert_def keys_distinct_update)

lemma fold_drop_one:
  "keys_distinct m \<Longrightarrow> keys_distinct (fold drop_one es m)"
  "set (find_or [] (fold drop_one es m) i) = set (find_or [] m i) - fst ` {e \<in> set es. sn_swarm (snd e) = i}"
  by (induction es arbitrary: m) (auto simp: drop_one_def)

lemma map_of_filter_fst: "map_of (filter (\<lambda>e. P (fst e)) s) k = (if P k then map_of s k else None)"
  by (induction s) auto

lemma swarm_of_filter: "swarm_of (filter (\<lambda>e. P (fst e)) s) pk = (if P pk then swarm_of s pk else None)"
  by (simp add: swarm_of_def map_of_filter_fst)

lemma drop_missing_ok [inv_intros]:
  assumes ok: "net_ok net"
  shows "net_ok (drop_missing new net)"
proof -
  let ?gone = "filter (\<lambda>e. map_of new (fst e) = None) (sns net)"
  have idx: "index_ok (sns net) (swarms net)" using ok unfolding net_ok_def by blast
  then have d: "keys_distinct (sns net)" "keys_distinct (swarms net)" unfolding index_ok_def by blast+
  have gone: "pk \<in> fst ` {e \<in> set ?gone. sn_swarm (snd e) = i} \<longleftrightarrow> map_of new pk = None \<and> swarm_of (sns net) pk = Some i" for pk i
    using d(1) by (force simp: swarm_of_def image_iff)
  have "pk \<in> set (find_or [] (fold drop_one ?gone (swarms net)) i) \<longleftrightarrow>
      swarm_of (filter (\<lambda>e. map_of new (fst e) \<noteq> None) (sns net)) pk = Some i" for pk i
    using idx swarm_of_filter [of "\<lambda>k. map_of new k \<noteq> None" "sns net" pk]
    unfolding fold_drop_one(2) Diff_iff gone index_ok_def by auto
  then have "index_ok (sns (drop_missing new net)) (swarms (drop_missing new net))"
    using d fold_drop_one(1) [OF d(2)] by (simp add: index_ok_def drop_missing_def distinct_map_filter)
  then show ?thesis using ok by (auto simp: net_ok_def nodes_ok_def drop_missing_def)
qed

lemma update_sn_swarms:
  assumes upd: "update_sn mk_addr e (pk, ip, p, sw) net = Inr (changed, net')"
  shows "swarm_of (sns net') = (swarm_of (sns net))(pk \<mapsto> sw) \<and>
    (changed \<longleftrightarrow> swarm_of (sns net) pk \<noteq> Some sw) \<and>
    swarm_ids net' = swarm_ids net \<and> subscribers net' = subscribers net \<and>
    (\<not> changed \<longrightarrow> (\<forall>k. map_option sn_subs (map_of (sns net') k) = map_option sn_subs (map_of (sns net) k)))"
proof -
  obtain a where a: "mk_addr pk ip p = Inr a" using upd by (auto simp: update_sn_def result_simps)
  show ?thesis
  proof (cases "map_of (sns net) pk")
    case None
    obtain sn g where c: "SNode_ctor (steady_now e) a sw (gate net) = (sn, g)" by (metis prod.exhaust)
    then have "sn_swarm sn = sw" using snode_connect_swarm unfolding SNode_ctor_def by fastforce
    with None upd a c show ?thesis
      by (auto simp: update_sn_def swarm_of_def map_add_def split: option.splits)
  next
    case (Some sn)
    let ?sn1 = "if sn_swarm sn \<noteq> sw then reset_swarm sw sn else sn"
    obtain sn2 g where c: "connect_addr (steady_now e) a ?sn1 (gate net) = (sn2, g)" by (metis prod.exhaust)
    have "sn_swarm sn2 = sw" "sn_swarm sn = sw \<Longrightarrow> sn_subs sn2 = sn_subs sn"
      using connect_addr_swarm [OF c] by (auto simp: reset_swarm_def split: if_splits)
    with Some upd a c show ?thesis
      by (auto simp: update_sn_def Let_def swarm_of_update AList.update_conv' swarm_of_def split: if_splits)
  qed
qed

lemma update_sn_ok [inv_intros]:
  assumes ok: "net_ok net" and upd: "update_sn mk_addr e (pk, ip, p, sw) net = Inr (changed, net')"
  shows "net_ok net'"
proof -
  obtain a where a: "mk_addr pk ip p = Inr a" using upd by (auto simp: update_sn_def result_simps)
  have idx: "index_ok (sns net) (swarms net)" and nodes: "nodes_ok (sns net)" and gt: "gate_ok (gate net)"
    and ids: "ids_ok (swarm_ids net)" using ok unfolding net_ok_def by blast+
  have kd: "keys_distinct (sns net)" "keys_distinct (swarms net)" using idx unfolding index_ok_def by blast+
  have mem: "pk' \<in> set (find_or [] (swarms net) i) \<longleftrightarrow> swarm_of (sns net) pk' = Some i" for pk' i
    using idx unfolding index_ok_def by blast
  have sw': "swarm_of (sns net') = (swarm_of (sns net))(pk \<mapsto> sw)" using update_sn_swarms [OF upd] by blast
  have "keys_distinct (sns net') \<and> keys_distinct (swarms net') \<and> nodes_ok (sns net') \<and> gate_ok (gate net') \<and>
      swarm_ids net' = swarm_ids net \<and>
      (\<forall>i pk'. pk' \<in> set (find_or [] (swarms net') i) \<longleftrightarrow> swarm_of (sns net') pk' = Some i)"
  proof (cases "map_of (sns net) pk")
    case None
    obtain sn g where c: "SNode_ctor (steady_now e) a sw (gate net) = (sn, g)" by (metis prod.exhaust)
    have "snode_ok sn" using SNode_ctor_ok [of "steady_now e" a sw "gate net"] c by simp
    moreover have "gate_ok g" using snode_connect_gate [OF _ gt] c unfolding SNode_ctor_def by blast
    moreover have "swarm_of (sns net) pk = None" using None by (simp add: swarm_of_def)
    moreover have "pk \<notin> fst ` set (sns net)" using None by (simp add: map_of_eq_None_iff)
    moreover have "net' = net\<lparr>sns := sns net @ [(pk, sn)], swarms := swarm_insert sw pk (swarms net), gate := g\<rparr>"
      using None upd a c by (simp add: update_sn_def)
    ultimately show ?thesis using sw' mem kd nodes by (auto simp: nodes_ok_def)
  next
    case (Some sn)
    let ?sn1 = "if sn_swarm sn \<noteq> sw then reset_swarm sw sn else sn"
    obtain sn2 g where c: "connect_addr (steady_now e) a ?sn1 (gate net) = (sn2, g)" by (metis prod.exhaust)
    have "snode_ok ?sn1" using nodes_ok_lookup [OF nodes Some] by (simp add: reset_swarm_ok)
    then have "snode_ok sn2" using connect_addr_ok [of ?sn1 "steady_now e" a "gate net"] c by simp
    moreover have "gate_ok g" using connect_addr_gate [OF c gt] .
    moreover have "swarm_of (sns net) pk = Some (sn_swarm sn)" using Some by (simp add: swarm_of_def)
    moreover have "net' = net\<lparr>swarms := (if sn_swarm sn \<noteq> sw
          then swarm_insert sw pk (swarm_erase (sn_swarm sn) pk (swarms net)) else swarms net),
        sns := AList.update pk sn2 (sns net), gate := g\<rparr>"
      using Some upd a c by (auto simp: update_sn_def Let_def)
    ultimately show ?thesis using sw' mem kd nodes by (auto simp: nodes_ok_update alist_simps)
  qed
  then show ?thesis using ids by (simp add: net_ok_def index_ok_def)
qed


lemma update_sns_ok [inv_intros]: "net_ok net \<Longrightarrow> net_ok (fst (update_sns mk_addr e xs net))"
proof (induction mk_addr e xs net rule: update_sns.induct)
  case (2 mk_addr e x xs net)
  show ?case
  proof (cases "update_sn mk_addr e x net")
    case (Inr r)
    obtain changed net' where r: "r = (changed, net')" by (cases r)
    obtain pk ip p sw where x: "x = (pk, ip, p, sw)" by (cases x) auto
    have "net_ok net'" using update_sn_ok [OF "2.prems"] Inr r x by blast
    with "2.IH" [OF Inr r [symmetric]] have "net_ok (fst (update_sns mk_addr e xs net'))" by simp
    then show ?thesis
      by (cases "update_sns mk_addr e xs net'"; cases "snd (update_sns mk_addr e xs net')") (auto simp: Inr r)
  qed (use 2 in simp)
qed simp

lemma update_sns_swarms:
  assumes "update_sns mk_addr e xs net = (net', Inr changed)" "keys_distinct xs"
  shows "swarm_of (sns net') = swarm_of (sns net) ++ (\<lambda>k. map_option (snd \<circ> snd) (map_of xs k)) \<and>
    (changed \<longleftrightarrow> (\<exists>k d. map_of xs k = Some d \<and> swarm_of (sns net) k \<noteq> Some (snd (snd d)))) \<and>
    swarm_ids net' = swarm_ids net \<and> subscribers net' = subscribers net \<and>
    (\<not> changed \<longrightarrow> (\<forall>k. map_option sn_subs (map_of (sns net') k) = map_option sn_subs (map_of (sns net) k)))"
  using assms
proof (induction xs arbitrary: net changed)
  case Nil
  then show ?case by (simp add: map_add_def)
next
  case (Cons x xs)
  obtain pk ip p sw where x: "x = (pk, ip, p, sw)" by (cases x) auto
  obtain ch1 net1 ch2 where u: "update_sn mk_addr e x net = Inr (ch1, net1)"
    and l: "update_sns mk_addr e xs net1 = (net', Inr ch2)" and ch: "changed \<longleftrightarrow> ch1 \<or> ch2"
    using Cons.prems(1) by (auto split: sum.splits prod.splits)
  note step = update_sn_swarms [OF u [unfolded x]]
  note IH = Cons.IH [OF l]
  have fresh: "map_of xs pk = None" using Cons.prems(2) by (simp add: x map_of_eq_None_iff)
  have "(\<lambda>k. map_option (snd \<circ> snd) (map_of (x # xs) k)) = (\<lambda>k. map_option (snd \<circ> snd) (map_of xs k))(pk \<mapsto> sw)"
    by (auto simp: x)
  then have sw: "swarm_of (sns net') = swarm_of (sns net) ++ (\<lambda>k. map_option (snd \<circ> snd) (map_of (x # xs) k))"
    using IH step Cons.prems(2) fresh by (auto simp: map_add_def fun_eq_iff split: option.splits)
  have "(\<exists>k d. map_of (x # xs) k = Some d \<and> swarm_of (sns net) k \<noteq> Some (snd (snd d))) \<longleftrightarrow>
      swarm_of (sns net) pk \<noteq> Some sw \<or>
      (\<exists>k d. map_of xs k = Some d \<and> swarm_of (sns net) k \<noteq> Some (snd (snd d)))"
    using fresh by (auto simp: x) (metis option.distinct(1))
  also have "\<dots> \<longleftrightarrow> ch1 \<or> ch2"
  proof -
    have "swarm_of (sns net1) k = swarm_of (sns net) k" if "map_of xs k = Some d" for k d
      using step fresh that by (cases "k = pk") auto
    moreover have "ch2 \<longleftrightarrow> (\<exists>k d. map_of xs k = Some d \<and> swarm_of (sns net1) k \<noteq> Some (snd (snd d)))"
      using IH Cons.prems(2) by simp
    ultimately have "ch2 \<longleftrightarrow> (\<exists>k d. map_of xs k = Some d \<and> swarm_of (sns net) k \<noteq> Some (snd (snd d)))"
      by metis
    with step show ?thesis by blast
  qed
  finally have chg: "changed \<longleftrightarrow> (\<exists>k d. map_of (x # xs) k = Some d \<and> swarm_of (sns net) k \<noteq> Some (snd (snd d)))"
    using ch by simp
  have frame: "swarm_ids net' = swarm_ids net" "subscribers net' = subscribers net"
    using IH step Cons.prems(2) by simp_all
  have subs: "map_option sn_subs (map_of (sns net') k) = map_option sn_subs (map_of (sns net) k)"
    if "\<not> changed" for k using that ch IH step Cons.prems(2) by simp
  show ?case using sw chg frame subs by blast
qed

lemma find_or_prune:
  "keys_distinct m \<Longrightarrow> find_or [] (filter (\<lambda>(_, pks). pks \<noteq> []) m) i = find_or [] m i"
proof (induction m)
  case (Cons a m)
  then have "fst a \<notin> fst ` set m" by simp
  then have "map_of m (fst a) = None" by (simp add: map_of_eq_None_iff)
  with Cons show ?case by (cases a) (auto simp: find_or_def split: option.splits)
qed simp

lemma prune_swarms_ok [inv_intros]:
  assumes "net_ok net"
  shows "net_ok (prune_swarms net)"
proof -
  have "keys_distinct (swarms net)" using assms unfolding net_ok_def index_ok_def by blast
  then show ?thesis
    using assms find_or_prune [of "swarms net"]
    by (simp add: net_ok_def index_ok_def prune_swarms_def distinct_map_filter)
qed

lemma add_account_frame [simp]: "sn_swarm (add_account a f sn) = sn_swarm sn"
  by (simp add: add_account_def)

lemma add_account_subs:
  "account_id ` set (sn_subs (add_account a f sn)) = insert (account_id a) (account_id ` set (sn_subs sn))"
  by (rule add_account_cases [of a sn f]) auto

lemma rejoin_ok: "snode_ok sn \<Longrightarrow> snode_ok (rejoin subs swid sn)"
  unfolding rejoin_def by (induction subs arbitrary: sn) (auto simp: add_account_ok)

lemma rejoin_frame: "sn_swarm (rejoin subs swid sn) = sn_swarm sn"
  unfolding rejoin_def by (induction subs arbitrary: sn) auto

lemma rejoin_subs:
  "account_id ` set (sn_subs (rejoin subs swid sn)) =
     account_id ` set (sn_subs sn) \<union> account_id ` {spk \<in> fst ` set subs. swarm spk = swid}"
proof (induction subs arbitrary: sn)
  case (Cons a subs)
  have "{spk \<in> fst ` set (a # subs). swarm spk = swid} =
      (if swarm (fst a) = swid then {fst a} else {}) \<union> {spk \<in> fst ` set subs. swarm spk = swid}" by auto
  moreover have "rejoin (a # subs) swid sn =
      rejoin subs swid (if swarm (fst a) = swid then add_account (fst a) False sn else sn)"
    by (simp add: rejoin_def split_beta)
  ultimately show ?case by (simp add: Cons.IH add_account_subs image_Un)
qed (simp add: rejoin_def)

lemma remove_stale_swarm [simp]: "sn_swarm (remove_stale_swarm_members ids sn) = sn_swarm sn"
  by (simp add: remove_stale_swarm_members_def Let_def split: prod.splits)

lemma recheck_job_frame:
  "map fst (sns (recheck_job job net)) = map fst (sns net)"
  "map (sn_swarm \<circ> snd) (sns (recheck_job job net)) = map (sn_swarm \<circ> snd) (sns net)"
  "nodes_ok (sns net) \<Longrightarrow> nodes_ok (sns (recheck_job job net))"
  "swarms (recheck_job job net) = swarms net" "swarm_ids (recheck_job job net) = swarm_ids net"
  "subscribers (recheck_job job net) = subscribers net" "gate (recheck_job job net) = gate net"
  by (auto simp: recheck_job_def nodes_ok_def rejoin_frame rejoin_ok remove_stale_ok split: prod.splits)

lemma fold_recheck_frame:
  "map fst (sns (fold recheck_job jobs net)) = map fst (sns net) \<and>
   map (sn_swarm \<circ> snd) (sns (fold recheck_job jobs net)) = map (sn_swarm \<circ> snd) (sns net) \<and>
   (nodes_ok (sns net) \<longrightarrow> nodes_ok (sns (fold recheck_job jobs net))) \<and>
   swarms (fold recheck_job jobs net) = swarms net \<and> swarm_ids (fold recheck_job jobs net) = swarm_ids net \<and>
   subscribers (fold recheck_job jobs net) = subscribers net \<and> gate (fold recheck_job jobs net) = gate net"
  by (induction jobs arbitrary: net) (simp_all add: recheck_job_frame)

lemma recheck_swarms_ok [inv_intros]:
  assumes "net_ok net"
  shows "net_ok (recheck_swarms net)"
proof -
  let ?net = "net\<lparr>subscribers := map (\<lambda>(pk, v). (snd (update_swarm (swarm_ids net) pk), v)) (subscribers net)\<rparr>"
  let ?res = "fold recheck_job (swarms net) ?net"
  have f: "map fst (sns ?res) = map fst (sns net)" "map (sn_swarm \<circ> snd) (sns ?res) = map (sn_swarm \<circ> snd) (sns net)"
    "nodes_ok (sns net) \<Longrightarrow> nodes_ok (sns ?res)" "swarms ?res = swarms net" "swarm_ids ?res = swarm_ids net"
    "gate ?res = gate net"
    using fold_recheck_frame [of "swarms net" ?net] by simp_all
  have "index_ok (sns ?res) (swarms net)"
    by (rule index_ok_cong [OF _ _ swarm_of_frame [OF f(1,2)]])
      (use assms f(1) in \<open>simp_all add: net_ok_def index_ok_def\<close>)
  with assms f show ?thesis by (simp add: net_ok_def recheck_swarms_def Let_def)
qed


section \<open>Every swarm member monitors every account of its swarm\<close>

definition subs_of :: "(bytes \<times> SNode) list \<Rightarrow> bytes \<Rightarrow> SwarmPubkey list option" where
  "subs_of s pk = map_option sn_subs (map_of s pk)"

definition holds_account :: "SwarmPubkey list option \<Rightarrow> SwarmPubkey \<Rightarrow> bool" where
  "holds_account l a \<longleftrightarrow> (\<exists>sub. l = Some sub \<and> account_id a \<in> account_id ` set sub)"

definition covered :: "Net \<Rightarrow> bool" where
  "covered net \<longleftrightarrow>
     (\<forall>spk \<in> fst ` set (subscribers net).
        swarm spk = closest_swarm (swarm_ids net) (swarm_space spk) \<and>
        (\<forall>pk. swarm_of (sns net) pk = Some (swarm spk) \<longrightarrow> holds_account (subs_of (sns net) pk) spk))"

lemma covered_frame:
  assumes "covered net" "subscribers net' = subscribers net" "swarm_ids net' = swarm_ids net"
    "\<And>pk i. swarm_of (sns net') pk = Some i \<Longrightarrow> swarm_of (sns net) pk = Some i"
    "\<And>pk i. swarm_of (sns net') pk = Some i \<Longrightarrow> subs_of (sns net') pk = subs_of (sns net) pk"
  shows "covered net'"
  using assms unfolding covered_def by (metis (no_types, lifting))

definition node_job :: "subscribers \<Rightarrow> u64 list \<Rightarrow> bytes \<Rightarrow> u64 \<times> bytes list \<Rightarrow> SNode \<Rightarrow> SNode" where
  "node_job subs ids pk job sn =
     (if pk \<in> set (snd job) then rejoin subs (fst job) (remove_stale_swarm_members ids sn) else sn)"

lemma fold_recheck_node:
  "map_of (sns (fold recheck_job jobs net)) pk =
     map_option (fold (node_job (subscribers net) (swarm_ids net) pk) jobs) (map_of (sns net) pk)"
proof (induction jobs arbitrary: net)
  case (Cons job jobs)
  have "sns (recheck_job job net) =
      map (\<lambda>(k, sn). (k, node_job (subscribers net) (swarm_ids net) k job sn)) (sns net)"
    by (simp add: recheck_job_def node_job_def split_beta)
  then have "map_of (sns (recheck_job job net)) pk =
      map_option (node_job (subscribers net) (swarm_ids net) pk job) (map_of (sns net) pk)"
    by (simp only: map_of_map_snd)
  then show ?case
    by (simp add: Cons.IH recheck_job_frame option.map_comp comp_def)
qed (simp add: option.map_id0 id_def [symmetric] option.map_id)

lemma fold_node_job_other:
  "\<forall>job \<in> set jobs. pk \<notin> set (snd job) \<Longrightarrow> fold (node_job subs ids pk) jobs sn = sn"
  by (induction jobs) (auto simp: node_job_def)

lemma recheck_holds:
  assumes idx: "index_ok (sns net) (swarms net)" and sn: "map_of (sns net) pk = Some sn"
    and spk: "spk \<in> fst ` set (subscribers net)" "swarm spk = sn_swarm sn"
  shows "holds_account (subs_of (sns (fold recheck_job (swarms net) net)) pk) spk"
proof -
  let ?f = "node_job (subscribers net) (swarm_ids net) pk"
  have mem: "pk' \<in> set (find_or [] (swarms net) i) \<longleftrightarrow> swarm_of (sns net) pk' = Some i" for pk' i
    using idx unfolding index_ok_def by blast
  have kd: "keys_distinct (swarms net)" using idx unfolding index_ok_def by blast
  have "pk \<in> set (find_or [] (swarms net) (sn_swarm sn))" using sn by (simp add: mem swarm_of_def)
  then obtain pks where pks: "(sn_swarm sn, pks) \<in> set (swarms net)" "pk \<in> set pks"
    by (cases "map_of (swarms net) (sn_swarm sn)") (auto simp: find_or_def dest: map_of_SomeD)
  then obtain pre post where split: "swarms net = pre @ (sn_swarm sn, pks) # post" by (meson split_list)
  have other: "pk \<notin> set (snd job)" if "job \<in> set (swarms net)" "fst job \<noteq> sn_swarm sn" for job
  proof -
    have "map_of (swarms net) (fst job) = Some (snd job)"
      by (rule map_of_is_SomeI [OF kd]) (use that in simp)
    then have "find_or [] (swarms net) (fst job) = snd job" by (simp add: find_or_def)
    then show ?thesis using mem [of pk "fst job"] sn that by (auto simp: swarm_of_def)
  qed
  have "fst job \<noteq> sn_swarm sn" if "job \<in> set pre \<union> set post" for job
    using kd that unfolding split by (auto simp: image_iff)
  then have "fold ?f (swarms net) sn = ?f (sn_swarm sn, pks) sn"
    using other by (simp add: split fold_node_job_other)
  then have "subs_of (sns (fold recheck_job (swarms net) net)) pk =
      Some (sn_subs (rejoin (subscribers net) (sn_swarm sn) (remove_stale_swarm_members (swarm_ids net) sn)))"
    using pks by (simp add: subs_of_def fold_recheck_node sn node_job_def)
  then show ?thesis using spk by (auto simp: holds_account_def rejoin_subs)
qed

lemma recheck_swarms_frame:
  "swarm_of (sns (recheck_swarms net)) = swarm_of (sns net)"
  "swarm_ids (recheck_swarms net) = swarm_ids net"
  "subscribers (recheck_swarms net) = map (\<lambda>(pk, v). (snd (update_swarm (swarm_ids net) pk), v)) (subscribers net)"
proof -
  let ?net = "net\<lparr>subscribers := map (\<lambda>(pk, v). (snd (update_swarm (swarm_ids net) pk), v)) (subscribers net)\<rparr>"
  have res: "recheck_swarms net = fold recheck_job (swarms net) ?net" by (simp add: recheck_swarms_def)
  show "swarm_of (sns (recheck_swarms net)) = swarm_of (sns net)"
    by (rule swarm_of_frame) (use fold_recheck_frame [of "swarms net" ?net] in \<open>simp_all add: res\<close>)
qed (simp_all add: recheck_swarms_def fold_recheck_frame)

lemma recheck_swarms_covered:
  assumes "net_ok net"
  shows "covered (recheck_swarms net)"
proof -
  let ?net = "net\<lparr>subscribers := map (\<lambda>(pk, v). (snd (update_swarm (swarm_ids net) pk), v)) (subscribers net)\<rparr>"
  have res: "recheck_swarms net = fold recheck_job (swarms ?net) ?net" by (simp add: recheck_swarms_def)
  have fr: "subscribers (recheck_swarms net) = subscribers ?net" by (simp add: recheck_swarms_frame)
  have idx: "index_ok (sns ?net) (swarms ?net)" using assms by (simp add: net_ok_def)
  have "holds_account (subs_of (sns (recheck_swarms net)) pk) spk"
    if spk: "spk \<in> fst ` set (subscribers ?net)" and pk: "swarm_of (sns net) pk = Some (swarm spk)" for spk pk
  proof -
    obtain sn where sn: "map_of (sns ?net) pk = Some sn" "swarm spk = sn_swarm sn"
      using pk by (auto simp: swarm_of_def)
    from recheck_holds [OF idx sn(1) spk sn(2)] show ?thesis by (simp add: res)
  qed
  moreover have "swarm spk = closest_swarm (swarm_ids net) (swarm_space spk)"
    if "spk \<in> fst ` set (subscribers ?net)" for spk
    using that by (auto simp: image_iff)
  ultimately show ?thesis by (simp add: covered_def fr recheck_swarms_frame)
qed


lemma hm_check_subs_frame:
  "swarm_of (sns (fst (hm_check_subs e net))) = swarm_of (sns net)"
  "subs_of (sns (fst (hm_check_subs e net))) = subs_of (sns net)"
  "subscribers (fst (hm_check_subs e net)) = subscribers net"
  "swarm_ids (fst (hm_check_subs e net)) = swarm_ids net"
proof -
  obtain s' g' outs where l: "check_subs_loop e (subscribers net) (sns net) (gate net) = (s', g', outs)"
    by (metis prod.exhaust)
  note fr = check_subs_loop_frame [OF l]
  show "swarm_of (sns (fst (hm_check_subs e net))) = swarm_of (sns net)"
    using swarm_of_frame [of s' "sns net"] fr by (simp add: hm_check_subs_def l)
  show "subs_of (sns (fst (hm_check_subs e net))) = subs_of (sns net)"
    using map_of_frame [of s' "sns net" sn_subs] fr by (simp add: hm_check_subs_def l subs_of_def fun_eq_iff)
qed (simp_all add: hm_check_subs_def split_beta)

lemma drop_missing_frame:
  "swarm_of (sns (drop_missing new net)) pk = (if map_of new pk = None then None else swarm_of (sns net) pk)"
  "map_of (sns (drop_missing new net)) pk = (if map_of new pk = None then None else map_of (sns net) pk)"
  using map_of_filter_fst [of "\<lambda>k. map_of new k \<noteq> None" "sns net" pk]
  by (simp_all add: drop_missing_def swarm_of_def)

lemma emplace_sns_distinct: "keys_distinct m \<Longrightarrow> keys_distinct (emplace_sns es m)"
  by (induction es m rule: emplace_sns.induct) (auto simp: map_of_eq_None_iff)

section \<open>Properties of the network\<close>

text \<open>
  When the list of service nodes is applied without an exception, the nodes known are exactly
  those listed, each in the swarm listed for it; and if anything changed, or everything was in
  order before, then every account is assigned to its closest swarm and every node of that
  swarm has the account among its subscriptions.
\<close>

lemma apply_sns_covered:
  assumes ok: "net_ok net" and now: "0 \<le> sys_now e" and kd: "keys_distinct new"
    and upd: "update_sns mk_addr e new (drop_missing new net) = (net1, Inr changed)"
    and pre: "swarms_changed \<or> covered net"
  shows "net_ok (fst (apply_sns mk_addr e swarms_changed new net)) \<and>
    covered (fst (apply_sns mk_addr e swarms_changed new net)) \<and>
    swarm_of (sns (fst (apply_sns mk_addr e swarms_changed new net))) = map_option (snd \<circ> snd) \<circ> map_of new"
proof -
  note upd_sw = update_sns_swarms [OF upd kd]
  have ok1: "net_ok (prune_swarms net1)"
    using update_sns_ok [OF drop_missing_ok [OF ok], of mk_addr e new new] upd by (simp add: prune_swarms_ok)
  have sw1: "swarm_of (sns net1) = map_option (snd \<circ> snd) \<circ> map_of new"
    using upd_sw by (auto simp: fun_eq_iff map_add_def drop_missing_frame split: option.splits)
  have pr: "sns (prune_swarms net1) = sns net1" "subscribers (prune_swarms net1) = subscribers net1"
    "swarm_ids (prune_swarms net1) = swarm_ids net1" by (simp_all add: prune_swarms_def)
  show ?thesis
  proof (cases "swarms_changed \<or> changed")
    case True
    let ?net2 = "recheck_swarms (prune_swarms net1)"
    have res: "fst (apply_sns mk_addr e swarms_changed new net) = fst (hm_check_subs e ?net2)"
      using True upd by (simp add: apply_sns_def)
    have sw2: "swarm_of (sns ?net2) = swarm_of (sns net1)"
      by (simp add: recheck_swarms_frame pr)
    have "covered (fst (hm_check_subs e ?net2))"
      by (rule covered_frame [OF recheck_swarms_covered [OF ok1]]) (simp_all add: hm_check_subs_frame)
    then show ?thesis
      using hm_check_subs_ok [OF recheck_swarms_ok [OF ok1] now] sw1 sw2 by (simp add: res hm_check_subs_frame)
  next
    case False
    have res: "fst (apply_sns mk_addr e swarms_changed new net) = prune_swarms net1"
      using False upd by (simp add: apply_sns_def)
    have cov: "covered net" using pre False by simp
    have dm: "subscribers (drop_missing new net) = subscribers net" "swarm_ids (drop_missing new net) = swarm_ids net"
      by (simp_all add: drop_missing_def)
    have "covered (prune_swarms net1)"
    proof (rule covered_frame [OF cov])
      fix pk i assume "swarm_of (sns (prune_swarms net1)) pk = Some i"
      then obtain d where d: "map_of new pk = Some d" "snd (snd d) = i" by (auto simp: pr sw1)
      then show "swarm_of (sns net) pk = Some i"
        using upd_sw False drop_missing_frame(1) [of new net pk] by (cases d) auto
      show "subs_of (sns (prune_swarms net1)) pk = subs_of (sns net) pk"
        using upd_sw False d drop_missing_frame(2) [of new net pk] by (simp add: pr subs_of_def)
    qed (use upd_sw dm pr in simp_all)
    then show ?thesis using ok1 sw1 by (simp add: res pr)
  qed
qed


lemma new_swarm_ids_ok: "new_swarm_ids J xs = Inr ids \<Longrightarrow> ids_ok ids"
  by (auto simp: new_swarm_ids_def result_simps ids_ok_def strict_sorted_iff)

lemma read_block_ok:
  assumes "read_block J res xs net = Inr (ch, net')" "net_ok net"
  shows "net_ok net' \<and> sns net' = sns net \<and> swarms net' = swarms net \<and> subscribers net' = subscribers net \<and> gate net' = gate net"
proof -
  have "net' = net \<or> (\<exists>ids b. new_swarm_ids J xs = Inr ids \<and> net' = net\<lparr>swarm_ids := ids, last_block := b\<rparr>)"
    using assms(1) by (auto simp: read_block_def result_simps split: if_splits)
  then show ?thesis using assms(2) new_swarm_ids_ok [of J xs] unfolding net_ok_def by auto
qed

lemma apply_sns_ok [inv_intros]:
  assumes "net_ok net" "0 \<le> sys_now e"
  shows "net_ok (fst (apply_sns mk_addr e ch new net))"
proof -
  have "net_ok (fst (update_sns mk_addr e new (drop_missing new net)))"
    using assms by (intro update_sns_ok drop_missing_ok)
  then show ?thesis
    by (cases "update_sns mk_addr e new (drop_missing new net)"; cases "snd (update_sns mk_addr e new (drop_missing new net))")
      (simp_all add: apply_sns_def Let_def prune_swarms_ok recheck_swarms_ok hm_check_subs_ok assms(2))
qed

lemma on_sns_response_ok [inv_intros]:
  assumes "net_ok net" "0 \<le> sys_now e"
  shows "net_ok (fst (on_sns_response ox J mk_addr e data net))"
  using assms read_block_ok [of J _ _ net]
  by (auto simp: on_sns_response_def apply_sns_ok split: sum.splits)

lemma add_subscription_loop_ok [inv_intros]:
  assumes ok: "net_ok net"
  shows "net_ok (add_subscription_loop pubkey sub new_sub net)"
proof -
  let ?pk = "snd (update_swarm (swarm_ids net) pubkey)"
  let ?mem = "find_or [] (swarms net) (swarm ?pk)"
  let ?s = "map (\<lambda>(k, sn). (k, if k \<in> set ?mem then add_account ?pk True sn else sn)) (sns net)"
  have idx: "index_ok (sns net) (swarms net)" and nodes: "nodes_ok (sns net)" using ok unfolding net_ok_def by blast+
  have keys: "map fst ?s = map fst (sns net)" and sws: "map (sn_swarm \<circ> snd) ?s = map (sn_swarm \<circ> snd) (sns net)"
    by (auto simp: split_beta)
  have fr: "swarm_of ?s = swarm_of (sns net)" "keys_distinct ?s"
    using idx unfolding swarm_of_frame [OF keys sws] keys index_ok_def by blast+
  have "find_or [] (AList.update (swarm ?pk) ?mem (swarms net)) i = find_or [] (swarms net) i" for i
    by (cases "i = swarm ?pk") (simp_all add: alist_simps)
  then have "index_ok ?s (AList.update (swarm ?pk) ?mem (swarms net))"
    using idx fr by (simp add: index_ok_def keys_distinct_update)
  moreover have "nodes_ok ?s" using nodes by (auto simp: nodes_ok_def add_account_ok)
  ultimately show ?thesis using ok by (simp add: add_subscription_loop_def Let_def net_ok_def)
qed

subsection \<open>Reachable states\<close>

text \<open>The calls that reach the loop thread, in any order and with any clock and random numbers.\<close>

inductive net_step ::
  "oxenc_lib \<Rightarrow> 'j json_lib \<Rightarrow> (bytes \<Rightarrow> string \<Rightarrow> int \<Rightarrow> RemoteAddress result) \<Rightarrow> Net \<Rightarrow> Net \<Rightarrow> bool"
  for ox J mk_addr where
  step_sns: "0 \<le> sys_now e \<Longrightarrow> net_step ox J mk_addr net (fst (refresh_sns_reply ox J mk_addr e success data net))"
| step_connected: "0 \<le> sys_now e \<Longrightarrow> net_step ox J mk_addr net (fst (on_connected e pk net))"
| step_disconnected: "net_step ox J mk_addr net (on_disconnected e pk net)"
| step_check: "0 \<le> sys_now e \<Longrightarrow> net_step ox J mk_addr net (fst (hm_check_subs e net))"
| step_check_one: "0 \<le> sys_now e \<Longrightarrow> net_step ox J mk_addr net (fst (check_my_subs e pk net))"
| step_subscribe: "net_step ox J mk_addr net (add_subscription_loop pubkey sub new_sub net)"
| step_shutdown: "net_step ox J mk_addr net (net\<lparr>gate := (gate net)\<lparr>quic_out := False\<rparr>\<rparr>)"

definition net_init :: "Net \<Rightarrow> bool" where
  "net_init net \<longleftrightarrow>
     sns net = [] \<and> swarms net = [] \<and> swarm_ids net = [] \<and> pending_connects (gate net) = 0 \<and>
     connect_count (gate net) = 0"

lemma net_step_ok: "net_step ox J mk_addr net net' \<Longrightarrow> net_ok net \<Longrightarrow> net_ok net'"
proof (induction rule: net_step.induct)
  case (step_sns e net success data)
  then show ?case by (simp add: refresh_sns_reply_def on_sns_response_ok)
next
  case (step_shutdown net)
  then show ?case by (simp add: net_ok_def gate_ok_def)
qed (simp_all add: inv_intros)

interpretation network: transition_system net_init "net_step ox J mk_addr" net_ok for ox J mk_addr
proof
  show "net_init net \<Longrightarrow> net_ok net" for net
    by (simp add: net_init_def net_ok_def index_ok_def nodes_ok_def gate_ok_def ids_ok_def find_or_def swarm_of_def)
qed (rule net_step_ok)

text \<open>
  C25. In every state the loop can reach, whatever the order of node lists, connection callbacks,
  subscription checks and new subscriptions: no more than \<^verbatim>\<open>max_pending_connects\<close> connections are
  counted as pending, the swarm table lists exactly the nodes of each swarm, the swarm ids are
  strictly ascending and valid, and every node is well-formed.
\<close>

theorem network_consistent:
  assumes "reach net_init (net_step ox J mk_addr) net"
  shows "pending_connects (gate net) \<le> max 0 (max_pending_connects (gate net)) \<and>
    (\<forall>i pk. pk \<in> set (find_or [] (swarms net) i) \<longleftrightarrow> swarm_of (sns net) pk = Some i) \<and>
    sorted_wrt (<) (swarm_ids net) \<and> INVALID_SWARM_ID \<notin> set (swarm_ids net) \<and>
    (\<forall>(pk, sn) \<in> set (sns net). snode_ok sn)"
  using network.reach_invar [OF assms] by (auto simp: net_ok_def index_ok_def gate_ok_def ids_ok_def nodes_ok_def)


subsection \<open>New subscriptions and the nodes\<close>

lemma put_subscriber_keys:
  "fst ` set (put_subscriber pk v m) = fst ` set m \<union> (if find_subscriber pk m = None then {pk} else {})"
proof (induction m)
  case (Cons a m)
  then show ?case by (cases a) (simp add: find_subscriber_def insert_commute)
qed (simp add: find_subscriber_def)

lemma find_put_subscriber: "find_subscriber pk (put_subscriber pk v m) \<noteq> None"
  by (induction m) (auto simp: find_subscriber_def same_account_def)

lemma holds_add_account:
  "holds_account (Some (sn_subs (add_account a f sn))) b \<longleftrightarrow>
     account_id b = account_id a \<or> holds_account (Some (sn_subs sn)) b"
  unfolding holds_account_def by (metis (no_types) add_account_subs insert_iff option.inject)

lemma add_subscription_loop_frame:
  "swarm_ids (add_subscription_loop pubkey sub new_sub net) = swarm_ids net"
  "fst ` set (subscribers (add_subscription_loop pubkey sub new_sub net)) =
     fst ` set (subscribers net) \<union>
     (if find_subscriber pubkey (subscribers net) = None then {snd (update_swarm (swarm_ids net) pubkey)} else {})"
  "\<not> new_sub \<Longrightarrow> sns (add_subscription_loop pubkey sub new_sub net) = sns net"
proof -
  have "find_subscriber (snd (update_swarm ids pubkey)) m = find_subscriber pubkey m" for ids m
    by (simp add: find_subscriber_def same_account_def)
  then show "fst ` set (subscribers (add_subscription_loop pubkey sub new_sub net)) =
     fst ` set (subscribers net) \<union>
     (if find_subscriber pubkey (subscribers net) = None then {snd (update_swarm (swarm_ids net) pubkey)} else {})"
    by (simp add: add_subscription_loop_def Let_def put_subscriber_keys)
qed (simp_all add: add_subscription_loop_def Let_def)

lemma map_of_new_subscription:
  "map_of (sns (add_subscription_loop pubkey sub True net)) k =
     map_option (\<lambda>sn. if k \<in> set (find_or [] (swarms net) (closest_swarm (swarm_ids net) (swarm_space pubkey)))
                      then add_account (snd (update_swarm (swarm_ids net) pubkey)) True sn else sn)
       (map_of (sns net) k)"
proof -
  let ?pk = "snd (update_swarm (swarm_ids net) pubkey)"
  have "sns (add_subscription_loop pubkey sub True net) =
      map (\<lambda>(k, sn). (k, if k \<in> set (find_or [] (swarms net) (swarm ?pk)) then add_account ?pk True sn else sn)) (sns net)"
    by (simp add: add_subscription_loop_def Let_def)
  then show ?thesis by (simp only: map_of_map_snd update_swarm_swarm)
qed

text \<open>
  A subscription that is new in the database, or one for an account already known, keeps the
  rule that every node of an account's swarm has the account among its subscriptions.
\<close>

theorem add_subscription_covers:
  assumes ok: "net_ok net" and cov: "covered net"
    and known: "new_sub \<or> find_subscriber pubkey (subscribers net) \<noteq> None"
  shows "covered (add_subscription_loop pubkey sub new_sub net)"
proof (cases new_sub)
  case False
  with known cov show ?thesis unfolding covered_def by (auto simp: add_subscription_loop_frame)
next
  case True
  let ?net = "add_subscription_loop pubkey sub True net" and ?pk = "snd (update_swarm (swarm_ids net) pubkey)"
  have mem: "k \<in> set (find_or [] (swarms net) i) \<longleftrightarrow> swarm_of (sns net) k = Some i" for k i
    using ok unfolding net_ok_def index_ok_def by blast
  have sw: "swarm_of (sns ?net) k = swarm_of (sns net) k" for k
    by (cases "map_of (sns net) k") (simp_all add: swarm_of_def map_of_new_subscription)
  have old: "holds_account (subs_of (sns ?net) k) a" if "holds_account (subs_of (sns net) k) a" for k a
    using that by (cases "map_of (sns net) k") (auto simp: subs_of_def map_of_new_subscription holds_add_account)
  have new: "holds_account (subs_of (sns ?net) k) ?pk" if "swarm_of (sns net) k = Some (swarm ?pk)" for k
    using that mem [of k "swarm ?pk"]
    by (cases "map_of (sns net) k") (auto simp: subs_of_def map_of_new_subscription holds_add_account swarm_of_def)
  have "swarm a = closest_swarm (swarm_ids ?net) (swarm_space a) \<and>
      (\<forall>k. swarm_of (sns ?net) k = Some (swarm a) \<longrightarrow> holds_account (subs_of (sns ?net) k) a)"
    if "a \<in> fst ` set (subscribers net) \<or> a = ?pk" for a
    using that cov old new unfolding covered_def sw by (auto simp: add_subscription_loop_frame)
  then show ?thesis using True unfolding covered_def add_subscription_loop_frame by auto
qed


text \<open>
  When a connection attempt ends while the number of pending attempts is at the limit,
  \<^verbatim>\<open>finished_connect\<close> starts no other one: it compares the count before it lowers it.
\<close>

theorem finished_connect_at_limit:
  assumes "pending_connects (gate net) = max_pending_connects (gate net)"
  shows "sns (finished_connect e net) = sns net \<and>
    pending_connects (gate (finished_connect e net)) < max_pending_connects (gate (finished_connect e net))"
  using assms by (simp add: finished_connect_def Let_def)

text \<open>
  When the address of a connected node changes and the new connection is opened, the closing
  of the old connection is taken for a failure of the new one: the node forgets the new
  connection, goes into cool-down, and the count of pending attempts is lowered.
\<close>

theorem late_close_forgets_new_connection:
  assumes "connected sn" "a \<noteq> addr sn" "cooldown_until sn = None" "fst (allow_connect g)"
  shows "let (sn1, g1) = connect_addr t0 a sn g; (fin, sn2) = snode_on_disconnected t1 True sn1
    in conn sn1 = Some (connect_count g1) \<and> pending_connects g1 = pending_connects g + 1 \<and>
       fin \<and> conn sn2 = None \<and> cooldown_until sn2 \<noteq> None"
proof -
  obtain g1 where g1: "allow_connect g = (True, g1)" using assms(4) by (cases "allow_connect g") auto
  then have "pending_connects g1 = pending_connects g + 1"
    by (auto simp: allow_connect_def Let_def split: if_splits)
  then show ?thesis
    using assms g1
    by (auto simp: connect_addr_def disconnect_def snode_connect_def in_cooldown_def snode_on_disconnected_def Let_def)
qed


section \<open>Witnesses of the network\<close>

definition sample_mk_addr :: "bytes \<Rightarrow> string \<Rightarrow> int \<Rightarrow> RemoteAddress result" where
  "sample_mk_addr pk ip p = Inr \<lparr>remote_key = pk, host = ip, port = p\<rparr>"

definition sample_env :: env where
  "sample_env = \<lparr>steady_now = 0, sys_now = sample_now, rng = (\<lambda>_ _. 0)\<rparr>"

definition start_net :: Net where
  "start_net = \<lparr>gate = sample_gate, sns = [], swarms = [], swarm_ids = [], subscribers = sample_subscribers,
     last_block = ('''', - 1)\<rparr>"

definition sample_sn_json :: "string \<Rightarrow> int \<Rightarrow> json" where
  "sample_sn_json pk sw = JObj [(''pubkey_ed25519'', JStr pk), (''public_ip'', JStr ''10.0.0.1''),
     (''storage_lmq_port'', JInt 22020), (''swarm_id'', JInt sw)]"

definition sample_sns_json :: json where
  "sample_sns_json = JObj [(''service_node_states'', JArr [sample_sn_json (replicate 64 (CHR ''a'')) 8,
       sample_sn_json (replicate 64 (CHR ''b'')) 8]),
     (''block_hash'', JStr ''h''), (''height'', JInt 10)]"

definition listed_net :: Net where
  "listed_net = fst (refresh_sns_reply sample_oxenc (sample_json (Inr sample_sns_json)) sample_mk_addr sample_env
     True [''200'', []] start_net)"

definition net_summary :: "Net \<Rightarrow> int option list \<times> u64 list \<times> u64 list \<times> int \<times> int \<times> bytes list" where
  "net_summary net =
     (map (conn \<circ> snd) (sns net), map (sn_swarm \<circ> snd) (sns net), swarm_ids net, pending_connects (gate net),
      max_pending_connects (gate net), concat (map (\<lambda>e. map account_id (sn_subs (snd e))) (sns net)))"

lemma listed_net_eval:
  "net_summary listed_net = ([Some 1, None], [8, 8], [8], 1, 1,
     [sample_account 5, sample_account 3, sample_account 5, sample_account 3])"
  by code_simp

lemma start_net_init: "net_init start_net"
  by (simp add: net_init_def start_net_def sample_gate_def)

lemma listed_net_reach:
  "reach net_init (net_step sample_oxenc (sample_json (Inr sample_sns_json)) sample_mk_addr) listed_net"
  unfolding listed_net_def
  by (rule reach_step, rule reach_init, rule start_net_init, rule step_sns)
    (simp add: sample_env_def sample_now_def)

theorem network_consistent_witness:
  "map (conn \<circ> snd) (sns listed_net) = [Some 1, None] \<and>
   pending_connects (gate listed_net) \<le> max 0 (max_pending_connects (gate listed_net))"
proof -
  have "map (conn \<circ> snd) (sns listed_net) = [Some 1, None]" using listed_net_eval by (simp add: net_summary_def)
  with network_consistent [OF listed_net_reach] show ?thesis by blast
qed

definition listed :: "(bytes \<times> sn_details) list" where
  "listed = [(replicate 32 0xaa, ''10.0.0.1'', 22020, 8)]"

lemma start_net_ok: "net_ok start_net"
  by (rule network.invar_init) (rule start_net_init)

theorem apply_sns_covered_witness:
  "covered (fst (apply_sns sample_mk_addr sample_env True listed start_net)) \<and>
   map_option (map account_id \<circ> sn_subs) (map_of (sns (fst (apply_sns sample_mk_addr sample_env True listed
     (start_net\<lparr>swarm_ids := [8]\<rparr>)))) (replicate 32 0xaa)) = Some [sample_account 5, sample_account 3]"
proof -
  have "snd (update_sns sample_mk_addr sample_env listed (drop_missing listed start_net)) = Inr True" by code_simp
  then obtain net1 where
    "update_sns sample_mk_addr sample_env listed (drop_missing listed start_net) = (net1, Inr True)"
    by (metis prod.collapse)
  moreover have "0 \<le> sys_now sample_env" "keys_distinct listed"
    by (simp_all add: sample_env_def sample_now_def listed_def)
  ultimately have "covered (fst (apply_sns sample_mk_addr sample_env True listed start_net))"
    using apply_sns_covered [OF start_net_ok] by blast
  moreover have "map_option (map account_id \<circ> sn_subs) (map_of (sns (fst (apply_sns sample_mk_addr sample_env True listed
     (start_net\<lparr>swarm_ids := [8]\<rparr>)))) (replicate 32 0xaa)) = Some [sample_account 5, sample_account 3]" by code_simp
  ultimately show ?thesis by blast
qed


lemma listed_net_ok: "net_ok listed_net"
  by (rule network.reach_invar [OF listed_net_reach])

theorem add_subscription_covers_witness:
  "\<exists>net. net_ok net \<and> covered net \<and> sns net \<noteq> [] \<and>
     covered (add_subscription_loop (sample_pk 9) (sample_sub None [0] True) True net)"
proof -
  let ?net = "fst (apply_sns sample_mk_addr sample_env True listed start_net)"
  have upd: "snd (update_sns sample_mk_addr sample_env listed (drop_missing listed start_net)) = Inr True" by code_simp
  have now: "0 \<le> sys_now sample_env" by (simp add: sample_env_def sample_now_def)
  have res: "?net = fst (hm_check_subs sample_env (recheck_swarms (prune_swarms
      (fst (update_sns sample_mk_addr sample_env listed (drop_missing listed start_net))))))"
    using upd by (auto simp: apply_sns_def Let_def split: prod.splits sum.splits)
  have "net_ok (prune_swarms (fst (update_sns sample_mk_addr sample_env listed (drop_missing listed start_net))))"
    by (intro prune_swarms_ok update_sns_ok drop_missing_ok start_net_ok)
  then have cov: "covered ?net"
    unfolding res by (intro covered_frame [OF recheck_swarms_covered]) (simp_all add: hm_check_subs_frame)
  have ok: "net_ok ?net" by (rule apply_sns_ok [OF start_net_ok now])
  have "sns ?net \<noteq> []" by code_simp
  with ok cov add_subscription_covers [OF ok cov, of True "sample_pk 9" "sample_sub None [0] True"] show ?thesis
    by blast
qed


theorem finished_connect_at_limit_witness:
  "sns (finished_connect sample_env listed_net) = sns listed_net \<and>
   map (conn \<circ> snd) (sns (finished_connect sample_env listed_net)) = [Some 1, None]"
proof -
  have "pending_connects (gate listed_net) = max_pending_connects (gate listed_net)" using listed_net_eval by (simp add: net_summary_def)
  from finished_connect_at_limit [OF this, of sample_env] show ?thesis using listed_net_eval by (simp add: net_summary_def)
qed

theorem late_close_forgets_new_connection_witness:
  "let a = sample_addr\<lparr>host := ''10.0.0.2''\<rparr>;
       (sn1, g1) = connect_addr 0 a sample_snode sample_gate; (fin, sn2) = snode_on_disconnected 1 True sn1
   in fin \<and> conn sn1 \<noteq> None \<and> conn sn2 = None"
proof -
  let ?a = "sample_addr\<lparr>host := ''10.0.0.2''\<rparr>"
  have "connected sample_snode" "?a \<noteq> addr sample_snode" "cooldown_until sample_snode = None" "fst (allow_connect sample_gate)"
    by (simp_all add: sample_snode_def sample_addr_def sample_gate_def allow_connect_def)
  from late_close_forgets_new_connection [OF this, of 0 1] show ?thesis
    by (auto simp: Let_def split: prod.splits)
qed

end
