(* ===== verification/Subscriptions.thy ===== *)
theory Subscriptions
  imports Database Network
begin

text \<open>
  The subscriptions of \<^verbatim>\<open>HiveMind\<close> in the database and in memory (\<^verbatim>\<open>spns/hivemind.cpp\<close>,
  \<^verbatim>\<open>load_saved_subscriptions\<close>, \<^verbatim>\<open>add_subscription\<close>, \<^verbatim>\<open>remove_subscription\<close>). A failing statement or check
  throws before the commit and leaves the state as it was.
\<close>

section \<open>State\<close>

text \<open>
  The state the request handlers share: the database, the view of the network, and the
  registered notification services with the connection each is reached by.
\<close>

record HiveMind =
  db :: DB
  net :: Net
  services :: "(string \<times> nat) list"

definition UNSUBSCRIBE_GRACE :: seconds where "UNSUBSCRIBE_GRACE = 24 * 3600"

section \<open>Adding and removing\<close>

definition add_subscription ::
  "SwarmPubkey \<Rightarrow> string \<Rightarrow> string \<Rightarrow> string option \<Rightarrow> bytes \<Rightarrow> Subscription \<Rightarrow> HiveMind \<Rightarrow> (bool \<times> HiveMind) result" where
  "add_subscription pubkey service service_id service_data enc_key sub hm =
     bind_r (add_subscription_tx pubkey service service_id service_data enc_key sub (db hm)) (\<lambda>(new_sub, db').
     Inr (new_sub, hm\<lparr>db := db', net := add_subscription_loop pubkey sub new_sub (net hm)\<rparr>))"

definition unsubscribe_sig_msg :: "oxenc_lib \<Rightarrow> SwarmPubkey \<Rightarrow> int \<Rightarrow> string" where
  "unsubscribe_sig_msg ox pubkey ts = ''UNSUBSCRIBE'' @ to_hex ox (account_id pubkey) @ to_chars ts"

text \<open>\<open>nowa\<close> and \<open>nowb\<close> are the two clock readings of the window check.\<close>

definition remove_subscription ::
  "oxenc_lib \<Rightarrow> sodium_lib \<Rightarrow> nanos \<Rightarrow> nanos \<Rightarrow> SwarmPubkey \<Rightarrow> Subaccount option \<Rightarrow> string \<Rightarrow> string \<Rightarrow> bytes \<Rightarrow> int \<Rightarrow>
   HiveMind \<Rightarrow> (bool \<times> HiveMind) result" where
  "remove_subscription ox sod nowa nowb pubkey sa service service_id sg ts hm =
     bind_r (guard_r (ts < unix_timestamp (nowa - UNSUBSCRIBE_GRACE * nanos_per_sec) \<or>
                      ts > unix_timestamp (nowb + UNSUBSCRIBE_GRACE * nanos_per_sec))
              (invalid_argument ''Invalid signature: sig_ts is too far from current time'')) (\<lambda>_.
     bind_r (verify_storage_signature sod (unsubscribe_sig_msg ox pubkey ts) sg pubkey sa) (\<lambda>_.
     case remove_subscription_tx (account_id pubkey, service, service_id) (db hm) of
       (removed, db') \<Rightarrow> Inr (removed, hm\<lparr>db := db'\<rparr>)))"

section \<open>Loading at start-up\<close>

text \<open>A row as a reader thread hands it over; \<^verbatim>\<open>id % n = i\<close> with SQL's remainder, which has the sign of the id.\<close>

type_synonym loaded_row = "SwarmPubkey \<times> Subaccount option \<times> bytes \<times> seconds \<times> bool \<times> int list"

definition sql_mod :: "int \<Rightarrow> int \<Rightarrow> int" where
  "sql_mod a b = a - b * trunc_div a b"

definition load_row :: "oxenc_lib \<Rightarrow> sodium_lib \<Rightarrow> DB \<Rightarrow> sub_row \<Rightarrow> loaded_row result" where
  "load_row ox sod d r =
     (let v = row_vals r in
      bind_r (SwarmPubkey_ctor ox sod (row_account r) (session_ed25519 v) True) (\<lambda>swpk.
      Inr (swpk,
           (case (subaccount_tag v, subaccount_sig v) of
              (Some tag, Some sg) \<Rightarrow> Some \<lparr>sub_tag = tag, sub_sig = sg\<rparr>
            | _ \<Rightarrow> None),
           signature v, signature_ts v, row_want_data v, namespaces_of d (row_id r))))"

definition thread_rows :: "int \<Rightarrow> int \<Rightarrow> DB \<Rightarrow> sub_row list" where
  "thread_rows n i d = filter (\<lambda>r. sql_mod (row_id r) n = i) (subscriptions d)"

text \<open>The loop that looks for an equivalent subscription; the flag is \<^verbatim>\<open>dupe\<close>.\<close>

fun weed_dupes :: "Subaccount option \<Rightarrow> int list \<Rightarrow> bool \<Rightarrow> seconds \<Rightarrow> bytes \<Rightarrow> Subscription list \<Rightarrow> bool \<times> Subscription list" where
  "weed_dupes sa ns wd ts sg [] = (False, [])"
| "weed_dupes sa ns wd ts sg (existing # rest) =
     (if is_same_params existing sa ns wd then
        (True, (if ts > sig_ts existing then existing\<lparr>sig_ts := ts, sig := sg\<rparr> else existing) # rest)
      else case weed_dupes sa ns wd ts sg rest of (dupe, rest') \<Rightarrow> (dupe, existing # rest'))"

record load_state =
  l_subs :: subscribers
  l_raw :: nat
  l_count :: nat
  l_unique :: nat
  l_clock :: nat

text \<open>
  One iteration over the collected rows: \<open>clock k\<close> is the system time, in whole seconds, of the
  \<open>k\<close>-th call of \<^verbatim>\<open>update_clocks\<close>; \<open>th_count\<close> is the number of rows collected.
\<close>

definition load_one ::
  "oxenc_lib \<Rightarrow> sodium_lib \<Rightarrow> (nat \<Rightarrow> seconds) \<Rightarrow> nat \<Rightarrow> loaded_row \<Rightarrow> load_state \<Rightarrow> load_state result" where
  "load_one ox sod clock th_count row st =
     (case row of (swpk, sa, sg, ts, wd, ns) \<Rightarrow>
      let sys_now = clock (l_clock st); st = st\<lparr>l_raw := l_raw st + 1\<rparr>
      in if ts \<le> sys_now - SIGNATURE_EXPIRY + 5 \<or> ts \<ge> sys_now + SIGNATURE_EARLY then Inr st
         else
           let current = (case find_subscriber swpk (l_subs st) of None \<Rightarrow> [] | Some (_, l) \<Rightarrow> l)
           in bind_r
                (case weed_dupes sa ns wd ts sg current of
                   (True, l) \<Rightarrow> Inr (l, l_unique st)
                 | (False, l) \<Rightarrow>
                     bind_r (Subscription_ctor ox sod swpk sa ns wd ts sg True sys_now) (\<lambda>sub.
                     Inr (l @ [sub], l_unique st + 1)))
                (\<lambda>(l, unique).
                   let count = l_count st + 1
                   in Inr (st\<lparr>l_subs := put_subscriber swpk l (l_subs st), l_unique := unique, l_count := count,
                             l_clock := (if count mod 1000 = 0 \<or> l_raw st = th_count then l_clock st + 1
                                         else l_clock st)\<rparr>)))"

fun load_loop ::
  "oxenc_lib \<Rightarrow> sodium_lib \<Rightarrow> (nat \<Rightarrow> seconds) \<Rightarrow> nat \<Rightarrow> loaded_row list \<Rightarrow> load_state \<Rightarrow> load_state result" where
  "load_loop ox sod clock th_count [] st = Inr st"
| "load_loop ox sod clock th_count (row # rows) st =
     bind_r (load_one ox sod clock th_count row st) (load_loop ox sod clock th_count rows)"

text \<open>
  \<^verbatim>\<open>load_saved_subscriptions\<close> with \<open>hardware\<close> hardware threads. An exception, in a reader thread or in
  the loop, ends the program.
\<close>

definition load_saved_subscriptions ::
  "oxenc_lib \<Rightarrow> sodium_lib \<Rightarrow> (nat \<Rightarrow> seconds) \<Rightarrow> int \<Rightarrow> HiveMind \<Rightarrow> HiveMind result" where
  "load_saved_subscriptions ox sod clock hardware hm =
     (let n = max 1 (hardware div 4) in
      bind_r (traverse_r (load_row ox sod (db hm)) (concat (map (\<lambda>i. thread_rows n i (db hm)) [0..n - 1]))) (\<lambda>rows.
      bind_r (load_loop ox sod clock (length rows) rows
                \<lparr>l_subs = subscribers (net hm), l_raw = 0, l_count = 0, l_unique = 0, l_clock = 0\<rparr>) (\<lambda>st.
      Inr (hm\<lparr>net := (net hm)\<lparr>subscribers := l_subs st\<rparr>\<rparr>))))"

section \<open>Unsubscribing\<close>

definition in_unsubscribe_window :: "nanos \<Rightarrow> nanos \<Rightarrow> int \<Rightarrow> bool" where
  "in_unsubscribe_window nowa nowb ts \<longleftrightarrow>
     unix_timestamp (nowa - UNSUBSCRIBE_GRACE * nanos_per_sec) \<le> ts \<and>
     ts \<le> unix_timestamp (nowb + UNSUBSCRIBE_GRACE * nanos_per_sec)"

text \<open>
  C20. Unsubscribing succeeds exactly when the timestamp is within a day of now and the UNSUBSCRIBE
  message is signed by the account or an authorized subaccount; it then removes the device's
  subscription, says whether there was one, and touches no other. Otherwise nothing changes.
\<close>

theorem remove_subscription_spec:
  fixes pubkey :: SwarmPubkey and service svcid :: string and nowa nowb :: nanos and ts :: int
    and ox :: oxenc_lib and sod :: sodium_lib and sa :: "Subaccount option" and sg :: bytes
  assumes ok: "db_ok (db hm)"
  defines "key \<equiv> (account_id pubkey, service, svcid)"
    and "accepted \<equiv> in_unsubscribe_window nowa nowb ts \<and> authorized sod pubkey sa (unsubscribe_sig_msg ox pubkey ts) sg"
  shows "case remove_subscription ox sod nowa nowb pubkey sa service svcid sg ts hm of
      Inl _ \<Rightarrow> \<not> accepted
    | Inr (removed, hm') \<Rightarrow> accepted \<and> db_ok (db hm') \<and> (removed \<longleftrightarrow> sub_view (db hm) key \<noteq> None) \<and>
        sub_view (db hm') = (sub_view (db hm))(key := None) \<and> net hm' = net hm \<and> services hm' = services hm"
proof (cases accepted)
  case True
  obtain removed db' where rm: "remove_subscription_tx key (db hm) = (removed, db')" by (metis prod.exhaust)
  have "verify_storage_signature sod (unsubscribe_sig_msg ox pubkey ts) sg pubkey sa = Inr ()"
    using True by (simp add: accepted_def verify_storage_authorized)
  then have "remove_subscription ox sod nowa nowb pubkey sa service svcid sg ts hm = Inr (removed, hm\<lparr>db := db'\<rparr>)"
    using True rm by (simp add: remove_subscription_def guard_r_def accepted_def in_unsubscribe_window_def not_less key_def)
  with True store.remove_spec [OF ok rm] show ?thesis by simp
next
  case False
  then have "verify_storage_signature sod (unsubscribe_sig_msg ox pubkey ts) sg pubkey sa \<noteq> Inr ()
      \<or> \<not> in_unsubscribe_window nowa nowb ts"
    by (auto simp: accepted_def verify_storage_authorized)
  then have "\<exists>e. remove_subscription ox sod nowa nowb pubkey sa service svcid sg ts hm = Inl e"
    by (cases "verify_storage_signature sod (unsubscribe_sig_msg ox pubkey ts) sg pubkey sa")
      (auto simp: remove_subscription_def guard_r_def in_unsubscribe_window_def not_less)
  with False show ?thesis by auto
qed

section \<open>Equivalent subscriptions\<close>

text \<open>
  An account's list serves a request when it has a subscription with the same subaccount,
  namespaces and flag and a signature at least as new.
\<close>

definition serves :: "Subscription list \<Rightarrow> Subaccount option \<Rightarrow> int list \<Rightarrow> bool \<Rightarrow> seconds \<Rightarrow> bool" where
  "serves l sa ns wd ts \<longleftrightarrow>
     (\<exists>s \<in> set l. map_option sub_tag (subaccount s) = map_option sub_tag sa \<and> namespaces s = ns \<and>
        want_data s = wd \<and> ts \<le> sig_ts s)"

definition account_subs :: "subscribers \<Rightarrow> SwarmPubkey \<Rightarrow> Subscription list" where
  "account_subs m pk = (case find_subscriber pk m of None \<Rightarrow> [] | Some (_, l) \<Rightarrow> l)"

lemma is_same_params_iff:
  "is_same_params s sa ns wd \<longleftrightarrow> is_same_subaccount (subaccount s) sa \<and> namespaces s = ns \<and> want_data s = wd"
  by (auto simp: is_same_params_def list.rel_eq)

lemma note_existing_weed:
  "note_existing sub l = weed_dupes (subaccount sub) (namespaces sub) (want_data sub) (sig_ts sub) (sig sub) l"
  by (induction l) (auto simp: is_same_def is_newer_def split: prod.splits)

lemma weed_dupes_serves:
  "weed_dupes sa ns wd ts sg l = (dupe, l') \<Longrightarrow>
    (\<forall>sa' ns' wd' ts'. serves l sa' ns' wd' ts' \<longrightarrow> serves l' sa' ns' wd' ts') \<and> (dupe \<longrightarrow> serves l' sa ns wd ts)"
proof (induction l arbitrary: l')
  case (Cons s l)
  show ?case
  proof (cases "is_same_params s sa ns wd")
    case True
    then have same: "map_option sub_tag (subaccount s) = map_option sub_tag sa" "namespaces s = ns" "want_data s = wd"
      by (auto simp: is_same_params_iff is_same_subaccount_iff)
    with True Cons.prems show ?thesis by (auto simp: serves_def split: if_splits)
  next
    case False
    then obtain l'' where w: "weed_dupes sa ns wd ts sg l = (dupe, l'')" "l' = s # l''"
      using Cons.prems by (auto split: prod.splits)
    from Cons.IH [OF w(1)] w(2) show ?thesis by (auto simp: serves_def)
  qed
qed simp

lemma serves_append: "serves (l @ l') sa ns wd ts \<longleftrightarrow> serves l sa ns wd ts \<or> serves l' sa ns wd ts"
  by (auto simp: serves_def)

lemma find_subscriber_put:
  "map_option snd (find_subscriber pk' (put_subscriber pk v m)) =
     (if account_id pk' = account_id pk then Some v else map_option snd (find_subscriber pk' m))"
  by (induction m) (auto simp: find_subscriber_def same_account_def)

lemma account_subs_snd: "account_subs m pk = (case map_option snd (find_subscriber pk m) of None \<Rightarrow> [] | Some l \<Rightarrow> l)"
  by (auto simp: account_subs_def split: option.splits)

lemma account_subs_put:
  "account_subs (put_subscriber pk v m) pk' = (if account_id pk' = account_id pk then v else account_subs m pk')"
  by (simp add: account_subs_snd find_subscriber_put)

lemma account_subs_cong: "account_id pk = account_id pk' \<Longrightarrow> account_subs m pk = account_subs m pk'"
  by (simp add: account_subs_def find_subscriber_def same_account_def)

lemma add_subscription_serves:
  assumes add: "add_subscription pubkey service svcid data enc sub hm = Inr (new_sub, hm')"
  shows "serves (account_subs (subscribers (net hm')) pubkey) (subaccount sub) (namespaces sub) (want_data sub) (sig_ts sub)"
    "serves (account_subs (subscribers (net hm)) pk) sa ns wd ts \<Longrightarrow> serves (account_subs (subscribers (net hm')) pk) sa ns wd ts"
proof -
  obtain db' where hm': "hm' = hm\<lparr>db := db', net := add_subscription_loop pubkey sub new_sub (net hm)\<rparr>"
    using add by (auto simp: add_subscription_def result_simps)
  let ?pk = "snd (update_swarm (swarm_ids (net hm)) pubkey)"
  let ?old = "account_subs (subscribers (net hm)) ?pk"
  obtain found l where w: "note_existing sub ?old = (found, l)" by (metis prod.exhaust)
  let ?new = "if found then l else l @ [sub]"
  have subs': "subscribers (net hm') = put_subscriber ?pk ?new (subscribers (net hm))"
    using w by (simp add: hm' add_subscription_loop_def Let_def account_subs_def)
  note ws = weed_dupes_serves [OF w [unfolded note_existing_weed]]
  have new: "serves ?new (subaccount sub) (namespaces sub) (want_data sub) (sig_ts sub)"
    using ws by (auto simp: serves_append) (auto simp: serves_def)
  have old: "serves ?old sa ns wd ts \<Longrightarrow> serves ?new sa ns wd ts" for sa ns wd ts
    using ws by (auto simp: serves_append)
  have look: "account_subs (subscribers (net hm')) pk =
      (if account_id pk = account_id pubkey then ?new else account_subs (subscribers (net hm)) pk)" for pk
    unfolding subs' account_subs_put by simp
  have same: "account_subs (subscribers (net hm)) pk = ?old" if "account_id pk = account_id pubkey"
    using that by (intro account_subs_cong) simp
  show "serves (account_subs (subscribers (net hm')) pubkey) (subaccount sub) (namespaces sub) (want_data sub) (sig_ts sub)"
    using new look [of pubkey] by simp
  show "serves (account_subs (subscribers (net hm')) pk) sa ns wd ts"
    if "serves (account_subs (subscribers (net hm)) pk) sa ns wd ts"
    using that old same look [of pk] by (cases "account_id pk = account_id pubkey") simp_all
qed

text \<open>
  C19. A subscription that commits is recorded under its key in the database, reported as new
  exactly when the key was not there, and the account's in-memory list then serves it; whatever
  the list served before, it still serves. If the transaction fails, nothing changes.
\<close>

theorem add_subscription_spec:
  assumes ok: "db_ok (db hm)" and wf: "wf_Subscription sub"
    and add: "add_subscription pubkey service svcid data enc sub hm = Inr (new_sub, hm')"
  defines "key \<equiv> (account_id pubkey, service, svcid)"
  shows "db_ok (db hm') \<and> (new_sub \<longleftrightarrow> sub_view (db hm) key = None) \<and>
    sub_view (db hm') = (sub_view (db hm))(key \<mapsto> (vals_of pubkey sub enc data, namespaces sub)) \<and>
    serves (account_subs (subscribers (net hm')) pubkey) (subaccount sub) (namespaces sub) (want_data sub) (sig_ts sub) \<and>
    (\<forall>pk sa ns wd ts. serves (account_subs (subscribers (net hm)) pk) sa ns wd ts \<longrightarrow>
       serves (account_subs (subscribers (net hm')) pk) sa ns wd ts)"
proof -
  obtain db' where tx: "upsert_subscription key (vals_of pubkey sub enc data, namespaces sub) (db hm) = Inr (new_sub, db')"
    and hm': "db hm' = db'"
    using add by (auto simp: add_subscription_def add_subscription_tx_def key_def result_simps)
  have valid: "valid_values (vals_of pubkey sub enc data, namespaces sub)"
    using wf by (simp add: valid_values_def wf_Subscription_def)
  show ?thesis
    using store.upsert_spec [OF ok valid tx] hm' add_subscription_serves [OF add] by simp
qed

section \<open>Loading the saved subscriptions\<close>

definition row_subaccount :: "sub_row \<Rightarrow> Subaccount option" where
  "row_subaccount r =
     (case (subaccount_tag (row_vals r), subaccount_sig (row_vals r)) of
        (Some tag, Some sg) \<Rightarrow> Some \<lparr>sub_tag = tag, sub_sig = sg\<rparr>
      | _ \<Rightarrow> None)"

text \<open>What the writer of the tables guarantees of every row: \<^verbatim>\<open>add_subscription\<close> stores only such rows.\<close>

definition row_loadable :: "DB \<Rightarrow> sub_row \<Rightarrow> bool" where
  "row_loadable d r \<longleftrightarrow>
     0 < row_id r \<and> (session_ed25519 (row_vals r) \<noteq> None \<longrightarrow> hd (row_account r) = 0x05) \<and>
     namespaces_of d (row_id r) \<noteq> [] \<and> signature_ts (row_vals r) \<noteq> 0"

lemma load_row_ok:
  assumes "row_loadable d r"
  obtains swpk where "account_id swpk = row_account r"
    "load_row ox sod d r = Inr (swpk, row_subaccount r, signature (row_vals r), signature_ts (row_vals r),
      row_want_data (row_vals r), namespaces_of d (row_id r))"
proof -
  obtain swpk where "SwarmPubkey_ctor ox sod (row_account r) (session_ed25519 (row_vals r)) True = Inr swpk"
    "account_id swpk = row_account r"
    using assms by (cases "session_ed25519 (row_vals r)") (auto simp: SwarmPubkey_ctor_def row_loadable_def)
  with that show ?thesis by (simp add: load_row_def Let_def row_subaccount_def)
qed

lemma sql_mod_pos: "0 < a \<Longrightarrow> 0 < n \<Longrightarrow> sql_mod a n = a mod n"
  by (simp add: sql_mod_def trunc_div_nonneg minus_mult_div_eq_mod)

lemma thread_rows_all:
  assumes "0 < n" "\<forall>r \<in> set (subscriptions d). 0 < row_id r"
  shows "set (concat (map (\<lambda>i. thread_rows n i d) [0..n - 1])) = set (subscriptions d)"
  using assms by (auto simp: thread_rows_def sql_mod_pos)

lemma load_one_total:
  assumes "ns \<noteq> []" "sorted_wrt (<) ns" "ts \<noteq> 0"
  shows "\<exists>st'. load_one ox sod clock n (swpk, sa, sg, ts, wd, ns) st = Inr st'"
proof -
  let ?now = "clock (l_clock st)"
  have "Subscription_ctor ox sod swpk sa ns wd ts sg True ?now =
      Inr \<lparr>subaccount = sa, namespaces = ns, want_data = wd, sig_ts = ts, sig = sg\<rparr>"
    if "\<not> (ts \<le> ?now - SIGNATURE_EXPIRY + 5 \<or> ts \<ge> ?now + SIGNATURE_EARLY)"
    using assms that by (intro Subscription_ctor_skip) auto
  then show ?thesis
    by (auto simp: load_one_def Let_def split: prod.splits bool.splits)
qed

lemma load_one_serves:
  assumes one: "load_one ox sod clock n (swpk, sa, sg, ts, wd, ns) st = Inr st'"
  shows "(serves (account_subs (l_subs st) pk) sa' ns' wd' ts' \<longrightarrow> serves (account_subs (l_subs st') pk) sa' ns' wd' ts') \<and>
    (clock (l_clock st) - SIGNATURE_EXPIRY + 5 < ts \<and> ts < clock (l_clock st) + SIGNATURE_EARLY \<and> account_id pk = account_id swpk \<longrightarrow>
       serves (account_subs (l_subs st') pk) sa ns wd ts)"
proof (cases "ts \<le> clock (l_clock st) - SIGNATURE_EXPIRY + 5 \<or> ts \<ge> clock (l_clock st) + SIGNATURE_EARLY")
  case True
  then have "l_subs st' = l_subs st" using one by (auto simp: load_one_def Let_def)
  with True show ?thesis by auto
next
  case False
  let ?old = "account_subs (l_subs st) swpk"
  obtain dupe l where w: "weed_dupes sa ns wd ts sg ?old = (dupe, l)" by (metis prod.exhaust)
  obtain new where st': "l_subs st' = put_subscriber swpk new (l_subs st)"
    and new: "new = (if dupe then l else l @ [\<lparr>subaccount = sa, namespaces = ns, want_data = wd, sig_ts = ts, sig = sg\<rparr>])"
    using one False w
    by (cases dupe) (auto simp: load_one_def Let_def account_subs_def result_simps dest: Subscription_ctor_fields)
  note ws = weed_dupes_serves [OF w]
  have "serves new sa ns wd ts" using ws by (auto simp: new serves_append) (auto simp: serves_def)
  moreover have "serves ?old sa' ns' wd' ts' \<Longrightarrow> serves new sa' ns' wd' ts'"
    using ws by (auto simp: new serves_append)
  moreover have "account_subs (l_subs st) pk = ?old" if "account_id pk = account_id swpk"
    using that by (rule account_subs_cong)
  ultimately show ?thesis
    by (cases "account_id pk = account_id swpk") (simp_all add: st' account_subs_put)
qed

definition in_load_window :: "(nat \<Rightarrow> seconds) \<Rightarrow> seconds \<Rightarrow> bool" where
  "in_load_window clock ts \<longleftrightarrow> (\<forall>k. clock k - SIGNATURE_EXPIRY + 5 < ts \<and> ts < clock k + SIGNATURE_EARLY)"

lemma load_loop_serves:
  assumes "\<forall>(swpk, sa, sg, ts, wd, ns) \<in> set rows. ns \<noteq> [] \<and> sorted_wrt (<) ns \<and> ts \<noteq> 0"
  shows "\<exists>st'. load_loop ox sod clock n rows st = Inr st' \<and>
    (\<forall>pk sa ns wd ts. serves (account_subs (l_subs st) pk) sa ns wd ts \<longrightarrow> serves (account_subs (l_subs st') pk) sa ns wd ts) \<and>
    (\<forall>(swpk, sa, sg, ts, wd, ns) \<in> set rows. in_load_window clock ts \<longrightarrow>
       (\<forall>pk. account_id pk = account_id swpk \<longrightarrow> serves (account_subs (l_subs st') pk) sa ns wd ts))"
  using assms
proof (induction rows arbitrary: st)
  case (Cons row rows)
  obtain swpk sa sg ts wd ns where row: "row = (swpk, sa, sg, ts, wd, ns)" by (cases row) auto
  then obtain st1 where one: "load_one ox sod clock n (swpk, sa, sg, ts, wd, ns) st = Inr st1"
    using Cons.prems load_one_total [of ns ts ox sod clock n swpk sa sg wd st] by auto
  obtain st' where l: "load_loop ox sod clock n rows st1 = Inr st'"
    and mono: "\<And>pk sa ns wd ts. serves (account_subs (l_subs st1) pk) sa ns wd ts \<Longrightarrow> serves (account_subs (l_subs st') pk) sa ns wd ts"
    and rest: "\<forall>(swpk, sa, sg, ts, wd, ns) \<in> set rows. in_load_window clock ts \<longrightarrow>
       (\<forall>pk. account_id pk = account_id swpk \<longrightarrow> serves (account_subs (l_subs st') pk) sa ns wd ts)"
    using Cons.IH [of st1] Cons.prems by auto
  have "load_loop ox sod clock n (row # rows) st = Inr st'" using one l by (simp add: row)
  moreover have "serves (account_subs (l_subs st') pk) sa' ns' wd' ts'"
    if "serves (account_subs (l_subs st) pk) sa' ns' wd' ts'" for pk sa' ns' wd' ts'
    using load_one_serves [OF one] that mono by blast
  moreover have "serves (account_subs (l_subs st') pk) sa ns wd ts"
    if "in_load_window clock ts" "account_id pk = account_id swpk" for pk
    using load_one_serves [OF one, of pk] that mono unfolding in_load_window_def by blast
  ultimately show ?case using rest by (auto simp: row)
qed simp

lemma load_saved_serves:
  assumes ok: "db_ok (db hm)" and rows: "\<forall>r \<in> set (subscriptions (db hm)). row_loadable (db hm) r"
  shows "\<exists>hm'. load_saved_subscriptions ox sod clock hardware hm = Inr hm' \<and>
    hm' = hm\<lparr>net := (net hm)\<lparr>subscribers := subscribers (net hm')\<rparr>\<rparr> \<and>
    (\<forall>r \<in> set (subscriptions (db hm)). in_load_window clock (signature_ts (row_vals r)) \<longrightarrow>
       (\<forall>pk. account_id pk = row_account r \<longrightarrow>
          serves (account_subs (subscribers (net hm')) pk) (row_subaccount r) (namespaces_of (db hm) (row_id r))
            (row_want_data (row_vals r)) (signature_ts (row_vals r))))"
proof -
  let ?d = "db hm" and ?n = "max 1 (hardware div 4)"
  let ?rs = "concat (map (\<lambda>i. thread_rows ?n i ?d) [0..?n - 1])"
  have rs: "set ?rs = set (subscriptions ?d)"
    using rows by (intro thread_rows_all) (auto simp: row_loadable_def)
  have tot: "\<exists>y. load_row ox sod ?d r = Inr y" if "r \<in> set ?rs" for r
    using that rows load_row_ok [of ?d r ox sod] unfolding rs by metis
  then obtain loaded where tr: "traverse_r (load_row ox sod ?d) ?rs = Inr loaded"
    using traverse_r_total [of ?rs "load_row ox sod ?d"] by blast
  have sound: "ns \<noteq> [] \<and> sorted_wrt (<) ns \<and> ts \<noteq> 0" if row: "(swpk, sa, sg, ts, wd, ns) \<in> set loaded" for swpk sa sg ts wd ns
  proof -
    obtain r where r: "r \<in> set (subscriptions ?d)" "load_row ox sod ?d r = Inr (swpk, sa, sg, ts, wd, ns)"
      using traverse_r_set [OF tr row] unfolding rs by blast
    with rows have ld: "row_loadable ?d r" by blast
    then have "ns = namespaces_of ?d (row_id r)" "ts = signature_ts (row_vals r)"
      using r(2) by (auto elim: load_row_ok [of ?d r ox sod])
    moreover have "distinct (sub_namespaces ?d)" using ok by (simp add: db_ok_def)
    ultimately show ?thesis using ld namespaces_of_strict by (simp add: row_loadable_def)
  qed
  then have pre: "\<forall>(swpk, sa, sg, ts, wd, ns) \<in> set loaded. ns \<noteq> [] \<and> sorted_wrt (<) ns \<and> ts \<noteq> 0"
    by blast
  obtain st' where l: "load_loop ox sod clock (length loaded) loaded
      \<lparr>l_subs = subscribers (net hm), l_raw = 0, l_count = 0, l_unique = 0, l_clock = 0\<rparr> = Inr st'"
    and srv: "\<forall>(swpk, sa, sg, ts, wd, ns) \<in> set loaded. in_load_window clock ts \<longrightarrow>
       (\<forall>pk. account_id pk = account_id swpk \<longrightarrow> serves (account_subs (l_subs st') pk) sa ns wd ts)"
    using load_loop_serves [OF pre] by meson
  let ?hm = "hm\<lparr>net := (net hm)\<lparr>subscribers := l_subs st'\<rparr>\<rparr>"
  have res: "load_saved_subscriptions ox sod clock hardware hm = Inr ?hm"
    using tr l by (simp add: load_saved_subscriptions_def Let_def)
  have "serves (account_subs (l_subs st') pk) (row_subaccount r) (namespaces_of ?d (row_id r))
      (row_want_data (row_vals r)) (signature_ts (row_vals r))"
    if r: "r \<in> set (subscriptions ?d)" "in_load_window clock (signature_ts (row_vals r))" "account_id pk = row_account r" for r pk
  proof -
    obtain swpk where "account_id swpk = row_account r"
      "load_row ox sod ?d r = Inr (swpk, row_subaccount r, signature (row_vals r), signature_ts (row_vals r),
        row_want_data (row_vals r), namespaces_of ?d (row_id r))"
      using rows r(1) by (auto elim: load_row_ok)
    moreover from this have "(swpk, row_subaccount r, signature (row_vals r), signature_ts (row_vals r),
        row_want_data (row_vals r), namespaces_of ?d (row_id r)) \<in> set loaded"
      using traverse_r_mem [OF tr] r(1) unfolding rs by blast
    ultimately show ?thesis using srv r(2,3) by fastforce
  qed
  then show ?thesis using res by auto
qed

text \<open>
  C28. Loading at start-up always completes on tables written by this program, whatever the number of
  reader threads, and afterwards every row whose signature is in the accepted window at every
  clock reading is served by the in-memory list of its account.
\<close>

theorem load_saved_complete:
  assumes ok: "db_ok (db hm)" and rows: "\<forall>r \<in> set (subscriptions (db hm)). row_loadable (db hm) r"
  shows "\<exists>hm'. load_saved_subscriptions ox sod clock hardware hm = Inr hm' \<and> db hm' = db hm \<and>
    (\<forall>r \<in> set (subscriptions (db hm)). in_load_window clock (signature_ts (row_vals r)) \<longrightarrow>
       (\<forall>pk. account_id pk = row_account r \<longrightarrow>
          serves (account_subs (subscribers (net hm')) pk) (row_subaccount r) (namespaces_of (db hm) (row_id r))
            (row_want_data (row_vals r)) (signature_ts (row_vals r))))"
proof -
  obtain hm' where "load_saved_subscriptions ox sod clock hardware hm = Inr hm'" "hm' = hm\<lparr>net := (net hm)\<lparr>subscribers := subscribers (net hm')\<rparr>\<rparr>"
    and srv: "\<And>r pk. r \<in> set (subscriptions (db hm)) \<Longrightarrow> in_load_window clock (signature_ts (row_vals r)) \<Longrightarrow> account_id pk = row_account r \<Longrightarrow>
      serves (account_subs (subscribers (net hm')) pk) (row_subaccount r) (namespaces_of (db hm) (row_id r))
        (row_want_data (row_vals r)) (signature_ts (row_vals r))"
    using load_saved_serves [OF assms] by metis
  moreover from this(2) have "db hm' = db hm" by (metis HiveMind.select_convs(1) HiveMind.surjective HiveMind.update_convs(2))
  ultimately show ?thesis by blast
qed

section \<open>Witnesses of the subscriptions\<close>

definition sample_hm :: HiveMind where
  "sample_hm = \<lparr>db = sample_DB, net = start_net, services = []\<rparr>"

definition sample_owner :: SwarmPubkey where
  "sample_owner = (sample_pk 1)\<lparr>account_id := [1]\<rparr>"

theorem remove_subscription_spec_witness:
  "\<exists>hm'. remove_subscription sample_oxenc sample_sodium sample_now sample_now sample_owner None ''apns'' ''x''
       (replicate 32 1) 1700000000 sample_hm = Inr (True, hm') \<and>
     sub_view (db hm') ([1], ''apns'', ''x'') = None \<and>
     sub_view (db hm') ([1], ''apns'', ''y'') = sub_view sample_DB ([1], ''apns'', ''y'')"
proof -
  let ?r = "remove_subscription sample_oxenc sample_sodium sample_now sample_now sample_owner None ''apns'' ''x''
       (replicate 32 1) 1700000000 sample_hm"
  have ok: "db_ok (db sample_hm)" by (simp add: sample_hm_def sample_DB_ok)
  have acc: "in_unsubscribe_window sample_now sample_now 1700000000 \<and> authorized sample_sodium sample_owner None
      (unsubscribe_sig_msg sample_oxenc sample_owner 1700000000) (replicate 32 1)"
    by (simp add: in_unsubscribe_window_def sample_now_def UNSUBSCRIBE_GRACE_def unix_timestamp_def trunc_div_def
        nanos_per_sec_def authorized_def signed_by_def sample_sodium_def sample_owner_def sample_pk_def)
  have some: "sub_view sample_DB ([1], ''apns'', ''x'') \<noteq> None"
    by (simp add: sub_view_def select_subscription_def sample_DB_def row_key_def)
  show ?thesis
    using remove_subscription_spec [OF ok, where pubkey = sample_owner and service = "''apns''" and svcid = "''x''"
        and nowa = sample_now and nowb = sample_now and ts = 1700000000 and ox = sample_oxenc
        and sod = sample_sodium and sa = None and sg = "replicate 32 1"] acc some
    by (cases ?r) (auto simp: sample_hm_def sample_owner_def)
qed

theorem add_subscription_spec_witness:
  "\<exists>hm'. add_subscription sample_owner ''apns'' ''z'' None [1] (sample_sub None [0, 3] True) sample_hm = Inr (True, hm') \<and>
     serves (account_subs (subscribers (net hm')) sample_owner) None [0, 3] True 1700000000"
proof -
  let ?sub = "sample_sub None [0, 3] True"
  have ok: "db_ok (db sample_hm)" by (simp add: sample_hm_def sample_DB_ok)
  have wf: "wf_Subscription ?sub" by (simp add: wf_Subscription_def sample_sub_def)
  have "stats_room (Suc (Suc 0)) (db sample_hm)" by (simp add: stats_room_def sample_hm_def sample_DB_def int64_max_def)
  then obtain new db' where
    "add_subscription_tx sample_owner ''apns'' ''z'' None [1] ?sub (db sample_hm) = Inr (new, db')"
    using upsert_subscription_commits [OF ok, of "namespaces ?sub"] wf
    unfolding add_subscription_tx_def wf_Subscription_def by blast
  then obtain hm' where add: "add_subscription sample_owner ''apns'' ''z'' None [1] ?sub sample_hm = Inr (new, hm')"
    by (simp add: add_subscription_def)
  have "sub_view (db sample_hm) ([1], ''apns'', ''z'') = None"
    by (simp add: sub_view_def select_subscription_def sample_hm_def sample_DB_def row_key_def)
  then show ?thesis
    using add_subscription_spec [OF ok wf add] add by (auto simp: sample_owner_def sample_sub_def)
qed

theorem load_saved_complete_witness:
  "\<exists>hm'. load_saved_subscriptions sample_oxenc sample_sodium (\<lambda>_. 5000100) 16 sample_hm = Inr hm' \<and>
     serves (account_subs (subscribers (net hm')) sample_owner) None [0, 5] True 5000000"
proof -
  have ok: "db_ok (db sample_hm)" by (simp add: sample_hm_def sample_DB_ok)
  have ld: "\<forall>r \<in> set (subscriptions (db sample_hm)). row_loadable (db sample_hm) r"
    by (simp add: sample_hm_def sample_DB_def row_loadable_def sample_values_def namespaces_of_def)
  obtain hm' where "load_saved_subscriptions sample_oxenc sample_sodium (\<lambda>_. 5000100) 16 sample_hm = Inr hm'"
    and "\<forall>r \<in> set (subscriptions (db sample_hm)). in_load_window (\<lambda>_. 5000100) (signature_ts (row_vals r)) \<longrightarrow>
       (\<forall>pk. account_id pk = row_account r \<longrightarrow>
          serves (account_subs (subscribers (net hm')) pk) (row_subaccount r) (namespaces_of (db sample_hm) (row_id r))
            (row_want_data (row_vals r)) (signature_ts (row_vals r)))"
    using load_saved_complete [OF ok ld, of sample_oxenc sample_sodium "\<lambda>_. 5000100" 16] by blast
  then show ?thesis
    by (auto simp: sample_hm_def sample_DB_def sample_values_def namespaces_of_def row_subaccount_def in_load_window_def
        SIGNATURE_EXPIRY_def SIGNATURE_EARLY_def sample_owner_def)
qed

end
