(* ===== verification/Requests.thy ===== *)
theory Requests
  imports Subscriptions
begin

text \<open>
  Subscribe and unsubscribe requests (\<^verbatim>\<open>spns/hivemind.cpp\<close>, lines 408-525 and 1024-1425): the
  exception wrapper and the deferral of requests that arrive during start-up, the reading of the
  request's arguments, the per-item error replies, the notifier's validation reply and the
  collection of the items' results into one answer.
\<close>

section \<open>Messages and replies\<close>

text \<open>
  A request arrives over OxenMQ as a list of parts or over QUIC as one body. A reply is its text
  and, over QUIC, an error flag.
\<close>

datatype message = omq_message "string list" | quic_message string string

datatype reply = send_reply string | respond string bool

fun send :: "message \<Rightarrow> string \<Rightarrow> bool \<Rightarrow> reply" where
  "send (omq_message parts) body is_error = send_reply body"
| "send (quic_message endpoint b) body is_error = respond body is_error"

definition error_json :: "'j json_lib \<Rightarrow> int \<Rightarrow> string \<Rightarrow> 'j" where
  "error_json J code text = j_object J [(''error'', j_of_int J code), (''message'', j_of_string J text)]"

definition json_error :: "'j json_lib \<Rightarrow> message \<Rightarrow> SUBSCRIBE \<Rightarrow> string \<Rightarrow> reply" where
  "json_error J m err text = send m (j_dump J (error_json J (numeric_code err) text)) True"

text \<open>
  \<^verbatim>\<open>ExcWrapper::operator()\<close>: the wrapped method ran to its end, asked to be deferred, or threw and
  was answered with the generic error.
\<close>

datatype 'a wrapped = Finished 'a | Deferred | Failed reply

definition ExcWrapper :: "'j json_lib \<Rightarrow> message \<Rightarrow> 'a result \<Rightarrow> 'a wrapped" where
  "ExcWrapper J m r =
     (case r of
        Inr x \<Rightarrow> Finished x
      | Inl startup_request_defer \<Rightarrow> Deferred
      | Inl e \<Rightarrow> Failed (json_error J m INTERNAL_ERROR ''An internal error occurred while processing your request''))"

definition ready_or_defer :: "bool \<Rightarrow> unit result" where
  "ready_or_defer is_ready = guard_r (\<not> is_ready) startup_request_defer"

section \<open>Reading the request\<close>

fun get_body :: "message \<Rightarrow> string result" where
  "get_body (omq_message []) = Inl (out_of_range ''vector::_M_range_check'')"
| "get_body (omq_message (part # parts)) = Inr part"
| "get_body (quic_message endpoint body) = Inr body"

text \<open>\<open>Inl\<close> inside the result: an error was sent and the request is done.\<close>

definition parse_sub_unsub :: "'j json_lib \<Rightarrow> message \<Rightarrow> (reply + 'j) result" where
  "parse_sub_unsub J m =
     (case bind_r (get_body m) (j_parse J) of
        Inl (json_exception t) \<Rightarrow> Inr (Inl (json_error J m BAD_INPUT ''Invalid JSON''))
      | Inl (out_of_range t) \<Rightarrow> Inr (Inl (json_error J m BAD_INPUT ''Invalid request: missing request data''))
      | Inl e \<Rightarrow> Inl e
      | Inr args \<Rightarrow>
          if \<not> (j_is_array J args \<or> j_is_object J args)
          then Inr (Inl (json_error J m BAD_INPUT ''Invalid JSON: expected object or array of objects''))
          else Inr (Inr args))"

text \<open>The unnamed-namespace \<^verbatim>\<open>at\<close>: any failure of the look-up becomes \<^verbatim>\<open>missing_parameter\<close>.\<close>

definition at_param :: "'j json_lib \<Rightarrow> 'j \<Rightarrow> string \<Rightarrow> 'j result" where
  "at_param J obj key = (case j_at J obj key of Inl e \<Rightarrow> Inl (missing_parameter key) | Inr v \<Rightarrow> Inr v)"

definition string_at :: "'j json_lib \<Rightarrow> 'j \<Rightarrow> string \<Rightarrow> string result" where
  "string_at J args key = bind_r (j_at J args key) (j_string J)"

definition subaccount_arg :: "oxenc_lib \<Rightarrow> 'j json_lib \<Rightarrow> 'j \<Rightarrow> Subaccount option result" where
  "subaccount_arg ox J args =
     (case j_find J args ''subaccount'' of
        None \<Rightarrow> Inr None
      | Some tag_arg \<Rightarrow>
          (case j_find J args ''subaccount_sig'' of
             None \<Rightarrow> Inl (invalid_argument ''Cannot specify subaccount without subaccount_sig'')
           | Some sig_arg \<Rightarrow>
               bind_r (bind_r (j_string J tag_arg) (from_hex_or_b64 ox SubaccountTag_SIZE)) (\<lambda>tag.
               bind_r (bind_r (j_string J sig_arg) (from_hex_or_b64 ox Signature_SIZE)) (\<lambda>sg.
               Inr (Some \<lparr>sub_tag = tag, sub_sig = sg\<rparr>)))))"

record 'j sub_unsub_tuple =
  arg_pubkey :: SwarmPubkey
  arg_subaccount :: "Subaccount option"
  arg_sig_ts :: int
  arg_sig :: bytes
  arg_service :: string
  arg_service_info :: 'j

definition sub_unsub_args :: "oxenc_lib \<Rightarrow> sodium_lib \<Rightarrow> 'j json_lib \<Rightarrow> 'j \<Rightarrow> 'j sub_unsub_tuple result" where
  "sub_unsub_args ox sod J args =
     bind_r (bind_r (string_at J args ''pubkey'') (from_hex_or_b64 ox AccountID_SIZE)) (\<lambda>account.
     bind_r (if hd account = 0x05
             then bind_r (bind_r (string_at J args ''session_ed25519'') (from_hex_or_b64 ox Ed25519PK_SIZE)) (Inr \<circ> Some)
             else Inr None) (\<lambda>session_ed.
     bind_r (subaccount_arg ox J args) (\<lambda>subaccount.
     bind_r (bind_r (string_at J args ''signature'') (from_hex_or_b64 ox Signature_SIZE)) (\<lambda>sg.
     bind_r (SwarmPubkey_ctor ox sod account session_ed False) (\<lambda>pubkey.
     bind_r (bind_r (j_at J args ''sig_ts'') (j_int64 J)) (\<lambda>ts.
     bind_r (string_at J args ''service'') (\<lambda>service.
     bind_r (j_at J args ''service_info'') (\<lambda>info.
     Inr \<lparr>arg_pubkey = pubkey, arg_subaccount = subaccount, arg_sig_ts = ts, arg_sig = sg,
          arg_service = service, arg_service_info = info\<rparr>))))))))"

definition sub_unsub_service_conn :: "string \<Rightarrow> HiveMind \<Rightarrow> nat result" where
  "sub_unsub_service_conn service hm =
     require_r (subscribe_error SERVICE_NOT_AVAILABLE (service @ '' notification service not currently available''))
       (map_of (services hm) service)"

text \<open>
  What the reply handler of a \<^verbatim>\<open>notifier.validate\<close> request captures: the item's index, service and
  account, and either the checked subscription with its encryption key or \<^verbatim>\<open>UnsubData\<close>.
\<close>

datatype sub_action = Subscribe_action Subscription bytes | Unsubscribe_action bytes "Subaccount option" int

record pending =
  pd_index :: nat
  pd_service :: string
  pd_pubkey :: SwarmPubkey
  pd_action :: sub_action

text \<open>A \<^verbatim>\<open>notifier.validate\<close> request: the connection, the service name and the dumped \<^verbatim>\<open>service_info\<close>.\<close>

type_synonym validate_request = "nat \<times> string \<times> string"

text \<open>The body of the \<^verbatim>\<open>try\<close> of one iteration of \<^verbatim>\<open>on_sub_unsub_impl\<close>'s loop, on element \<open>e\<close>.\<close>

definition sub_unsub_item ::
  "oxenc_lib \<Rightarrow> sodium_lib \<Rightarrow> 'j json_lib \<Rightarrow> seconds \<Rightarrow> bool \<Rightarrow> nat \<Rightarrow> 'j \<Rightarrow> HiveMind \<Rightarrow> (validate_request \<times> pending) result" where
  "sub_unsub_item ox sod J now subscribe i e hm =
     bind_r (sub_unsub_args ox sod J e) (\<lambda>a.
     bind_r (sub_unsub_service_conn (arg_service a) hm) (\<lambda>conn.
     bind_r
       (if subscribe then
          bind_r (bind_r (bind_r (at_param J e ''enc_key'') (j_string J)) (from_hex_or_b64 ox EncKey_SIZE)) (\<lambda>enc_key.
          bind_r (bind_r (at_param J e ''namespaces'') (j_int16s J)) (\<lambda>ns.
          bind_r (bind_r (at_param J e ''data'') (j_bool J)) (\<lambda>wd.
          bind_r (bind_r (at_param J e ''sig_ts'') (j_int64 J)) (\<lambda>ts.
          bind_r (Subscription_ctor ox sod (arg_pubkey a) (arg_subaccount a) ns wd ts (arg_sig a) False now) (\<lambda>sub.
          Inr (Subscribe_action sub enc_key))))))
        else Inr (Unsubscribe_action (arg_sig a) (arg_subaccount a) (arg_sig_ts a))) (\<lambda>act.
     Inr ((conn, arg_service a, j_dump J (arg_service_info a)),
          \<lparr>pd_index = i, pd_service = arg_service a, pd_pubkey = arg_pubkey a, pd_action = act\<rparr>))))"

text \<open>The \<^verbatim>\<open>catch\<close> clauses after it.\<close>

fun item_error :: "exn \<Rightarrow> SUBSCRIBE \<times> string" where
  "item_error (missing_parameter key) = (BAD_INPUT, what (missing_parameter key))"
| "item_error (subscribe_error code text) = (code, text)"
| "item_error e = (ERROR, what e)"

section \<open>Collecting the answers\<close>

text \<open>
  The state the items of one request share: the response array, the counter of items not yet
  answered, and the texts sent so far. \<^verbatim>\<open>response[i] = val\<close> past the end would fill up with nulls.
\<close>

record 'j batch =
  multi :: bool
  responses :: "'j list"
  remaining :: int
  sent :: "string list"

definition set_index :: "'j json_lib \<Rightarrow> nat \<Rightarrow> 'j \<Rightarrow> 'j list \<Rightarrow> 'j list" where
  "set_index J i v xs =
     (if i < length xs then xs[i := v] else xs @ replicate (i - length xs) (j_null J) @ [v])"

definition sub_json_set_one_response :: "'j json_lib \<Rightarrow> nat \<Rightarrow> 'j \<Rightarrow> 'j batch \<Rightarrow> 'j batch" where
  "sub_json_set_one_response J i val b =
     (let rs = set_index J i val (responses b);
          n = remaining b - 1;
          text = (if \<not> multi b then j_dump J (rs ! 0) else j_dump J (j_array J rs))
      in b\<lparr>responses := rs, remaining := n, sent := sent b @ (if n = 0 then [text] else [])\<rparr>)"

section \<open>The notifier's answer\<close>

definition SERVICE_ID_MIN_SIZE :: nat where "SERVICE_ID_MIN_SIZE = 32"
definition SERVICE_ID_MAX_SIZE :: nat where "SERVICE_ID_MAX_SIZE = 999"
definition SERVICE_DATA_MAX_SIZE :: nat where "SERVICE_DATA_MAX_SIZE = 99999"

text \<open>
  The \<^verbatim>\<open>try\<close> block of \<^verbatim>\<open>on_notifier_validation\<close>: the code, the message, the extra members of the
  response and the new state. \<open>nowa\<close>, \<open>nowb\<close> are the clock readings of \<^verbatim>\<open>remove_subscription\<close>.
\<close>

definition apply_action ::
  "oxenc_lib \<Rightarrow> sodium_lib \<Rightarrow> 'j json_lib \<Rightarrow> nanos \<Rightarrow> nanos \<Rightarrow> pending \<Rightarrow> string \<Rightarrow> string option \<Rightarrow> HiveMind \<Rightarrow>
   (string \<times> (string \<times> 'j) list \<times> HiveMind) result" where
  "apply_action ox sod J nowa nowb p service_id service_data hm =
     (case pd_action p of
        Subscribe_action sub enc_key \<Rightarrow>
          bind_r (guard_r (case service_data of None \<Rightarrow> False | Some d \<Rightarrow> length d > SERVICE_DATA_MAX_SIZE)
                    (invalid_argument (''service data too long ('' @ to_chars (int (length (the service_data))) @ '')''))) (\<lambda>_.
          bind_r (add_subscription (pd_pubkey p) (pd_service p) service_id service_data enc_key sub hm) (\<lambda>(newsub, hm').
          Inr (if newsub then ''Subscription successful'' else ''Resubscription successful'',
               [(if newsub then ''added'' else ''updated'', j_of_bool J True)], hm')))
      | Unsubscribe_action sg sa ts \<Rightarrow>
          bind_r (remove_subscription ox sod nowa nowb (pd_pubkey p) sa (pd_service p) service_id sg ts hm) (\<lambda>(removed, hm').
          Inr (if removed then ''Device unsubscribed from push notifications''
               else ''Device was not subscribed to push notifications'',
               [(''removed'', j_of_bool J removed)], hm')))"

definition validation_result ::
  "oxenc_lib \<Rightarrow> sodium_lib \<Rightarrow> 'j json_lib \<Rightarrow> nanos \<Rightarrow> nanos \<Rightarrow> pending \<Rightarrow> bool \<Rightarrow> string list \<Rightarrow> HiveMind \<Rightarrow>
   (int \<times> string \<times> (string \<times> 'j) list \<times> HiveMind) result" where
  "validation_result ox sod J nowa nowb p success data hm =
     (if \<not> success then
        Inl (if data \<noteq> [] \<and> data ! 0 = ''TIMEOUT''
             then subscribe_error SERVICE_TIMEOUT (pd_service p @ '' notification service timed out'')
             else subscribe_error ERROR (''failed to communicate with '' @ pd_service p @ '' notification service''))
      else if length data < 2 \<or> length data > 3 then
        Inl (invalid_argument (''invalid '' @ to_chars (int (length data)) @ ''-part response from notification service''))
      else
        bind_r (require_r (invalid_argument ''notification service did not give a status code'')
                  (parse_int (- (2 ^ 31)) (2 ^ 31 - 1) (data ! 0))) (\<lambda>code.
        if code = numeric_code OK then
          bind_r (guard_r (length (data ! 1) < SERVICE_ID_MIN_SIZE \<or> length (data ! 1) > SERVICE_ID_MAX_SIZE)
                    (invalid_argument (''service id too '' @ (if length (data ! 1) < SERVICE_ID_MIN_SIZE then ''short'' else ''long'') @
                       '' ('' @ to_chars (int (length (data ! 1))) @ '')''))) (\<lambda>_.
          bind_r (apply_action ox sod J nowa nowb p (data ! 1) (if length data > 2 then Some (data ! 2) else None) hm)
            (\<lambda>(message, extra, hm'). Inr (code, message, extra, hm')))
        else Inr (code, data ! 1, [], hm)))"

fun validation_error :: "exn \<Rightarrow> int \<times> string" where
  "validation_error (subscribe_error code text) = (numeric_code code, text)"
| "validation_error (signature_verify_failure text) = (numeric_code ERROR, text)"
| "validation_error e = (numeric_code ERROR, ''An error occured while processing your request'')"

text \<open>The members of the item's response, and the state afterwards.\<close>

definition validation_response ::
  "oxenc_lib \<Rightarrow> sodium_lib \<Rightarrow> 'j json_lib \<Rightarrow> nanos \<Rightarrow> nanos \<Rightarrow> pending \<Rightarrow> bool \<Rightarrow> string list \<Rightarrow> HiveMind \<Rightarrow>
   (string \<times> 'j) list \<times> HiveMind" where
  "validation_response ox sod J nowa nowb p success data hm =
     (let (code, message, extra, hm') =
            (case validation_result ox sod J nowa nowb p success data hm of
               Inl e \<Rightarrow> (fst (validation_error e), snd (validation_error e), [], hm)
             | Inr x \<Rightarrow> x);
          status = (if code = numeric_code OK then (''success'', j_of_bool J True) else (''error'', j_of_int J code))
      in (extra @ [status] @ (if message \<noteq> [] then [(''message'', j_of_string J message)] else []), hm'))"

definition on_notifier_validation ::
  "oxenc_lib \<Rightarrow> sodium_lib \<Rightarrow> 'j json_lib \<Rightarrow> nanos \<Rightarrow> nanos \<Rightarrow> pending \<Rightarrow> bool \<Rightarrow> string list \<Rightarrow> 'j batch \<Rightarrow> HiveMind \<Rightarrow>
   'j batch \<times> HiveMind" where
  "on_notifier_validation ox sod J nowa nowb p success data b hm =
     (let (members, hm') = validation_response ox sod J nowa nowb p success data hm
      in (sub_json_set_one_response J (pd_index p) (j_object J members) b, hm'))"

section \<open>The request handlers\<close>

text \<open>One iteration of the loop, \<^verbatim>\<open>catch\<close> clauses and error answer included.\<close>

definition sub_unsub_step ::
  "oxenc_lib \<Rightarrow> sodium_lib \<Rightarrow> 'j json_lib \<Rightarrow> (nat \<Rightarrow> seconds) \<Rightarrow> bool \<Rightarrow> HiveMind \<Rightarrow> nat \<Rightarrow> 'j \<Rightarrow>
   'j batch \<times> (validate_request \<times> pending) list \<Rightarrow> 'j batch \<times> (validate_request \<times> pending) list" where
  "sub_unsub_step ox sod J clock subscribe hm i e s =
     (case sub_unsub_item ox sod J (clock i) subscribe i e hm of
        Inr p \<Rightarrow> (fst s, snd s @ [p])
      | Inl ex \<Rightarrow>
          (sub_json_set_one_response J i
             (error_json J (numeric_code (fst (item_error ex))) (snd (item_error ex))) (fst s), snd s))"

fun sub_unsub_loop ::
  "oxenc_lib \<Rightarrow> sodium_lib \<Rightarrow> 'j json_lib \<Rightarrow> (nat \<Rightarrow> seconds) \<Rightarrow> bool \<Rightarrow> HiveMind \<Rightarrow> nat \<Rightarrow> 'j list \<Rightarrow>
   'j batch \<times> (validate_request \<times> pending) list \<Rightarrow> 'j batch \<times> (validate_request \<times> pending) list" where
  "sub_unsub_loop ox sod J clock subscribe hm i [] s = s"
| "sub_unsub_loop ox sod J clock subscribe hm i (e # es) s =
     sub_unsub_loop ox sod J clock subscribe hm (Suc i) es (sub_unsub_step ox sod J clock subscribe hm i e s)"

definition new_batch :: "'j json_lib \<Rightarrow> bool \<Rightarrow> 'j list \<Rightarrow> 'j batch" where
  "new_batch J is_multi args =
     \<lparr>multi = is_multi, responses = map (\<lambda>_. j_object J []) args, remaining = int (length args), sent = []\<rparr>"

text \<open>A single object is treated as a list of one.\<close>

definition request_items :: "'j json_lib \<Rightarrow> 'j \<Rightarrow> 'j list" where
  "request_items J args = (if j_is_array J args then j_elems J args else [args])"

text \<open>
  \<^verbatim>\<open>on_sub_unsub_impl\<close>: an immediate error reply, or the batch and the validation requests sent.
  \<open>clock i\<close> is the clock reading for item \<open>i\<close>.
\<close>

definition on_sub_unsub_impl ::
  "oxenc_lib \<Rightarrow> sodium_lib \<Rightarrow> 'j json_lib \<Rightarrow> (nat \<Rightarrow> seconds) \<Rightarrow> bool \<Rightarrow> bool \<Rightarrow> message \<Rightarrow> HiveMind \<Rightarrow>
   (reply + 'j batch \<times> (validate_request \<times> pending) list) result" where
  "on_sub_unsub_impl ox sod J clock is_ready subscribe m hm =
     bind_r (ready_or_defer is_ready) (\<lambda>_.
     bind_r (parse_sub_unsub J m) (\<lambda>parsed.
     case parsed of
       Inl r \<Rightarrow> Inr (Inl r)
     | Inr args \<Rightarrow>
         let is_multi = j_is_array J args;
             items = request_items J args
         in if items = [] then
              Inr (Inl (json_error J m BAD_INPUT ''Invalid request: {} list cannot be empty''))
            else Inr (Inr (sub_unsub_loop ox sod J clock subscribe hm 0 items (new_batch J is_multi items, [])))))"

text \<open>The four endpoints and the QUIC dispatcher.\<close>

definition on_subscribe where
  "on_subscribe ox sod J clock is_ready m hm = ExcWrapper J m (on_sub_unsub_impl ox sod J clock is_ready True m hm)"
definition on_unsubscribe where
  "on_unsubscribe ox sod J clock is_ready m hm = ExcWrapper J m (on_sub_unsub_impl ox sod J clock is_ready False m hm)"

definition on_quic_request where
  "on_quic_request ox sod J clock is_ready endpoint body hm =
     (let m = quic_message endpoint body in
      if endpoint = ''subscribe'' then on_subscribe ox sod J clock is_ready m hm
      else if endpoint = ''unsubscribe'' then on_unsubscribe ox sod J clock is_ready m hm
      else if endpoint = ''ping'' then Finished (Inl (respond ''pong'' False))
      else Finished (Inl (json_error J m BAD_INPUT (''No such endpoint '' @ [CHR 0x27] @ endpoint @ [CHR 0x27]))))"

section \<open>One answer per request\<close>

text \<open>
  The run of one request: the loop works through the items while notifier answers for earlier
  items may already come in, in any order, each exactly once (OxenMQ reports a reply or a timeout
  for every request). The rest of the server may change the state in between.
\<close>

record 'j batch_run =
  br_batch :: "'j batch"
  br_todo :: "(nat \<times> 'j) list"
  br_pending :: "pending list"

inductive batch_step ::
  "oxenc_lib \<Rightarrow> sodium_lib \<Rightarrow> 'j json_lib \<Rightarrow> bool \<Rightarrow> 'j batch_run \<Rightarrow> 'j batch_run \<Rightarrow> bool"
  for ox sod J subscribe where
  item_step: "sub_unsub_step ox sod J clock subscribe hm i e (b, []) = (b', reqs) \<Longrightarrow>
    batch_step ox sod J subscribe \<lparr>br_batch = b, br_todo = (i, e) # rest, br_pending = ps\<rparr>
      \<lparr>br_batch = b', br_todo = rest, br_pending = ps @ map snd reqs\<rparr>"
| validated_step: "on_notifier_validation ox sod J nowa nowb p success data b hm = (b', hm') \<Longrightarrow>
    batch_step ox sod J subscribe \<lparr>br_batch = b, br_todo = todo, br_pending = ps @ p # qs\<rparr>
      \<lparr>br_batch = b', br_todo = todo, br_pending = ps @ qs\<rparr>"

definition batch_start :: "'j json_lib \<Rightarrow> bool \<Rightarrow> 'j list \<Rightarrow> 'j batch_run" where
  "batch_start J is_multi args = \<lparr>br_batch = new_batch J is_multi args, br_todo = enumerate 0 args, br_pending = []\<rparr>"

definition open_items :: "'j batch_run \<Rightarrow> nat list" where
  "open_items r = map fst (br_todo r) @ map pd_index (br_pending r)"

definition answered :: "'j json_lib \<Rightarrow> 'j \<Rightarrow> bool" where
  "answered J v \<longleftrightarrow> (j_find J v ''success'' \<noteq> None) \<noteq> (j_find J v ''error'' \<noteq> None)"

definition answer_text :: "'j json_lib \<Rightarrow> 'j batch \<Rightarrow> string" where
  "answer_text J b = (if multi b then j_dump J (j_array J (responses b)) else j_dump J (responses b ! 0))"

definition batch_ok :: "'j json_lib \<Rightarrow> bool \<Rightarrow> nat \<Rightarrow> 'j batch_run \<Rightarrow> bool" where
  "batch_ok J is_multi n r \<longleftrightarrow>
     multi (br_batch r) = is_multi \<and> length (responses (br_batch r)) = n \<and>
     distinct (open_items r) \<and> set (open_items r) \<subseteq> {..<n} \<and>
     remaining (br_batch r) = int (length (open_items r)) \<and>
     sent (br_batch r) = (if open_items r = [] then [answer_text J (br_batch r)] else []) \<and>
     (\<forall>i < n. i \<notin> set (open_items r) \<longrightarrow> answered J (responses (br_batch r) ! i))"

lemma answered_object:
  assumes "json_documented J" "map_of kvs ''success'' \<noteq> None \<longleftrightarrow> map_of kvs ''error'' = None"
  shows "answered J (j_object J kvs)"
  using assms by (auto simp: answered_def json_documented_def)

text \<open>Answering one open item keeps the invariant, whichever item it is.\<close>

lemma set_one_response_ok:
  assumes ok: "batch_ok J is_multi n \<lparr>br_batch = b, br_todo = todo, br_pending = ps\<rparr>"
    and items: "open_items \<lparr>br_batch = b, br_todo = todo, br_pending = ps\<rparr> = xs @ i # ys"
    and items': "map fst todo' @ map pd_index ps' = xs @ ys" and v: "answered J v"
  shows "batch_ok J is_multi n \<lparr>br_batch = sub_json_set_one_response J i v b, br_todo = todo', br_pending = ps'\<rparr>"
proof -
  have len: "length (responses b) = n" and i: "i < n" and rem: "remaining b = int (length (xs @ ys)) + 1"
    and dist: "distinct (xs @ ys)" "i \<notin> set (xs @ ys)" and sub: "set (xs @ ys) \<subseteq> {..<n}" and sent: "sent b = []"
    and old: "\<forall>j < n. j \<notin> set (xs @ i # ys) \<longrightarrow> answered J (responses b ! j)" and mu: "multi b = is_multi"
    using ok unfolding batch_ok_def items by auto
  have op: "open_items \<lparr>br_batch = c, br_todo = todo', br_pending = ps'\<rparr> = xs @ ys" for c :: "'a batch"
    using items' by (simp add: open_items_def)
  have rs: "responses (sub_json_set_one_response J i v b) = (responses b)[i := v]"
    using i len by (simp add: sub_json_set_one_response_def set_index_def Let_def)
  have all: "j < n \<Longrightarrow> j \<notin> set (xs @ ys) \<Longrightarrow> answered J ((responses b)[i := v] ! j)" for j
    using old v len by (cases "j = i") auto
  have last: "remaining b - 1 = 0 \<longleftrightarrow> xs @ ys = []"
    unfolding rem by (metis add_diff_cancel_right' length_0_conv of_nat_eq_0_iff)
  have st: "sent (sub_json_set_one_response J i v b) =
      (if xs @ ys = [] then [answer_text J (sub_json_set_one_response J i v b)] else [])"
    using last sent i len by (simp add: sub_json_set_one_response_def set_index_def Let_def answer_text_def)
  show ?thesis
    unfolding batch_ok_def op batch_run.simps rs
    using mu len dist(1) sub rem st all by (simp add: sub_json_set_one_response_def Let_def)
qed

lemma apply_action_extra:
  assumes "apply_action ox sod J nowa nowb p svcid data hm = Inr (text, extra, hm')"
  shows "map_of extra ''success'' = None \<and> map_of extra ''error'' = None"
  using assms by (auto simp: apply_action_def result_simps split: sub_action.splits if_splits)

lemma validation_result_extra:
  assumes "validation_result ox sod J nowa nowb p success data hm = Inr (code, text, extra, hm')"
  shows "map_of extra ''success'' = None \<and> map_of extra ''error'' = None"
  using assms apply_action_extra
  by (fastforce simp: validation_result_def result_simps split: if_splits)

lemma validation_response_status:
  "map_of (fst (validation_response ox sod J nowa nowb p success data hm)) ''success'' \<noteq> None \<longleftrightarrow>
   map_of (fst (validation_response ox sod J nowa nowb p success data hm)) ''error'' = None"
proof (cases "validation_result ox sod J nowa nowb p success data hm")
  case (Inl e)
  then show ?thesis by (simp add: validation_response_def Let_def)
next
  case (Inr x)
  obtain code msg extra hm' where x: "x = (code, msg, extra, hm')" by (metis prod.exhaust)
  with validation_result_extra [of ox sod J nowa nowb p success data hm code msg extra hm'] Inr
  show ?thesis by (simp add: validation_response_def map_add_def split: option.splits)
qed

lemma on_notifier_validation_batch:
  "fst (on_notifier_validation ox sod J nowa nowb p success data b hm) =
     sub_json_set_one_response J (pd_index p)
       (j_object J (fst (validation_response ox sod J nowa nowb p success data hm))) b"
  by (simp add: on_notifier_validation_def split: prod.splits)

lemma sub_unsub_item_index:
  "sub_unsub_item ox sod J now subscribe i e hm = Inr (req, p) \<Longrightarrow> pd_index p = i"
  by (auto simp: sub_unsub_item_def result_simps)

lemma batch_step_ok:
  assumes "batch_step ox sod J subscribe r r'" and doc: "json_documented J" and "batch_ok J is_multi n r"
  shows "batch_ok J is_multi n r'"
  using assms(1,3)
proof (induction rule: batch_step.induct)
  case (item_step clock hm i e b b' reqs rest ps)
  show ?case
  proof (cases "sub_unsub_item ox sod J (clock i) subscribe i e hm")
    case (Inl ex)
    let ?v = "error_json J (numeric_code (fst (item_error ex))) (snd (item_error ex))"
    have "b' = sub_json_set_one_response J i ?v b" "reqs = []"
      using item_step.hyps Inl by (auto simp: sub_unsub_step_def)
    moreover have "answered J ?v"
      unfolding error_json_def using doc by (rule answered_object) simp
    ultimately show ?thesis
      using set_one_response_ok [OF item_step.prems, of "[]" i "map fst rest @ map pd_index ps"]
      by (simp add: open_items_def)
  next
    case (Inr rp)
    obtain req p where rp: "rp = (req, p)" by (metis prod.exhaust)
    then have "b' = b" "reqs = [(req, p)]"
      using item_step.hyps Inr by (auto simp: sub_unsub_step_def)
    moreover have "pd_index p = i" using Inr unfolding rp by (rule sub_unsub_item_index)
    ultimately show ?thesis using item_step.prems by (auto simp: batch_ok_def open_items_def)
  qed
next
  case (validated_step nowa nowb p success data b hm b' hm' todo ps qs)
  let ?v = "j_object J (fst (validation_response ox sod J nowa nowb p success data hm))"
  have "b' = sub_json_set_one_response J (pd_index p) ?v b"
    using validated_step.hyps on_notifier_validation_batch [of ox sod J nowa nowb p success data b hm] by simp
  moreover have "answered J ?v"
    using doc validation_response_status by (rule answered_object)
  ultimately show ?case
    using set_one_response_ok [OF validated_step.prems, of "map fst todo @ map pd_index ps" "pd_index p" "map pd_index qs"]
    by (simp add: open_items_def)
qed

lemma batch_start_ok:
  assumes "args \<noteq> []"
  shows "batch_ok J is_multi (length args) (batch_start J is_multi args)"
proof -
  have "open_items (batch_start J is_multi args) = [0..<length args]"
    by (simp add: open_items_def batch_start_def)
  with assms show ?thesis
    by (simp add: batch_ok_def batch_start_def new_batch_def lessThan_atLeast0)
qed

interpretation request: transition_system
  "\<lambda>r. r = batch_start J is_multi args" "batch_step ox sod J subscribe"
  "\<lambda>r. json_documented J \<and> args \<noteq> [] \<longrightarrow> batch_ok J is_multi (length args) r"
  for ox sod J subscribe is_multi args
  by unfold_locales (use batch_start_ok batch_step_ok in blast)+

definition work_left :: "'j batch_run \<Rightarrow> nat" where
  "work_left r = 2 * length (br_todo r) + length (br_pending r)"

lemma sub_unsub_step_requests:
  "length (snd (sub_unsub_step ox sod J clock subscribe hm i e (b, []))) \<le> 1"
  by (simp add: sub_unsub_step_def split: sum.splits)

lemma batch_step_work: "batch_step ox sod J subscribe r r' \<Longrightarrow> work_left r' < work_left r"
proof (induction rule: batch_step.induct)
  case (item_step clock hm i e b b' reqs rest ps)
  then show ?case
    using sub_unsub_step_requests [of ox sod J clock subscribe hm i e b] by (simp add: work_left_def)
qed (simp add: work_left_def)

lemma batch_step_enabled:
  assumes "open_items r \<noteq> []"
  shows "\<exists>r'. batch_step ox sod J subscribe r r'"
proof (cases r)
  case (fields b todo ps)
  show ?thesis
  proof (cases todo)
    case (Cons ie rest)
    obtain b' reqs where "sub_unsub_step ox sod J (\<lambda>_. 0) subscribe undefined (fst ie) (snd ie) (b, []) = (b', reqs)"
      by (metis prod.exhaust)
    from batch_step.item_step [OF this] show ?thesis unfolding fields Cons by (metis prod.collapse)
  next
    case Nil
    then obtain p qs where "ps = [] @ p # qs"
      using assms fields by (cases ps) (auto simp: open_items_def)
    moreover obtain b' hm' where "on_notifier_validation ox sod J 0 0 p True [] b undefined = (b', hm')"
      by (metis prod.exhaust)
    ultimately show ?thesis unfolding fields using batch_step.validated_step by metis
  qed
qed

text \<open>The loop of the handler, run without interruption, is one run of the machine.\<close>

lemma sub_unsub_step_acc:
  "sub_unsub_step ox sod J clock subscribe hm i e (b, acc) =
     (fst (sub_unsub_step ox sod J clock subscribe hm i e (b, [])),
      acc @ snd (sub_unsub_step ox sod J clock subscribe hm i e (b, [])))"
  by (simp add: sub_unsub_step_def split: sum.splits)

lemma sub_unsub_loop_steps:
  "sub_unsub_loop ox sod J clock subscribe hm i es (b, acc) = (b', acc') \<Longrightarrow>
   (batch_step ox sod J subscribe)\<^sup>*\<^sup>* \<lparr>br_batch = b, br_todo = enumerate i es, br_pending = map snd acc\<rparr>
     \<lparr>br_batch = b', br_todo = [], br_pending = map snd acc'\<rparr>"
proof (induction es arbitrary: i b acc)
  case (Cons e es)
  obtain c reqs where st: "sub_unsub_step ox sod J clock subscribe hm i e (b, []) = (c, reqs)"
    by (metis prod.exhaust)
  then have "sub_unsub_loop ox sod J clock subscribe hm (Suc i) es (c, acc @ reqs) = (b', acc')"
    using Cons.prems sub_unsub_step_acc [of ox sod J clock subscribe hm i e b acc] by simp
  from Cons.IH [OF this] show ?case
    using batch_step.item_step [OF st, of "enumerate (Suc i) es" "map snd acc"]
    by (simp add: converse_rtranclp_into_rtranclp)
qed simp

lemma reach_rtranclp: "reach init step s \<Longrightarrow> step\<^sup>*\<^sup>* s t \<Longrightarrow> reach init step t"
  by (rotate_tac, induction rule: rtranclp_induct) (auto intro: reach.reach_step)

text \<open>
  C11. Every subscribe or unsubscribe request over a non-empty list of items gets exactly one
  answer, whatever the order in which the items fail or their notifiers reply, even while the
  loop still works on later items: nothing is sent before the last item is settled, then one
  answer with one result per item, each of them either a success or an error; and the settling
  never blocks and ends after finitely many steps.
\<close>

theorem request_answered_once:
  assumes "json_documented J" "args \<noteq> []"
    and "reach (\<lambda>r. r = batch_start J is_multi args) (batch_step ox sod J subscribe) r"
  defines "b \<equiv> br_batch r" and "settled \<equiv> br_todo r = [] \<and> br_pending r = []"
  shows "(\<not> settled \<longrightarrow> sent b = [] \<and> (\<exists>r'. batch_step ox sod J subscribe r r')) \<and>
    (settled \<longrightarrow> (\<forall>v \<in> set (responses b). answered J v) \<and>
       sent b = [if is_multi then j_dump J (j_array J (responses b)) else j_dump J (responses b ! 0)]) \<and>
    length (responses b) = length args \<and>
    (\<forall>r'. batch_step ox sod J subscribe r r' \<longrightarrow> work_left r' < work_left r)"
proof -
  have ok: "batch_ok J is_multi (length args) r"
    using request.reach_invar [OF assms(3)] assms(1,2) by blast
  have op: "open_items r = [] \<longleftrightarrow> settled"
    by (simp add: open_items_def settled_def)
  show ?thesis
    using ok batch_step_enabled [of r ox sod J subscribe] batch_step_work [of ox sod J subscribe r]
    unfolding op [symmetric] b_def batch_ok_def answer_text_def by (auto simp: in_set_conv_nth)
qed

lemma on_sub_unsub_impl_loop:
  assumes "on_sub_unsub_impl ox sod J clock is_ready subscribe m hm = Inr (Inr (b, reqs))"
  obtains args where "is_ready" "parse_sub_unsub J m = Inr (Inr args)" "request_items J args \<noteq> []"
    "sub_unsub_loop ox sod J clock subscribe hm 0 (request_items J args)
      (new_batch J (j_is_array J args) (request_items J args), []) = (b, reqs)"
proof -
  obtain parsed where parsed: "parse_sub_unsub J m = Inr parsed" and ready: "is_ready"
    using assms by (auto simp: on_sub_unsub_impl_def ready_or_defer_def result_simps)
  then obtain args where args: "parsed = Inr args"
    using assms by (cases parsed) (auto simp: on_sub_unsub_impl_def ready_or_defer_def result_simps)
  show thesis
    using that [of args] assms parsed ready unfolding args
    by (simp_all add: on_sub_unsub_impl_def ready_or_defer_def guard_r_def Let_def split: if_splits)
qed

text \<open>
  C16. What the handler leaves behind when it returns, the items that failed at once already
  answered and one validation request sent for every other item, is a state of that machine: all
  items taken, nothing else done. It returns so only once the server is ready.
\<close>

theorem on_sub_unsub_impl_run:
  assumes "on_sub_unsub_impl ox sod J clock is_ready subscribe m hm = Inr (Inr (b, reqs))"
  shows "is_ready \<and> (\<exists>body args. get_body m = Inr body \<and> j_parse J body = Inr args \<and> request_items J args \<noteq> [] \<and>
    reach (\<lambda>r. r = batch_start J (j_is_array J args) (request_items J args)) (batch_step ox sod J subscribe)
      \<lparr>br_batch = b, br_todo = [], br_pending = map snd reqs\<rparr>)"
proof -
  obtain args where ready: "is_ready" and parsed: "parse_sub_unsub J m = Inr (Inr args)" and ne: "request_items J args \<noteq> []"
    and run: "sub_unsub_loop ox sod J clock subscribe hm 0 (request_items J args)
      (new_batch J (j_is_array J args) (request_items J args), []) = (b, reqs)"
    by (rule on_sub_unsub_impl_loop [OF assms])
  have "bind_r (get_body m) (j_parse J) = Inr args"
    using parsed by (auto simp: parse_sub_unsub_def split: sum.splits exn.splits if_splits)
  then obtain body where body: "get_body m = Inr body" "j_parse J body = Inr args"
    by (auto simp: result_simps)
  have "(batch_step ox sod J subscribe)\<^sup>*\<^sup>* (batch_start J (j_is_array J args) (request_items J args))
      \<lparr>br_batch = b, br_todo = [], br_pending = map snd reqs\<rparr>"
    using sub_unsub_loop_steps [OF run] by (simp add: batch_start_def)
  then have "reach (\<lambda>r. r = batch_start J (j_is_array J args) (request_items J args)) (batch_step ox sod J subscribe)
      \<lparr>br_batch = b, br_todo = [], br_pending = map snd reqs\<rparr>"
    by (rule reach_rtranclp [rotated]) (simp add: reach.reach_init)
  with ready body ne show ?thesis by blast
qed

section \<open>What a notifier's answer does\<close>

lemma add_subscription_view:
  assumes "db_ok (db hm)" "wf_Subscription sub"
    and "add_subscription pubkey service svcid data enc sub hm = Inr (new_sub, hm')"
  shows "db_ok (db hm') \<and>
    sub_view (db hm') = (sub_view (db hm))((account_id pubkey, service, svcid) \<mapsto> (vals_of pubkey sub enc data, namespaces sub))"
  using assms store.upsert_spec [OF assms(1), of "(vals_of pubkey sub enc data, namespaces sub)"]
  by (auto simp: add_subscription_def add_subscription_tx_def result_simps valid_values_def wf_Subscription_def)

lemma remove_subscription_view:
  assumes "db_ok (db hm)"
    and "remove_subscription ox sod nowa nowb pubkey sa service svcid sg ts hm = Inr (removed, hm')"
  shows "in_unsubscribe_window nowa nowb ts \<and> authorized sod pubkey sa (unsubscribe_sig_msg ox pubkey ts) sg \<and>
    db_ok (db hm') \<and> sub_view (db hm') = (sub_view (db hm))((account_id pubkey, service, svcid) := None)"
proof -
  let ?key = "(account_id pubkey, service, svcid)"
  obtain found db' where rm: "remove_subscription_tx ?key (db hm) = (found, db')" by (metis prod.exhaust)
  have "hm' = hm\<lparr>db := db'\<rparr>" "in_unsubscribe_window nowa nowb ts"
    and "authorized sod pubkey sa (unsubscribe_sig_msg ox pubkey ts) sg"
    using assms(2) rm
    by (auto simp: remove_subscription_def result_simps in_unsubscribe_window_def verify_storage_authorized)
  then show ?thesis using store.remove_spec [OF assms(1) rm] by simp
qed

text \<open>A notifier's answer that the server accepts.\<close>

definition accepted_answer :: "pending \<Rightarrow> bool \<Rightarrow> string list \<Rightarrow> bool" where
  "accepted_answer p success data \<longleftrightarrow>
     success \<and> (length data = 2 \<or> length data = 3) \<and> parse_int (- (2 ^ 31)) (2 ^ 31 - 1) (data ! 0) = Some 0 \<and>
     32 \<le> length (data ! 1) \<and> length (data ! 1) \<le> 999 \<and>
     (case pd_action p of Subscribe_action _ _ \<Rightarrow> length data = 3 \<longrightarrow> length (data ! 2) \<le> 99999 | Unsubscribe_action _ _ _ \<Rightarrow> True)"

definition pending_wf :: "pending \<Rightarrow> bool" where
  "pending_wf p \<longleftrightarrow> (case pd_action p of Subscribe_action sub _ \<Rightarrow> wf_Subscription sub | Unsubscribe_action _ _ _ \<Rightarrow> True)"

text \<open>The effect of an accepted answer on the subscriptions of device \<open>svcid\<close>.\<close>

definition action_effect ::
  "oxenc_lib \<Rightarrow> sodium_lib \<Rightarrow> nanos \<Rightarrow> nanos \<Rightarrow> pending \<Rightarrow> string \<Rightarrow> string option \<Rightarrow> DB \<Rightarrow> DB \<Rightarrow> bool" where
  "action_effect ox sod nowa nowb p svcid data d d' \<longleftrightarrow>
     (let key = (account_id (pd_pubkey p), pd_service p, svcid) in
      case pd_action p of
        Subscribe_action sub enc \<Rightarrow>
          sub_view d' = (sub_view d)(key \<mapsto> (vals_of (pd_pubkey p) sub enc data, namespaces sub))
      | Unsubscribe_action sg sa ts \<Rightarrow>
          in_unsubscribe_window nowa nowb ts \<and>
          authorized sod (pd_pubkey p) sa (unsubscribe_sig_msg ox (pd_pubkey p) ts) sg \<and>
          sub_view d' = (sub_view d)(key := None))"

lemma apply_action_effect:
  assumes ok: "db_ok (db hm)" and wf: "pending_wf p"
    and act: "apply_action ox sod J nowa nowb p svcid data hm = Inr (msg, extra, hm')"
  shows "db_ok (db hm') \<and> action_effect ox sod nowa nowb p svcid data (db hm) (db hm') \<and>
    (case pd_action p of Subscribe_action _ _ \<Rightarrow> (\<forall>d. data = Some d \<longrightarrow> length d \<le> SERVICE_DATA_MAX_SIZE)
     | Unsubscribe_action _ _ _ \<Rightarrow> True)"
proof (cases "pd_action p")
  case (Subscribe_action sub enc)
  then obtain new where add: "add_subscription (pd_pubkey p) (pd_service p) svcid data enc sub hm = Inr (new, hm')"
    and len: "\<forall>d. data = Some d \<longrightarrow> length d \<le> SERVICE_DATA_MAX_SIZE"
    using act by (auto simp: apply_action_def result_simps split: if_splits option.splits)
  with add_subscription_view [OF ok _ add] wf Subscribe_action show ?thesis
    by (simp add: pending_wf_def action_effect_def)
next
  case (Unsubscribe_action sg sa ts)
  then obtain removed where "remove_subscription ox sod nowa nowb (pd_pubkey p) sa (pd_service p) svcid sg ts hm = Inr (removed, hm')"
    using act by (auto simp: apply_action_def result_simps)
  with remove_subscription_view [OF ok this] Unsubscribe_action show ?thesis
    by (simp add: action_effect_def)
qed

lemma validation_error_not_ok: "fst (validation_error e) = 0 \<longleftrightarrow> (\<exists>t. e = subscribe_error OK t)"
proof (cases e)
  case (subscribe_error c t)
  then show ?thesis by (cases c) simp_all
qed simp_all

text \<open>No failure of the handler is reported with the code of success.\<close>

lemma insert_namespaces_error: "insert_namespaces i ns d = Inl e \<Longrightarrow> \<exists>t. e = sql_error t"
  by (induction ns arbitrary: d) (auto split: if_splits)

lemma increment_stat_error: "increment_stat s n k d = Inl e \<Longrightarrow> \<exists>t. e = sql_error t"
  by (auto simp: increment_stat_def Let_def split: if_splits option.splits)

lemma add_subscription_error:
  assumes "add_subscription pubkey service svcid data enc sub hm = Inl e"
  shows "\<exists>t. e = sql_error t"
  using assms
  by (auto simp: add_subscription_def add_subscription_tx_def upsert_subscription_def count_subscription_def
      insert_subscription_def result_simps Let_def split: option.splits if_splits
      dest: insert_namespaces_error increment_stat_error)

lemma remove_subscription_error:
  assumes "remove_subscription ox sod nowa nowb pubkey sa service svcid sg ts hm = Inl e"
  shows "\<exists>t. e = invalid_argument t \<or> e = signature_verify_failure t"
  using assms
  by (auto simp: remove_subscription_def verify_storage_signature_def verify_signature_def result_simps Let_def
      split: option.splits if_splits prod.splits)

lemma validation_result_error:
  assumes "validation_result ox sod J nowa nowb p success data hm = Inl e"
  shows "fst (validation_error e) \<noteq> numeric_code OK"
proof -
  have "apply_action ox sod J nowa nowb p svcid d hm = Inl e \<Longrightarrow> e \<noteq> subscribe_error OK t" for svcid d t
    using add_subscription_error remove_subscription_error
    by (fastforce simp: apply_action_def result_simps split: sub_action.splits)
  then have "e \<noteq> subscribe_error OK t" for t
    using assms by (auto simp: validation_result_def result_simps split: if_splits)
  then show ?thesis by (simp add: validation_error_not_ok)
qed

lemma validation_result_state:
  assumes "db_ok (db hm)" "pending_wf p" "validation_result ox sod J nowa nowb p success data hm = Inr (code, msg, extra, hm')"
  shows "if code = 0 then accepted_answer p success data \<and> db_ok (db hm') \<and>
      action_effect ox sod nowa nowb p (data ! 1) (if length data = 3 then Some (data ! 2) else None) (db hm) (db hm')
    else hm' = hm"
proof (cases "code = 0")
  case True
  have len: "success" "length data = 2 \<or> length data = 3" "parse_int (- (2 ^ 31)) (2 ^ 31 - 1) (data ! 0) = Some 0"
    and sid: "32 \<le> length (data ! 1)" "length (data ! 1) \<le> 999"
    and act: "apply_action ox sod J nowa nowb p (data ! 1) (if length data > 2 then Some (data ! 2) else None) hm = Inr (msg, extra, hm')"
    using assms(3) True
    by (auto simp: validation_result_def result_simps SERVICE_ID_MIN_SIZE_def SERVICE_ID_MAX_SIZE_def split: if_splits)
  have arg: "(if length data > 2 then Some (data ! 2) else None) = (if length data = 3 then Some (data ! 2) else None)"
    using len(2) by auto
  from apply_action_effect [OF assms(1,2) act] show ?thesis
    using True len sid unfolding arg by (auto simp: accepted_answer_def SERVICE_DATA_MAX_SIZE_def split: sub_action.splits)
next
  case False
  then show ?thesis using assms(3) by (auto simp: validation_result_def result_simps split: if_splits)
qed

text \<open>
  C12. The notifier's answer changes the server's subscriptions only when it is accepted: it arrived,
  has two or three parts, code 0, a service id of 32 to 999 bytes and service data of at most
  99999. The item's response then says success and exactly the device's subscription was
  stored, or, for an unsubscribe request with a fresh and authorized signature, removed. In every
  other case, exceptions included, the response is an error and the state is as before.
\<close>

theorem on_notifier_validation_spec:
  assumes "db_ok (db hm)" "pending_wf p"
  shows "case validation_response ox sod J nowa nowb p success data hm of (members, hm') \<Rightarrow>
    (if map_of members ''success'' = None then hm' = hm \<and> map_of members ''error'' \<noteq> None
     else accepted_answer p success data \<and> db_ok (db hm') \<and>
       action_effect ox sod nowa nowb p (data ! 1) (if length data = 3 then Some (data ! 2) else None) (db hm) (db hm'))"
proof (cases "validation_result ox sod J nowa nowb p success data hm")
  case (Inl e)
  with validation_result_error [OF Inl] show ?thesis
    by (simp add: validation_response_def Let_def)
next
  case (Inr x)
  obtain code msg extra hm' where x: "x = (code, msg, extra, hm')" by (metis prod.exhaust)
  have ex: "map_of extra ''success'' = None" "map_of extra ''error'' = None"
    using validation_result_extra Inr unfolding x by blast+
  from validation_result_state [OF assms, of ox sod J nowa nowb success data code msg extra hm'] Inr ex show ?thesis
    by (auto simp: x validation_response_def map_add_def split: if_splits option.splits)
qed

section \<open>Only authorized subscriptions are stored\<close>

text \<open>
  A subscription is vouched for when its account passed the account checks and its signature was
  verified over the MONITOR message of exactly its timestamp, data flag and namespaces.
\<close>

definition vouched :: "oxenc_lib \<Rightarrow> sodium_lib \<Rightarrow> SwarmPubkey \<Rightarrow> Subscription \<Rightarrow> bool" where
  "vouched ox sod pubkey sub \<longleftrightarrow>
     SwarmPubkey_ctor ox sod (account_id pubkey) (if session_ed pubkey then Some (ed25519 pubkey) else None) False = Inr pubkey \<and>
     wf_Subscription sub \<and>
     authorized sod pubkey (subaccount sub) (monitor_sig_msg ox pubkey (sig_ts sub) (want_data sub) (namespaces sub)) (sig sub)"

lemma SwarmPubkey_ctor_idem:
  assumes "SwarmPubkey_ctor ox sod acct ed False = Inr pk"
  shows "SwarmPubkey_ctor ox sod (account_id pk) (if session_ed pk then Some (ed25519 pk) else None) False = Inr pk"
  using assms by (auto simp: SwarmPubkey_ctor_def Let_def split: option.splits if_splits prod.splits)

lemma sub_unsub_args_pubkey:
  assumes "sub_unsub_args ox sod J e = Inr a"
  shows "SwarmPubkey_ctor ox sod (account_id (arg_pubkey a))
    (if session_ed (arg_pubkey a) then Some (ed25519 (arg_pubkey a)) else None) False = Inr (arg_pubkey a)"
proof -
  obtain acct ed where "SwarmPubkey_ctor ox sod acct ed False = Inr (arg_pubkey a)"
    using assms unfolding sub_unsub_args_def by (auto simp only: bind_r_Inr sum.inject sub_unsub_tuple.simps)
  then show ?thesis by (rule SwarmPubkey_ctor_idem)
qed

definition pending_vouched :: "oxenc_lib \<Rightarrow> sodium_lib \<Rightarrow> pending \<Rightarrow> bool" where
  "pending_vouched ox sod p \<longleftrightarrow>
     (case pd_action p of Subscribe_action sub _ \<Rightarrow> vouched ox sod (pd_pubkey p) sub | Unsubscribe_action _ _ _ \<Rightarrow> True)"

lemma sub_unsub_item_vouched:
  assumes "sub_unsub_item ox sod J now subscribe i e hm = Inr (req, p)"
  shows "pending_vouched ox sod p"
proof -
  obtain a where a: "sub_unsub_args ox sod J e = Inr a" and pk: "pd_pubkey p = arg_pubkey a"
    and act: "\<And>sub enc. pd_action p = Subscribe_action sub enc \<Longrightarrow>
      \<exists>ns wd ts. Subscription_ctor ox sod (arg_pubkey a) (arg_subaccount a) ns wd ts (arg_sig a) False now = Inr sub"
    using assms by (auto simp: sub_unsub_item_def result_simps split: if_splits) blast
  show ?thesis
  proof (cases "pd_action p")
    case (Subscribe_action sub enc)
    then obtain ns wd ts where "Subscription_ctor ox sod (arg_pubkey a) (arg_subaccount a) ns wd ts (arg_sig a) False now = Inr sub"
      using act by blast
    with Subscription_ctor_fields [OF this] Subscription_ctor_wf [OF this] sub_unsub_args_pubkey [OF a] show ?thesis
      by (auto simp: pending_vouched_def vouched_def pk Subscribe_action)
  qed (simp add: pending_vouched_def)
qed

text \<open>
  The server as far as it touches the database: items accepted from clients, answers of the
  notifiers to pending items in any order, registrations dropped by a notifier, the periodic
  clean-up, and everything that leaves the database alone.
\<close>

record server =
  sv_hm :: HiveMind
  sv_pending :: "pending list"

inductive server_step :: "oxenc_lib \<Rightarrow> sodium_lib \<Rightarrow> 'j json_lib \<Rightarrow> server \<Rightarrow> server \<Rightarrow> bool"
  for ox sod J where
  sv_item: "sub_unsub_item ox sod J now subscribe i e hm = Inr (req, p) \<Longrightarrow>
    server_step ox sod J \<lparr>sv_hm = hm, sv_pending = ps\<rparr> \<lparr>sv_hm = hm, sv_pending = ps @ [p]\<rparr>"
| sv_validated: "on_notifier_validation ox sod J nowa nowb p success data b hm = (b', hm') \<Longrightarrow>
    server_step ox sod J \<lparr>sv_hm = hm, sv_pending = ps @ p # qs\<rparr> \<lparr>sv_hm = hm', sv_pending = ps @ qs\<rparr>"
| sv_drop: "drop_registration service svcid (db hm) = (n, db') \<Longrightarrow>
    server_step ox sod J \<lparr>sv_hm = hm, sv_pending = ps\<rparr> \<lparr>sv_hm = hm\<lparr>db := db'\<rparr>, sv_pending = ps\<rparr>"
| sv_cleanup: "server_step ox sod J \<lparr>sv_hm = hm, sv_pending = ps\<rparr>
    \<lparr>sv_hm = hm\<lparr>db := db_cleanup now (db hm)\<rparr>, sv_pending = ps\<rparr>"
| sv_other: "db hm' = db hm \<Longrightarrow> server_step ox sod J \<lparr>sv_hm = hm, sv_pending = ps\<rparr> \<lparr>sv_hm = hm', sv_pending = ps\<rparr>"

definition entry_ok :: "oxenc_lib \<Rightarrow> sodium_lib \<Rightarrow> sub_key \<Rightarrow> sub_values \<times> int list \<Rightarrow> bool" where
  "entry_ok ox sod key v \<longleftrightarrow>
     length (snd (snd key)) \<in> {32..999} \<and>
     (\<exists>pubkey sub enc data. account_id pubkey = fst key \<and> v = (vals_of pubkey sub enc data, namespaces sub) \<and>
        vouched ox sod pubkey sub \<and> (\<forall>x. data = Some x \<longrightarrow> length x \<le> 99999))"

definition stored_ok :: "oxenc_lib \<Rightarrow> sodium_lib \<Rightarrow> DB \<Rightarrow> bool" where
  "stored_ok ox sod d \<longleftrightarrow> db_ok d \<and> (\<forall>key v. sub_view d key = Some v \<longrightarrow> entry_ok ox sod key v)"

definition server_ok :: "oxenc_lib \<Rightarrow> sodium_lib \<Rightarrow> server \<Rightarrow> bool" where
  "server_ok ox sod s \<longleftrightarrow> stored_ok ox sod (db (sv_hm s)) \<and> list_all (pending_vouched ox sod) (sv_pending s)"

lemma stored_ok_mono:
  assumes "stored_ok ox sod d" "db_ok d'" "\<And>k v. sub_view d' k = Some v \<Longrightarrow> sub_view d k = Some v"
  shows "stored_ok ox sod d'"
  using assms unfolding stored_ok_def by blast

lemma stored_ok_upd:
  assumes "stored_ok ox sod d" "db_ok d'" "sub_view d' = (sub_view d)(k \<mapsto> v)" "entry_ok ox sod k v"
  shows "stored_ok ox sod d'"
  using assms by (auto simp: stored_ok_def)

lemma delete_shrinks:
  assumes "db_ok d"
  shows "db_ok (snd (delete_subscriptions P d))"
    "sub_view (snd (delete_subscriptions P d)) k = Some v \<Longrightarrow> sub_view d k = Some v"
  using delete_subscriptions_snd_ok [OF assms] sub_view_delete [OF assms]
  by (auto simp: sub_view_def split: option.splits if_splits)

lemma stored_ok_validated:
  assumes st: "stored_ok ox sod (db hm)" and p: "pending_vouched ox sod p"
    and v: "on_notifier_validation ox sod J nowa nowb p success data b hm = (b', hm')"
  shows "stored_ok ox sod (db hm')"
proof (cases "validation_result ox sod J nowa nowb p success data hm")
  case (Inl e)
  then have "hm' = hm" using v by (simp add: on_notifier_validation_def validation_response_def Let_def)
  with st show ?thesis by simp
next
  case (Inr x)
  obtain code msg extra hm1 where x: "x = (code, msg, extra, hm1)" by (metis prod.exhaust)
  then have hm': "hm' = hm1" using v Inr by (simp add: on_notifier_validation_def validation_response_def Let_def)
  have ok: "db_ok (db hm)" and wf: "pending_wf p"
    using st p by (auto simp: stored_ok_def pending_wf_def pending_vouched_def vouched_def split: sub_action.splits)
  let ?data = "if length data = 3 then Some (data ! 2) else None"
  show ?thesis
  proof (cases "code = 0")
    case False
    then show ?thesis using validation_result_state [OF ok wf Inr [unfolded x]] st hm' by simp
  next
    case True
    then have acc: "accepted_answer p success data" and ok': "db_ok (db hm')"
      and eff: "action_effect ox sod nowa nowb p (data ! 1) ?data (db hm) (db hm')"
      using validation_result_state [OF ok wf Inr [unfolded x]] hm' by simp_all
    show ?thesis
    proof (cases "pd_action p")
      case (Subscribe_action sub enc)
      have "length (data ! 1) \<in> {32..999}" "\<forall>y. ?data = Some y \<longrightarrow> length y \<le> 99999" "vouched ox sod (pd_pubkey p) sub"
        using acc p by (auto simp: accepted_answer_def Subscribe_action pending_vouched_def)
      then have "entry_ok ox sod (account_id (pd_pubkey p), pd_service p, data ! 1)
          (vals_of (pd_pubkey p) sub enc ?data, namespaces sub)"
        unfolding entry_ok_def fst_conv snd_conv by blast
      moreover have "sub_view (db hm') = (sub_view (db hm))((account_id (pd_pubkey p), pd_service p, data ! 1) \<mapsto>
          (vals_of (pd_pubkey p) sub enc ?data, namespaces sub))"
        using eff by (simp add: action_effect_def Subscribe_action)
      ultimately show ?thesis by (intro stored_ok_upd [OF st ok'])
    next
      case (Unsubscribe_action sg sa ts)
      then show ?thesis
        using eff by (intro stored_ok_mono [OF st ok']) (auto simp: action_effect_def split: if_splits)
    qed
  qed
qed

lemma server_step_ok: "server_step ox sod J s s' \<Longrightarrow> server_ok ox sod s \<Longrightarrow> server_ok ox sod s'"
proof (induction rule: server_step.induct)
  case (sv_item now subscribe i e hm req p ps)
  then show ?case using sub_unsub_item_vouched [OF sv_item.hyps] by (simp add: server_ok_def)
next
  case (sv_validated nowa nowb p success data b hm b' hm' ps qs)
  then show ?case using stored_ok_validated [OF _ _ sv_validated.hyps] by (simp add: server_ok_def)
next
  case (sv_drop service svcid hm n db' ps)
  then have st: "stored_ok ox sod (db hm)" and d: "db' = snd (drop_registration service svcid (db hm))"
    by (simp_all add: server_ok_def)
  from st have ok: "db_ok (db hm)" by (simp add: stored_ok_def)
  have "stored_ok ox sod db'"
    unfolding d drop_registration_def by (rule stored_ok_mono [OF st delete_shrinks(1) [OF ok] delete_shrinks(2) [OF ok]])
  with sv_drop show ?case by (simp add: server_ok_def)
next
  case (sv_cleanup hm ps now)
  then have st: "stored_ok ox sod (db hm)" by (simp add: server_ok_def)
  then have ok: "db_ok (db hm)" by (simp add: stored_ok_def)
  have "stored_ok ox sod (db_cleanup now (db hm))"
    unfolding db_cleanup_def by (rule stored_ok_mono [OF st delete_shrinks(1) [OF ok] delete_shrinks(2) [OF ok]])
  with sv_cleanup show ?case by (simp add: server_ok_def)
qed (simp add: server_ok_def)

definition server_init :: "server \<Rightarrow> bool" where
  "server_init s \<longleftrightarrow> db_ok (db (sv_hm s)) \<and> subscriptions (db (sv_hm s)) = [] \<and> sv_pending s = []"

interpretation server: transition_system server_init "server_step ox sod J" "server_ok ox sod" for ox sod J
proof
  show "server_init s \<Longrightarrow> server_ok ox sod s" for s
    by (simp add: server_init_def server_ok_def stored_ok_def sub_view_def select_subscription_def)
qed (rule server_step_ok)


section \<open>Requests during start-up\<close>

text \<open>
  Requests call their wrapped handler on worker threads while the main thread starts up. A handler
  that finds \<^verbatim>\<open>ready\<close> unset throws; its thread then takes \<^verbatim>\<open>deferred_mutex_\<close> and looks again, and
  either queues the request or calls the handler at once. \<^verbatim>\<open>set_ready\<close> sets the flag under the
  mutex and then empties the queue without it. Each of these atomic actions is a step; \<open>blocked\<close> holds
  the requests whose thread is between its first look and the mutex. \<open>is_draining\<close> says that
  the main thread is in the loop of \<^verbatim>\<open>set_ready\<close>.
\<close>

record 'm startup =
  is_ready :: bool
  is_draining :: bool
  deferred :: "'m list"
  blocked :: "'m multiset"
  handled :: "'m list"
  arrived :: "'m list"

text \<open>\<^verbatim>\<open>defer_request\<close> once it holds the mutex, and what calling a handler does.\<close>

definition call_handler :: "'m \<Rightarrow> 'm startup \<Rightarrow> 'm startup" where
  "call_handler m s =
     (case ready_or_defer (is_ready s) of
        Inl _ \<Rightarrow> s\<lparr>blocked := add_mset m (blocked s)\<rparr>
      | Inr _ \<Rightarrow> s\<lparr>handled := handled s @ [m]\<rparr>)"

definition defer_request :: "'m \<Rightarrow> 'm startup \<Rightarrow> 'm startup" where
  "defer_request m s =
     (if \<not> is_ready s then s\<lparr>deferred := deferred s @ [m]\<rparr> else call_handler m s)"

definition set_ready :: "'m startup \<Rightarrow> 'm startup" where
  "set_ready s = s\<lparr>is_ready := True, is_draining := True\<rparr>"

definition drain_deferred :: "'m startup \<Rightarrow> 'm startup" where
  "drain_deferred s =
     (case deferred s of
        [] \<Rightarrow> s\<lparr>is_draining := False\<rparr>
      | m # ms \<Rightarrow> call_handler m (s\<lparr>deferred := ms\<rparr>))"

inductive startup_step :: "'m startup \<Rightarrow> 'm startup \<Rightarrow> bool" where
  arrive: "startup_step s (call_handler m (s\<lparr>arrived := arrived s @ [m]\<rparr>))"
| lock: "m \<in># blocked s \<Longrightarrow> startup_step s (defer_request m (s\<lparr>blocked := blocked s - {#m#}\<rparr>))"
| flip: "\<not> is_ready s \<Longrightarrow> startup_step s (set_ready s)"
| drain: "is_draining s \<Longrightarrow> startup_step s (drain_deferred s)"

definition startup_init :: "'m startup \<Rightarrow> bool" where
  "startup_init s \<longleftrightarrow> s = \<lparr>is_ready = False, is_draining = False, deferred = [], blocked = {#}, handled = [], arrived = []\<rparr>"

definition startup_ok :: "'m startup \<Rightarrow> bool" where
  "startup_ok s \<longleftrightarrow>
     mset (arrived s) = mset (handled s) + blocked s + mset (deferred s) \<and>
     (\<not> is_ready s \<longrightarrow> handled s = [] \<and> \<not> is_draining s) \<and>
     (is_ready s \<and> \<not> is_draining s \<longrightarrow> deferred s = [])"

lemmas startup_defs = call_handler_def defer_request_def set_ready_def drain_deferred_def ready_or_defer_def guard_r_def

lemma startup_step_ok: "startup_step s t \<Longrightarrow> startup_ok s \<Longrightarrow> startup_ok t"
proof (induction rule: startup_step.induct)
  case (lock m s)
  then obtain rest where "blocked s = add_mset m rest" by (meson multi_member_split)
  with lock show ?case by (auto simp: startup_ok_def startup_defs)
qed (auto simp: startup_ok_def startup_defs split: list.splits)

interpretation startup: transition_system startup_init startup_step startup_ok
proof
  show "startup_init s \<Longrightarrow> startup_ok s" for s :: "'m startup"
    by (simp add: startup_init_def startup_ok_def)
qed (rule startup_step_ok)

text \<open>The work a ready server has left from its start-up.\<close>

definition backlog :: "'m startup \<Rightarrow> nat" where
  "backlog s = size (blocked s) + length (deferred s) + (if is_draining s then 1 else 0)"

text \<open>The actions of the server itself, without the arrival of new requests.\<close>

inductive own_step :: "'m startup \<Rightarrow> 'm startup \<Rightarrow> bool" where
  own_lock: "m \<in># blocked s \<Longrightarrow> own_step s (defer_request m (s\<lparr>blocked := blocked s - {#m#}\<rparr>))"
| own_drain: "is_draining s \<Longrightarrow> own_step s (drain_deferred s)"

lemma own_step_backlog:
  assumes "own_step s t" "is_ready s"
  shows "is_ready t \<and> backlog t < backlog s"
  using assms
proof (induction rule: own_step.induct)
  case (own_lock m s)
  then obtain rest where "blocked s = add_mset m rest" by (meson multi_member_split)
  with own_lock show ?case by (auto simp: backlog_def startup_defs)
qed (auto simp: backlog_def startup_defs split: list.splits)

text \<open>
  C13. No request that arrives during start-up is lost, and none is handled twice, whichever way
  the threads interleave: at every moment the requests that arrived are those handled, those
  deferred and those whose thread is about to look at the flag again. Before the server is ready
  none is handled. Once it is, no step of its own can block, every one brings it closer to
  the end, and when none is left all requests that arrived have been handled.
\<close>

theorem startup_requests_handled_once:
  assumes "reach startup_init startup_step s"
  shows "mset (arrived s) = mset (handled s) + blocked s + mset (deferred s) \<and>
    (\<not> is_ready s \<longrightarrow> handled s = []) \<and>
    (is_ready s \<longrightarrow>
      (\<forall>t. own_step s t \<longrightarrow> is_ready t \<and> backlog t < backlog s) \<and>
      ((\<nexists>t. own_step s t) \<longrightarrow> mset (handled s) = mset (arrived s)))"
proof -
  have ok: "startup_ok s" using assms by (rule startup.reach_invar)
  have "blocked s = {#} \<and> \<not> is_draining s" if "\<nexists>t. own_step s t"
    using that own_step.intros by (metis multiset_nonemptyE)
  with ok own_step_backlog [of s] show ?thesis by (auto simp: startup_ok_def)
qed

section \<open>The outcome of a request\<close>

text \<open>\<^verbatim>\<open>nlohmann::json::parse\<close> reports a malformed document by an exception of the library.\<close>

definition parse_documented :: "'j json_lib \<Rightarrow> bool" where
  "parse_documented J \<longleftrightarrow> (\<forall>s e. j_parse J s = Inl e \<longrightarrow> (\<exists>t. e = json_exception t))"

text \<open>The document of a request whose items can be processed.\<close>

definition usable :: "'j json_lib \<Rightarrow> message \<Rightarrow> bool" where
  "usable J m \<longleftrightarrow> (\<exists>body args. get_body m = Inr body \<and> j_parse J body = Inr args \<and>
     (j_is_array J args \<and> j_elems J args \<noteq> [] \<or> \<not> j_is_array J args \<and> j_is_object J args))"

lemma get_body_error: "get_body m = Inl e \<Longrightarrow> \<exists>t. e = out_of_range t"
  by (cases m rule: get_body.cases) auto

lemma parse_sub_unsub_total:
  assumes "parse_documented J"
  shows "(\<exists>text. parse_sub_unsub J m = Inr (Inl (json_error J m BAD_INPUT text))) \<or>
    (\<exists>body args. get_body m = Inr body \<and> j_parse J body = Inr args \<and> parse_sub_unsub J m = Inr (Inr args) \<and>
       (j_is_array J args \<or> j_is_object J args))"
proof (cases "get_body m")
  case (Inl e)
  then show ?thesis using get_body_error [OF Inl] by (auto simp: parse_sub_unsub_def)
next
  case (Inr body)
  show ?thesis
  proof (cases "j_parse J body")
    case (Inl e)
    then obtain t where "e = json_exception t" using assms unfolding parse_documented_def by blast
    with Inl Inr show ?thesis by (auto simp: parse_sub_unsub_def)
  next
    case args: (Inr args)
    then show ?thesis using Inr by (auto simp: parse_sub_unsub_def)
  qed
qed

lemma on_sub_unsub_impl_outcome:
  assumes doc: "parse_documented J"
  shows "(\<not> started \<longrightarrow> on_sub_unsub_impl ox sod J clock started subscribe m hm = Inl startup_request_defer) \<and>
    (started \<and> usable J m \<longrightarrow> (\<exists>r. on_sub_unsub_impl ox sod J clock started subscribe m hm = Inr (Inr r))) \<and>
    (started \<and> \<not> usable J m \<longrightarrow>
       (\<exists>t. on_sub_unsub_impl ox sod J clock started subscribe m hm = Inr (Inl (json_error J m BAD_INPUT t))))"
proof (cases started)
  case False
  then show ?thesis by (simp add: on_sub_unsub_impl_def ready_or_defer_def guard_r_def)
next
  case True
  consider (refused) t where "parse_sub_unsub J m = Inr (Inl (json_error J m BAD_INPUT t))"
    | (parsed) body args where "get_body m = Inr body" "j_parse J body = Inr args" "parse_sub_unsub J m = Inr (Inr args)"
      "j_is_array J args \<or> j_is_object J args"
    using parse_sub_unsub_total [OF doc, of m] by blast
  then show ?thesis
  proof cases
    case refused
    have "\<not> usable J m" using refused by (auto simp: usable_def parse_sub_unsub_def json_error_def)
    with refused True show ?thesis by (auto simp: on_sub_unsub_impl_def ready_or_defer_def guard_r_def)
  next
    case parsed
    then have us: "usable J m \<longleftrightarrow> request_items J args \<noteq> []" by (auto simp: usable_def request_items_def)
    show ?thesis
      using True parsed(3) unfolding us
      by (auto simp: on_sub_unsub_impl_def ready_or_defer_def guard_r_def Let_def)
  qed
qed

text \<open>
  C15. A subscribe or unsubscribe request never ends in the wrapper's internal error: before the
  server is ready it is deferred; afterwards it is processed if its document is an object or a
  non-empty array, and refused with one BAD\_INPUT reply otherwise. Over QUIC a ping is answered
  at any time and an unknown endpoint is refused the same way.
\<close>

theorem request_outcome:
  assumes "parse_documented J"
  defines "bad m r \<equiv> \<exists>t. r = Finished (Inl (json_error J m BAD_INPUT t))"
  shows "(\<forall>handler \<in> {on_subscribe ox sod J clock started m hm, on_unsubscribe ox sod J clock started m hm}.
      if \<not> started then handler = Deferred
      else if usable J m then (\<exists>r. handler = Finished (Inr r)) else bad m handler) \<and>
    on_quic_request ox sod J clock started ''ping'' body hm = Finished (Inl (respond ''pong'' False)) \<and>
    (endpoint \<notin> {''subscribe'', ''unsubscribe'', ''ping''} \<longrightarrow>
       bad (quic_message endpoint body) (on_quic_request ox sod J clock started endpoint body hm))"
proof -
  have h: "if \<not> started then h = Deferred else if usable J m then (\<exists>r. h = Finished (Inr r)) else bad m h"
    if "h = ExcWrapper J m (on_sub_unsub_impl ox sod J clock started subscribe m hm)" for h subscribe
    using on_sub_unsub_impl_outcome [OF assms(1), of started ox sod clock subscribe m hm] that
    by (auto simp: ExcWrapper_def bad_def)
  have "on_quic_request ox sod J clock started ''ping'' body hm = Finished (Inl (respond ''pong'' False))"
    by (simp add: on_quic_request_def)
  moreover have "bad (quic_message endpoint body) (on_quic_request ox sod J clock started endpoint body hm)"
    if "endpoint \<notin> {''subscribe'', ''unsubscribe'', ''ping''}"
    unfolding bad_def on_quic_request_def Let_def using that by auto
  ultimately show ?thesis
    unfolding on_subscribe_def on_unsubscribe_def using h by blast
qed

section \<open>Witnesses of the requests\<close>

text \<open>A signature scheme in which a signature of a key is any text that begins with it.\<close>

definition signing_sodium :: sodium_lib where
  "signing_sodium = sample_sodium\<lparr>sign_verify_detached := (\<lambda>sg msg pk. if take 32 sg = pk then 0 else - 1)\<rparr>"

definition sample_item :: json where
  "sample_item = JObj
     [(''pubkey'', JStr (as_sv (sample_account 1))), (''signature'', JStr (as_sv (replicate 64 1))),
      (''sig_ts'', JInt 1700000000), (''service'', JStr ''apns''), (''service_info'', JNull),
      (''enc_key'', JStr (as_sv (replicate 32 2))), (''namespaces'', JArr [JInt 0, JInt 5]), (''data'', JBool True)]"

definition empty_hm :: HiveMind where
  "empty_hm = \<lparr>db = empty_DB, net = start_net\<lparr>subscribers := []\<rparr>, services = [(''apns'', 7)]\<rparr>"

definition signed_sub :: Subscription where
  "signed_sub = \<lparr>subaccount = None, namespaces = [0, 5], want_data = True, sig_ts = 1700000000, sig = replicate 64 1\<rparr>"

definition sample_pending :: pending where
  "sample_pending = \<lparr>pd_index = 0, pd_service = ''apns'', pd_pubkey = sample_pk 1,
     pd_action = Subscribe_action signed_sub (replicate 32 2)\<rparr>"

lemma from_hex_or_b64_raw: "length b = n \<Longrightarrow> from_hex_or_b64 ox n (as_sv b) = Inr b"
  by (simp add: from_hex_or_b64_def)

lemma sample_item_args:
  "sub_unsub_args sample_oxenc signing_sodium (sample_json doc) sample_item =
     Inr \<lparr>arg_pubkey = sample_pk 1, arg_subaccount = None, arg_sig_ts = 1700000000, arg_sig = replicate 64 1,
          arg_service = ''apns'', arg_service_info = JNull\<rparr>"
proof -
  have "hd (sample_account 1) \<noteq> 5" by (simp add: sample_account_def)
  moreover have "SwarmPubkey_ctor sample_oxenc signing_sodium (sample_account 1) None False = Inr (sample_pk 1)"
    by (simp add: SwarmPubkey_ctor_def Let_def sample_pk_def) (simp add: sample_account_def)
  moreover have "from_hex_or_b64 sample_oxenc AccountID_SIZE (as_sv (sample_account 1)) = Inr (sample_account 1)"
    by (rule from_hex_or_b64_raw) (simp add: AccountID_SIZE_def sample_account_def)
  moreover have "from_hex_or_b64 sample_oxenc Signature_SIZE (as_sv (replicate 64 1)) = Inr (replicate 64 1)"
    by (rule from_hex_or_b64_raw) (simp add: Signature_SIZE_def)
  ultimately show ?thesis
    by (simp add: sub_unsub_args_def string_at_def subaccount_arg_def sample_json_def sample_item_def sample_at_def
        is_int64_def int64_min_def int64_max_def)
qed

lemma signed_sub_accepted:
  "Subscription_ctor sample_oxenc signing_sodium (sample_pk 1) None [0, 5] True 1700000000 (replicate 64 1) False 1700000100 =
     Inr signed_sub"
  by (simp add: Subscription_ctor_def guard_r_def sub64_def wrap64_def SIGNATURE_EXPIRY_def SIGNATURE_EARLY_def
      verify_storage_signature_def verify_signature_def signing_sodium_def sample_pk_def signed_sub_def)

lemma sample_item_accepted:
  "sub_unsub_item sample_oxenc signing_sodium (sample_json (Inr sample_item)) 1700000100 True 0 sample_item empty_hm =
     Inr ((7, ''apns'', []), sample_pending)"
proof -
  have "from_hex_or_b64 sample_oxenc EncKey_SIZE (as_sv (replicate 32 2)) = Inr (replicate 32 2)"
    by (rule from_hex_or_b64_raw) (simp add: EncKey_SIZE_def)
  moreover have "j_int16s (sample_json (Inr sample_item)) (JArr [JInt 0, JInt 5]) = Inr [0, 5]"
    by (simp add: sample_json_def is_int16_def)
  ultimately show ?thesis
    by (simp add: sub_unsub_item_def sample_item_args sub_unsub_service_conn_def empty_hm_def at_param_def
        signed_sub_accepted sample_pending_def)
     (simp add: sample_item_def sample_json_def sample_at_def is_int64_def int64_min_def int64_max_def
        is_int16_def signed_sub_accepted sample_pending_def)
qed

definition sample_sid :: string where "sample_sid = replicate 32 (CHR ''x'')"

lemma sample_pending_wf: "pending_wf sample_pending"
  by (simp add: pending_wf_def sample_pending_def signed_sub_def wf_Subscription_def)

lemma empty_hm_ok: "db_ok (db empty_hm)"
  by (simp add: empty_hm_def empty_DB_def db_ok_def)

lemma sample_validated:
  "\<exists>msg extra hm'. validation_result sample_oxenc signing_sodium J nowa nowb sample_pending True [''0'', sample_sid] empty_hm =
     Inr (0, msg, extra, hm')"
proof -
  have room: "stats_room (Suc (Suc 0)) (db empty_hm)"
    by (simp add: stats_room_def empty_hm_def empty_DB_def int64_max_def)
  have "sorted_wrt (<) (namespaces signed_sub)" by (simp add: signed_sub_def)
  then obtain new d where "upsert_subscription (account_id (sample_pk 1), ''apns'', sample_sid)
      (vals_of (sample_pk 1) signed_sub (replicate 32 2) None, namespaces signed_sub) (db empty_hm) = Inr (new, d)"
    using upsert_subscription_commits [OF empty_hm_ok _ room] by blast
  then obtain hm' where "add_subscription (sample_pk 1) ''apns'' sample_sid None (replicate 32 2) signed_sub empty_hm = Inr (new, hm')"
    by (simp add: add_subscription_def add_subscription_tx_def)
  moreover have "parse_int (- (2 ^ 31)) (2 ^ 31 - 1) ''0'' = Some 0" by code_simp
  ultimately show ?thesis
    by (simp add: validation_result_def apply_action_def sample_pending_def guard_r_def SERVICE_ID_MIN_SIZE_def
        SERVICE_ID_MAX_SIZE_def sample_sid_def)
qed

theorem on_notifier_validation_spec_witness:
  "case validation_response sample_oxenc signing_sodium (sample_json (Inr JNull)) 0 0 sample_pending True [''0'', sample_sid] empty_hm of
     (members, hm') \<Rightarrow> map_of members ''success'' \<noteq> None \<and> sub_view (db hm') (sample_account 1, ''apns'', sample_sid) \<noteq> None"
proof -
  obtain members hm' where r: "validation_response sample_oxenc signing_sodium (sample_json (Inr JNull)) 0 0 sample_pending True
      [''0'', sample_sid] empty_hm = (members, hm')" by (metis prod.exhaust)
  have "map_of members ''success'' \<noteq> None"
    using sample_validated [of "sample_json (Inr JNull)" 0 0] r
    by (auto simp: validation_response_def map_add_def split: option.splits)
  with on_notifier_validation_spec [OF empty_hm_ok sample_pending_wf, where ox = sample_oxenc and sod = signing_sodium
      and J = "sample_json (Inr JNull)" and nowa = 0 and nowb = 0 and success = True and data = "[''0'', sample_sid]"] r
  show ?thesis by (simp add: action_effect_def sample_pending_def sample_pk_def split: if_splits)
qed


theorem request_answered_once_witness:
  "\<exists>b. reach (\<lambda>r. r = batch_start (sample_json (Inr JNull)) True [JNull]) (batch_step sample_oxenc signing_sodium (sample_json (Inr JNull)) True)
       \<lparr>br_batch = b, br_todo = [], br_pending = []\<rparr> \<and>
     sent b = [j_dump (sample_json (Inr JNull)) (j_array (sample_json (Inr JNull)) (responses b))] \<and> length (responses b) = 1"
proof -
  let ?J = "sample_json (Inr JNull)"
  have "sub_unsub_item sample_oxenc signing_sodium ?J 0 True 0 JNull empty_hm = Inl (json_exception ''key not found'')"
    by (simp add: sub_unsub_item_def sub_unsub_args_def string_at_def sample_json_def sample_at_def)
  then obtain b where "sub_unsub_step sample_oxenc signing_sodium ?J (\<lambda>_. 0) True empty_hm 0 JNull
      (new_batch ?J True [JNull], []) = (b, [])"
    by (simp add: sub_unsub_step_def)
  from batch_step.item_step [OF this, of "[]" "[]"]
  have st: "batch_step sample_oxenc signing_sodium ?J True (batch_start ?J True [JNull]) \<lparr>br_batch = b, br_todo = [], br_pending = []\<rparr>"
    by (simp add: batch_start_def)
  have r: "reach (\<lambda>r. r = batch_start ?J True [JNull]) (batch_step sample_oxenc signing_sodium ?J True)
       \<lparr>br_batch = b, br_todo = [], br_pending = []\<rparr>"
    using st by (rule reach.reach_step [rotated]) (rule reach.reach_init, rule refl)
  from request_answered_once [OF sample_json_documented _ r] r show ?thesis by auto
qed

theorem on_sub_unsub_impl_run_witness:
  "\<exists>b reqs. on_sub_unsub_impl sample_oxenc signing_sodium (sample_json (Inr sample_item)) (\<lambda>_. 1700000100) True True
       (omq_message [[]]) empty_hm = Inr (Inr (b, reqs)) \<and> map snd reqs = [sample_pending] \<and>
     reach (\<lambda>r. r = batch_start (sample_json (Inr sample_item)) False [sample_item])
       (batch_step sample_oxenc signing_sodium (sample_json (Inr sample_item)) True)
       \<lparr>br_batch = b, br_todo = [], br_pending = [sample_pending]\<rparr>"
proof -
  let ?J = "sample_json (Inr sample_item)"
  have items: "request_items ?J sample_item = [sample_item]" "\<not> j_is_array ?J sample_item" "j_is_object ?J sample_item"
    "j_parse ?J s = Inr sample_item" for s
    by (simp_all add: request_items_def sample_json_def sample_item_def)
  have run: "on_sub_unsub_impl sample_oxenc signing_sodium ?J (\<lambda>_. 1700000100) True True (omq_message [[]]) empty_hm =
      Inr (Inr (new_batch ?J False [sample_item], [((7, ''apns'', []), sample_pending)]))"
    by (simp add: on_sub_unsub_impl_def ready_or_defer_def guard_r_def parse_sub_unsub_def items Let_def
        sub_unsub_step_def sample_item_accepted)
  from on_sub_unsub_impl_run [OF run] run show ?thesis by (auto simp: items)
qed

theorem startup_requests_handled_once_witness:
  "\<exists>s. reach startup_init startup_step s \<and> is_ready s \<and> arrived s = [''a'', ''b''] \<and> deferred s = [''a''] \<and>
     mset (handled s) + blocked s = {#''b''#}"
proof -
  let ?start = "\<lparr>is_ready = False, is_draining = False, deferred = [], blocked = {#}, handled = [], arrived = []\<rparr> :: string startup"
  let ?a = "call_handler ''a'' (?start\<lparr>arrived := [''a'']\<rparr>)"
  let ?b = "defer_request ''a'' (?a\<lparr>blocked := {#}\<rparr>)"
  let ?c = "call_handler ''b'' (?b\<lparr>arrived := [''a'', ''b'']\<rparr>)"
  have "reach startup_init startup_step ?start" by (rule reach.reach_init) (simp add: startup_init_def)
  then have "reach startup_init startup_step ?a"
    using startup_step.arrive [of ?start "''a''"] by (auto intro: reach.reach_step)
  then have "reach startup_init startup_step ?b"
    using startup_step.lock [of "''a''" ?a] by (auto simp: startup_defs intro: reach.reach_step)
  then have "reach startup_init startup_step ?c"
    using startup_step.arrive [of ?b "''b''"] by (auto simp: startup_defs intro: reach.reach_step)
  then have r: "reach startup_init startup_step (set_ready ?c)"
    using startup_step.flip [of ?c] by (auto simp: startup_defs intro: reach.reach_step)
  from startup_requests_handled_once [OF r] r show ?thesis
    by (intro exI [of _ "set_ready ?c"]) (simp add: startup_defs)
qed

theorem request_outcome_witness:
  "on_subscribe sample_oxenc signing_sodium (sample_json (Inr JNull)) (\<lambda>_. 0) False (omq_message []) empty_hm = Deferred \<and>
   (\<exists>t. on_subscribe sample_oxenc signing_sodium (sample_json (Inr JNull)) (\<lambda>_. 0) True (omq_message []) empty_hm =
     Finished (Inl (json_error (sample_json (Inr JNull)) (omq_message []) BAD_INPUT t)))"
proof -
  have doc: "parse_documented (sample_json (Inr JNull))" by (simp add: parse_documented_def sample_json_def)
  have "\<not> usable (sample_json (Inr JNull)) (omq_message [])" by (simp add: usable_def)
  then show ?thesis
    using request_outcome [OF doc, where ox = sample_oxenc and sod = signing_sodium and clock = "\<lambda>_. 0" and hm = empty_hm
        and m = "omq_message []" and started = False]
      request_outcome [OF doc, where ox = sample_oxenc and sod = signing_sodium and clock = "\<lambda>_. 0" and hm = empty_hm
        and m = "omq_message []" and started = True] by simp
qed

end
