(* ===== verification/Notifications.thy ===== *)
theory Notifications
  imports Requests
begin

text \<open>
  Message notifications and the notifier services (\<^verbatim>\<open>spns/hivemind.cpp\<close>, lines 408-435, 527-553 and
  585-1022): registration of services, the thread that collects notifications from the service
  nodes, the de-duplication filters, the push messages, statistics and dropped registrations.
\<close>

section \<open>The bt-encoding library\<close>

text \<open>
  oxenc's consumers and producers, as a parameter. A consumer \<open>'d\<close> is read from the front;
  \<open>bt_items\<close> and \<open>bt_pairs\<close> name what a list or dict consumer has left, \<open>bt_encode\<close> the text of a
  dict producer.
\<close>

record 'd bt_lib =
  bt_dict_consumer :: "string \<Rightarrow> 'd result"
  bt_list_consumer :: "string \<Rightarrow> 'd result"
  bt_skip_until :: "string \<Rightarrow> 'd \<Rightarrow> (bool \<times> 'd) result"
  bt_consume_string :: "'d \<Rightarrow> (string \<times> 'd) result"
  bt_consume_integer :: "(int \<Rightarrow> bool) \<Rightarrow> 'd \<Rightarrow> (int \<times> 'd) result"
  bt_maybe_string :: "string \<Rightarrow> 'd \<Rightarrow> (string option \<times> 'd) result"
  bt_key :: "'d \<Rightarrow> string result"
  bt_is_integer :: "'d \<Rightarrow> bool"
  bt_is_string :: "'d \<Rightarrow> bool"
  bt_more :: "'d \<Rightarrow> bool"
  bt_is_finished :: "'d \<Rightarrow> bool"
  bt_pairs :: "'d \<Rightarrow> (string \<times> bt) list"
  bt_items :: "'d \<Rightarrow> bt list"
  bt_encode :: "(string \<times> bt) list \<Rightarrow> string"

text \<open>
  What the handlers rely on: a consumer is finished when nothing is left, and consuming a value
  takes the first one off and returns it.
\<close>

definition bt_reads_documented :: "'d bt_lib \<Rightarrow> bool" where
  "bt_reads_documented B \<longleftrightarrow>
     (\<forall>d. bt_more B d \<longleftrightarrow> bt_pairs B d \<noteq> []) \<and> (\<forall>d. bt_is_finished B d \<longleftrightarrow> bt_items B d = []) \<and>
     (\<forall>d k. bt_key B d = Inr k \<longrightarrow> (\<exists>v rest. bt_pairs B d = (k, v) # rest)) \<and>
     (\<forall>d s d'. bt_consume_string B d = Inr (s, d') \<and> bt_items B d \<noteq> [] \<longrightarrow> bt_items B d = BtStr s # bt_items B d') \<and>
     (\<forall>d s d'. bt_consume_string B d = Inr (s, d') \<and> bt_pairs B d \<noteq> [] \<longrightarrow> (\<exists>k. bt_pairs B d = (k, BtStr s) # bt_pairs B d')) \<and>
     (\<forall>ok d i d'. bt_consume_integer B ok d = Inr (i, d') \<longrightarrow> ok i) \<and>
     (\<forall>ok d i d'. bt_consume_integer B ok d = Inr (i, d') \<and> bt_pairs B d \<noteq> [] \<longrightarrow>
        (\<exists>k. bt_pairs B d = (k, BtInt i) # bt_pairs B d'))"

text \<open>The size of a dict of strings and integers in the encoding: \<^verbatim>\<open>d\<close>, the keys and values, \<^verbatim>\<open>e\<close>.\<close>

definition bt_string_size :: "string \<Rightarrow> nat" where
  "bt_string_size s = length (to_chars (int (length s))) + 1 + length s"

fun bt_value_size :: "bt \<Rightarrow> nat" where
  "bt_value_size (BtInt i) = length (to_chars i) + 2"
| "bt_value_size (BtStr s) = bt_string_size s"
| "bt_value_size _ = 0"

definition bt_sizes_documented :: "'d bt_lib \<Rightarrow> bool" where
  "bt_sizes_documented B \<longleftrightarrow>
     (\<forall>kvs. list_all (\<lambda>(k, v). \<exists>s i. v = BtStr s \<or> v = BtInt i) kvs \<longrightarrow>
        length (bt_encode B kvs) = 2 + sum_list (map (\<lambda>(k, v). bt_string_size k + bt_value_size v) kvs))"

section \<open>Notifier services\<close>

definition SERVICE_NAME_MAX_SIZE :: nat where "SERVICE_NAME_MAX_SIZE = 32"
definition MSG_HASH_MIN_SIZE :: nat where "MSG_HASH_MIN_SIZE = 32"
definition MSG_HASH_MAX_SIZE :: nat where "MSG_HASH_MAX_SIZE = 99"

text \<open>\<open>cid\<close> is the connection the request came from; a bad request is logged and dropped.\<close>

definition on_reg_service :: "string list \<Rightarrow> nat \<Rightarrow> HiveMind \<Rightarrow> HiveMind" where
  "on_reg_service parts cid hm =
     (if length parts \<noteq> 1 then hm
      else
        let service = parts ! 0 in
        if service = [] then hm
        else if length service > 32 then hm
        else (case map_of (services hm) service of
                None \<Rightarrow> hm\<lparr>services := (service, cid) # services hm\<rparr>
              | Some c \<Rightarrow> if cid \<noteq> c then hm\<lparr>services := AList.update service cid (services hm)\<rparr> else hm))"

text \<open>The result and whether the time-out is warned about.\<close>

definition notifier_startup_done :: "string list \<Rightarrow> nanos \<Rightarrow> nanos \<Rightarrow> HiveMind \<Rightarrow> bool \<times> bool" where
  "notifier_startup_done notifiers_expected wait_until now hm =
     (let missing = filter (\<lambda>s. map_of (services hm) s = None) notifiers_expected in
      if notifiers_expected \<noteq> [] \<and> missing = [] then (True, False)
      else let done_waiting = now > wait_until in (done_waiting, done_waiting \<and> notifiers_expected \<noteq> []))"

section \<open>Incoming notifications\<close>

record notification =
  n_account :: bytes
  n_hash :: string
  n_ns :: int
  n_timestamp :: int
  n_expiry :: int
  n_data :: "string option"

text \<open>Reading the dict of a storage server; \<open>None\<close> stands for a warning and \<^verbatim>\<open>continue\<close>.\<close>

definition required :: "'d bt_lib \<Rightarrow> string \<Rightarrow> ('d \<Rightarrow> 'a option result) \<Rightarrow> 'd \<Rightarrow> 'a option result" where
  "required B key k d = bind_r (bt_skip_until B key d) (\<lambda>(found, d'). if found then k d' else Inr None)"

definition parse_notification :: "'d bt_lib \<Rightarrow> string \<Rightarrow> notification option result" where
  "parse_notification B body =
     bind_r (bt_dict_consumer B body) (
     required B ''@'' (\<lambda>d. bind_r (bt_consume_string B d) (\<lambda>(account_str, d).
     if length account_str \<noteq> AccountID_SIZE then Inr None else
     required B ''h'' (\<lambda>d. bind_r (bt_consume_string B d) (\<lambda>(hash, d).
     if length hash < MSG_HASH_MIN_SIZE \<or> length hash > MSG_HASH_MAX_SIZE then Inr None else
     required B ''n'' (\<lambda>d. bind_r (bt_consume_integer B is_int16 d) (\<lambda>(ns, d).
     required B ''t'' (\<lambda>d. bind_r (bt_consume_integer B is_int64 d) (\<lambda>(timestamp_ms, d).
     required B ''z'' (\<lambda>d. bind_r (bt_consume_integer B is_int64 d) (\<lambda>(expiry_ms, d).
     bind_r (bt_maybe_string B ''~'' d) (\<lambda>(maybe_data, d).
     Inr (Some \<lparr>n_account = as_bytes account_str, n_hash = hash, n_ns = ns, n_timestamp = timestamp_ms,
                n_expiry = expiry_ms, n_data = maybe_data\<rparr>)))) d)) d)) d)) d)))"

section \<open>Push messages\<close>

text \<open>The buffer estimate and the dict of a push, for one row of the query.\<close>

fun size_needed :: "notification \<Rightarrow> notify_row \<Rightarrow> nat" where
  "size_needed n (wd, enc_key, service, svcid, svc_data) =
     2 + 35 + (3 + 21 + length svcid) + (3 + 35) + (3 + 21 + length (n_hash n)) + (3 + 36) + (3 + 8) + (3 + 15) + (3 + 15) +
     (case svc_data of Some d \<Rightarrow> 3 + 21 + length d | None \<Rightarrow> 0) +
     (if wd then (case n_data n of Some d \<Rightarrow> 3 + 21 + length d | None \<Rightarrow> 0) else 0)"

fun push_dict :: "notification \<Rightarrow> notify_row \<Rightarrow> (string \<times> bt) list" where
  "push_dict n (wd, enc_key, service, svcid, svc_data) =
     [('''', BtStr service)] @
     (case svc_data of Some d \<Rightarrow> [(''!'', BtStr d)] | None \<Rightarrow> []) @
     [(''#'', BtStr (n_hash n)), (''&'', BtStr svcid), (''@'', BtStr (as_sv (n_account n))),
      (''^'', BtStr (as_sv enc_key)), (''n'', BtInt (n_ns n)), (''t'', BtInt (n_timestamp n)), (''z'', BtInt (n_expiry n))] @
     (if wd then (case n_data n of Some d \<Rightarrow> [(''~'', BtStr d)] | None \<Rightarrow> []) else [])"

text \<open>A dict producer over a buffer throws when the text does not fit.\<close>

definition build_push :: "'d bt_lib \<Rightarrow> nat \<Rightarrow> notification \<Rightarrow> notify_row \<Rightarrow> string result" where
  "build_push B buf n row =
     (let text = bt_encode B (push_dict n row)
      in if length text \<le> buf then Inr text else Inl (bt_error ''Cannot write bt data: insufficient space''))"

section \<open>De-duplication\<close>

text \<open>
  The filters and the time of the next rotation, with the messages sent so far: the time, the
  filter value, the connection and the text of each push.
\<close>

record notifier =
  filter_cur :: "bytes set"
  filter_rotate :: "bytes set"
  filter_rotate_time :: nanos
  sent_pushes :: "(nanos \<times> bytes \<times> nat \<times> string) list"
  buf_size :: nat

definition rotate_filters :: "seconds \<Rightarrow> nanos \<Rightarrow> notifier \<Rightarrow> notifier" where
  "rotate_filters filter_lifetime now nt =
     (if now \<ge> filter_rotate_time nt
      then nt\<lparr>filter_rotate := filter_cur nt, filter_cur := {},
              filter_rotate_time := now + filter_lifetime * nanos_per_sec\<rparr>
      else nt)"

definition filter_val :: "sodium_lib \<Rightarrow> notification \<Rightarrow> notify_row \<Rightarrow> bytes" where
  "filter_val sod n row =
     (case row of (_, _, service, svcid, _) \<Rightarrow> blake2b sod [HBytes service, HBytes svcid, HBytes (n_hash n)])"

text \<open>The body of the loop over the rows; the result says whether a push was sent.\<close>

definition push_row ::
  "'d bt_lib \<Rightarrow> sodium_lib \<Rightarrow> (string \<times> nat) list \<Rightarrow> nanos \<Rightarrow> notification \<Rightarrow> notify_row \<Rightarrow> notifier \<Rightarrow> bool \<times> notifier" where
  "push_row B sod svcs now n row nt =
     (let filt_hash = filter_val sod n row in
      if filt_hash \<in> filter_rotate nt \<or> filt_hash \<in> filter_cur nt then (False, nt)
      else
        let nt1 = nt\<lparr>filter_cur := insert filt_hash (filter_cur nt)\<rparr> in
        case map_of svcs (fst (snd (snd row))) of
          None \<Rightarrow> (False, nt1)
        | Some cid \<Rightarrow>
            let nt2 = nt1\<lparr>buf_size := max (buf_size nt1) (size_needed n row)\<rparr> in
            (case build_push B (buf_size nt2) n row of
               Inl _ \<Rightarrow> (False, nt2)
             | Inr text \<Rightarrow> (True, nt2\<lparr>sent_pushes := sent_pushes nt2 @ [(now, filt_hash, cid, text)]\<rparr>)))"

fun push_rows ::
  "'d bt_lib \<Rightarrow> sodium_lib \<Rightarrow> (string \<times> nat) list \<Rightarrow> nanos \<Rightarrow> notification \<Rightarrow> notify_row list \<Rightarrow> nat \<times> notifier \<Rightarrow> nat \<times> notifier" where
  "push_rows B sod svcs now n [] s = s"
| "push_rows B sod svcs now n (row # rows) (k, nt) =
     (case push_row B sod svcs now n row nt of
        (sent_it, nt') \<Rightarrow> push_rows B sod svcs now n rows (if sent_it then k + 1 else k, nt'))"

text \<open>One message: whatever its parsing throws is logged, and the next one is taken.\<close>

definition process_message ::
  "'d bt_lib \<Rightarrow> sodium_lib \<Rightarrow> HiveMind \<Rightarrow> nanos \<Rightarrow> string \<Rightarrow> nat \<times> notifier \<Rightarrow> nat \<times> notifier" where
  "process_message B sod hm now body s =
     (case parse_notification B body of
        Inl _ \<Rightarrow> s
      | Inr None \<Rightarrow> s
      | Inr (Some n) \<Rightarrow> push_rows B sod (services hm) now n (notify_query (n_account n) (n_ns n) (db hm)) s)"

text \<open>
  The loop's call for one batch of messages. The pushes go out as the messages are worked
  through; the statistics are committed at the end.
\<close>

definition process_batch ::
  "'d bt_lib \<Rightarrow> sodium_lib \<Rightarrow> seconds \<Rightarrow> nanos \<Rightarrow> string list \<Rightarrow> HiveMind \<Rightarrow> notifier \<Rightarrow> notifier \<times> HiveMind result" where
  "process_batch B sod filter_lifetime now msgs hm nt =
     (case fold (process_message B sod hm now) msgs (0, rotate_filters filter_lifetime now (nt\<lparr>buf_size := 0\<rparr>)) of
        (notify_count, nt') \<Rightarrow>
          (nt', bind_r (increment_stat '''' ''notifications'' (int notify_count) (db hm)) (\<lambda>db1.
                bind_r (increment_stat '''' ''pushes'' (int (length msgs)) db1) (\<lambda>db2.
                Inr (hm\<lparr>db := db2\<rparr>)))))"

section \<open>Collecting batches\<close>

text \<open>
  What the thread's socket delivers: the stop command, the pointer to a message, anything else, or
  nothing waiting (only a non-blocking receive reports that). The state is whether the next
  receive blocks and the messages collected; the output is a batch to process.
\<close>

datatype proc_cmd = CMD_QUIT | CMD_PUSH string | CMD_OTHER

record receiver =
  blocking :: bool
  process :: "string list"

definition MAX_BATCH :: nat where "MAX_BATCH = 100"

datatype recv_action = Quit | Continue | Process "string list"

definition recv_step :: "proc_cmd option \<Rightarrow> receiver \<Rightarrow> recv_action \<times> receiver" where
  "recv_step cmd rc =
     (if cmd = Some CMD_QUIT then (Quit, rc)
      else
        let rc1 = (case cmd of
                     Some (CMD_PUSH m) \<Rightarrow> rc\<lparr>process := process rc @ [m], blocking := False\<rparr>
                   | Some _ \<Rightarrow> rc\<lparr>blocking := False\<rparr>
                   | None \<Rightarrow> rc\<lparr>blocking := True\<rparr>)
        in if process rc1 = [] \<or> (\<not> blocking rc1 \<and> length (process rc1) < MAX_BATCH) then (Continue, rc1)
           else (Process (process rc1), rc1\<lparr>process := []\<rparr>))"

fun recv_loop :: "proc_cmd option list \<Rightarrow> receiver \<Rightarrow> string list list \<times> receiver" where
  "recv_loop [] rc = ([], rc)"
| "recv_loop (cmd # cmds) rc =
     (case recv_step cmd rc of
        (Quit, rc') \<Rightarrow> ([], rc')
      | (Continue, rc') \<Rightarrow> recv_loop cmds rc'
      | (Process b, rc') \<Rightarrow> (case recv_loop cmds rc' of (bs, rc'') \<Rightarrow> (b # bs, rc'')))"

section \<open>Push messages fit their buffer\<close>

lemma bt_string_size_le: "0 < k \<Longrightarrow> length s < 10 ^ k \<Longrightarrow> bt_string_size s \<le> k + 1 + length s"
  using length_nat_chars_le [of k "length s"] by (simp add: bt_string_size_def to_chars_def)

lemma bt_string_size_any: "length s < 2 ^ 64 \<Longrightarrow> bt_string_size s \<le> 21 + length s"
  using bt_string_size_le [of 20 s] by simp

lemma to_chars_int64: "is_int64 i \<Longrightarrow> length (to_chars i) \<le> 20"
proof -
  assume i: "is_int64 i"
  have "nat (- i) < 10 ^ 19" "nat i < 10 ^ 19"
    using i by (auto simp: is_int64_def int64_min_def int64_max_def)
  then show ?thesis
    using length_nat_chars_le [of 19 "nat (- i)"] length_nat_chars_le [of 19 "nat i"] by (simp add: to_chars_def)
qed

lemma to_chars_int16: "is_int16 i \<Longrightarrow> length (to_chars i) \<le> 6"
proof -
  assume i: "is_int16 i"
  have "nat (- i) < 10 ^ 5" "nat i < 10 ^ 5" using i by (auto simp: is_int16_def)
  then show ?thesis
    using length_nat_chars_le [of 5 "nat (- i)"] length_nat_chars_le [of 5 "nat i"] by (simp add: to_chars_def)
qed

text \<open>What the parser and the database guarantee of a notification and a row.\<close>

definition notification_ok :: "notification \<Rightarrow> bool" where
  "notification_ok n \<longleftrightarrow>
     length (n_account n) = 33 \<and> 32 \<le> length (n_hash n) \<and> length (n_hash n) \<le> 99 \<and> is_int16 (n_ns n) \<and>
     is_int64 (n_timestamp n) \<and> is_int64 (n_expiry n) \<and> (\<forall>d. n_data n = Some d \<longrightarrow> length d < 2 ^ 64)"

fun row_ok :: "notify_row \<Rightarrow> bool" where
  "row_ok (wd, enc_key, service, svcid, svc_data) \<longleftrightarrow>
     length enc_key = 32 \<and> length svcid < 2 ^ 64 \<and> (\<forall>d. svc_data = Some d \<longrightarrow> length d < 2 ^ 64)"

lemma push_dict_plain: "list_all (\<lambda>(k, v). \<exists>s i. v = BtStr s \<or> v = BtInt i) (push_dict n row)"
  by (cases row) (auto split: option.splits)

lemma push_dict_size:
  assumes n: "notification_ok n" and row: "row_ok row" and svc: "length (fst (snd (snd row))) \<le> 32"
  shows "2 + sum_list (map (\<lambda>(k, v). bt_string_size k + bt_value_size v) (push_dict n row)) \<le> size_needed n row"
proof -
  obtain wd enc service svcid svc_data where r: "row = (wd, enc, service, svcid, svc_data)" by (metis prod.exhaust)
  have key: "bt_string_size [] = 2" "bt_string_size [c] = 3" for c
    by (simp_all add: bt_string_size_def to_chars_def nat_chars.simps)
  have "bt_string_size service \<le> 35" using bt_string_size_le [of 2 service] svc r by simp
  moreover have "bt_string_size (n_hash n) \<le> 3 + length (n_hash n)"
    using bt_string_size_le [of 2 "n_hash n"] n by (simp add: notification_ok_def)
  moreover have "bt_string_size svcid \<le> 21 + length svcid" using bt_string_size_any row r by simp
  moreover have "bt_string_size (as_sv (n_account n)) \<le> 36"
    using bt_string_size_le [of 2 "as_sv (n_account n)"] n by (simp add: notification_ok_def)
  moreover have "bt_string_size (as_sv enc) \<le> 35" using bt_string_size_le [of 2 "as_sv enc"] row r by simp
  moreover have "length (to_chars (n_ns n)) \<le> 6" "length (to_chars (n_timestamp n)) \<le> 20" "length (to_chars (n_expiry n)) \<le> 20"
    using n by (simp_all add: notification_ok_def to_chars_int64 to_chars_int16)
  moreover have "sum_list (map (\<lambda>(k, v). bt_string_size k + bt_value_size v)
      (case svc_data of Some d \<Rightarrow> [(''!'', BtStr d)] | None \<Rightarrow> [])) \<le> (case svc_data of Some d \<Rightarrow> 3 + 21 + length d | None \<Rightarrow> 0)"
    using row r bt_string_size_any by (auto simp: key split: option.splits)
  moreover have "sum_list (map (\<lambda>(k, v). bt_string_size k + bt_value_size v)
      (if wd then (case n_data n of Some d \<Rightarrow> [(''~'', BtStr d)] | None \<Rightarrow> []) else [])) \<le>
      (if wd then (case n_data n of Some d \<Rightarrow> 3 + 21 + length d | None \<Rightarrow> 0) else 0)"
    using n bt_string_size_any by (auto simp: key notification_ok_def split: option.splits)
  ultimately show ?thesis
    unfolding r push_dict.simps size_needed.simps map_append sum_list.append list.map sum_list.Cons sum_list.Nil
      prod.case key bt_value_size.simps by linarith
qed

lemma push_text_size:
  assumes "bt_sizes_documented B" "notification_ok n" "row_ok row" "length (fst (snd (snd row))) \<le> 32"
  shows "length (bt_encode B (push_dict n row)) \<le> size_needed n row"
proof -
  have "length (bt_encode B (push_dict n row)) =
      2 + sum_list (map (\<lambda>(k, v). bt_string_size k + bt_value_size v) (push_dict n row))"
    using assms(1) push_dict_plain unfolding bt_sizes_documented_def by blast
  with push_dict_size [OF assms(2-4)] show ?thesis by simp
qed

text \<open>
  C31. The size estimate is always enough although it allows 15 bytes for an integer of up to 22 and
  nothing for the dict's delimiters: for every service name, service id, message hash, namespace
  and 64-bit timestamp that can occur, the push message fits the buffer and is built.
\<close>

theorem push_fits_buffer:
  assumes "bt_sizes_documented B" "notification_ok n" "row_ok row" "length (fst (snd (snd row))) \<le> SERVICE_NAME_MAX_SIZE"
    "size_needed n row \<le> buf"
  shows "build_push B buf n row = Inr (bt_encode B (push_dict n row))"
  using push_text_size [OF assms(1-3)] assms(4,5) by (simp add: build_push_def SERVICE_NAME_MAX_SIZE_def)

section \<open>No push is sent twice\<close>

text \<open>
  A run of the notification thread: batches of any messages against any state of the server, at
  times that do not go back.
\<close>

record notify_run =
  nr_nt :: notifier
  nr_now :: nanos

inductive notify_step :: "'d bt_lib \<Rightarrow> sodium_lib \<Rightarrow> seconds \<Rightarrow> notify_run \<Rightarrow> notify_run \<Rightarrow> bool"
  for B sod filter_lifetime where
  batch_done: "t \<le> now \<Longrightarrow> process_batch B sod filter_lifetime now msgs hm nt = (nt', r) \<Longrightarrow>
    notify_step B sod filter_lifetime \<lparr>nr_nt = nt, nr_now = t\<rparr> \<lparr>nr_nt = nt', nr_now = now\<rparr>"

definition notify_init :: "notify_run \<Rightarrow> bool" where
  "notify_init r \<longleftrightarrow> sent_pushes (nr_nt r) = []"

text \<open>
  Until its lifetime has passed, the filter value of a push is in one of the two filters; and no
  two pushes of one value were sent within a lifetime.
\<close>

definition remembered :: "nanos \<Rightarrow> nanos \<Rightarrow> notifier \<Rightarrow> bool" where
  "remembered L now nt \<longleftrightarrow>
     (\<forall>(t, h, _, _) \<in> set (sent_pushes nt). t \<le> now \<and>
        (h \<in> filter_cur nt \<or> h \<in> filter_rotate nt \<and> t + L \<le> filter_rotate_time nt \<or> t + L \<le> now)) \<and>
     sorted_wrt (\<lambda>(t, h, _, _) (t', h', _, _). h = h' \<longrightarrow> t + L \<le> t') (sent_pushes nt)"

lemma remembered_mono:
  "remembered L t nt \<Longrightarrow> t \<le> now \<Longrightarrow> remembered L now nt"
  unfolding remembered_def by fastforce

lemma remembered_rotate:
  assumes "remembered (filter_lifetime * nanos_per_sec) now nt"
  shows "remembered (filter_lifetime * nanos_per_sec) now (rotate_filters filter_lifetime now nt)"
proof (cases "filter_rotate_time nt \<le> now")
  case True
  then have "t + filter_lifetime * nanos_per_sec \<le> filter_rotate_time nt \<Longrightarrow> t + filter_lifetime * nanos_per_sec \<le> now" for t
    by simp
  with True assms show ?thesis unfolding remembered_def rotate_filters_def by (auto 0 4)
qed (use assms in \<open>simp add: rotate_filters_def\<close>)

lemma remembered_cong:
  "sent_pushes nt' = sent_pushes nt \<Longrightarrow> filter_rotate nt' = filter_rotate nt \<Longrightarrow>
   filter_rotate_time nt' = filter_rotate_time nt \<Longrightarrow> filter_cur nt \<subseteq> filter_cur nt' \<Longrightarrow>
   remembered L now nt \<Longrightarrow> remembered L now nt'"
  unfolding remembered_def by fastforce

lemma remembered_push:
  assumes r: "remembered L now nt" and new: "h \<notin> filter_rotate nt" "h \<notin> filter_cur nt"
  shows "remembered L now (nt\<lparr>filter_cur := insert h (filter_cur nt), buf_size := b,
    sent_pushes := sent_pushes nt @ [(now, h, c, x)]\<rparr>)"
  using assms unfolding remembered_def by (fastforce simp: sorted_wrt_append)

lemma remembered_push_row:
  assumes "remembered L now nt"
  shows "remembered L now (snd (push_row B sod svcs now n row nt))"
proof (cases "filter_val sod n row \<in> filter_rotate nt \<or> filter_val sod n row \<in> filter_cur nt")
  case True
  with assms show ?thesis by (auto simp: push_row_def Let_def)
next
  case False
  have cong: "remembered L now (nt\<lparr>filter_cur := insert h (filter_cur nt), buf_size := b\<rparr>)"
    "remembered L now (nt\<lparr>filter_cur := insert h (filter_cur nt)\<rparr>)" for h b
    by (rule remembered_cong [OF _ _ _ _ assms]; auto)+
  from False show ?thesis
    using remembered_push [OF assms, of "filter_val sod n row"] cong
    by (auto simp: push_row_def Let_def split: option.splits sum.splits)
qed

lemma remembered_push_rows:
  "remembered L now (snd s) \<Longrightarrow> remembered L now (snd (push_rows B sod svcs now n rows s))"
proof (induction B sod svcs now n rows s rule: push_rows.induct)
  case (2 B sod svcs now n row rows k nt)
  obtain sent_it nt' where p: "push_row B sod svcs now n row nt = (sent_it, nt')" by (metis prod.exhaust)
  with 2 remembered_push_row [of L now nt B sod svcs n row] show ?case by simp
qed simp

lemma remembered_process_message:
  "remembered L now (snd s) \<Longrightarrow> remembered L now (snd (process_message B sod hm now body s))"
  by (simp add: process_message_def remembered_push_rows split: sum.splits option.splits)

lemma remembered_process_batch:
  assumes "remembered (filter_lifetime * nanos_per_sec) t nt" "t \<le> now"
  shows "remembered (filter_lifetime * nanos_per_sec) now (fst (process_batch B sod filter_lifetime now msgs hm nt))"
proof -
  let ?L = "filter_lifetime * nanos_per_sec"
  have "remembered ?L now (nt\<lparr>buf_size := 0\<rparr>)"
    by (rule remembered_cong [OF _ _ _ _ remembered_mono [OF assms]]) simp_all
  then have start: "remembered ?L now (rotate_filters filter_lifetime now (nt\<lparr>buf_size := 0\<rparr>))"
    by (rule remembered_rotate)
  have "remembered ?L now (snd s) \<Longrightarrow> remembered ?L now (snd (fold (process_message B sod hm now) msgs s))" for s
  proof (induction msgs arbitrary: s)
    case (Cons m msgs)
    from Cons.IH [OF remembered_process_message [OF Cons.prems]] show ?case by simp
  qed simp
  with start show ?thesis by (simp add: process_batch_def split_beta)
qed

interpretation pushes: transition_system notify_init "notify_step B sod filter_lifetime"
  "\<lambda>r. remembered (filter_lifetime * nanos_per_sec) (nr_now r) (nr_nt r)" for B sod filter_lifetime
proof
  show "notify_init r \<Longrightarrow> remembered (filter_lifetime * nanos_per_sec) (nr_now r) (nr_nt r)" for r
    by (simp add: notify_init_def remembered_def)
  show "notify_step B sod filter_lifetime s r \<Longrightarrow> remembered (filter_lifetime * nanos_per_sec) (nr_now r) (nr_nt r)"
    if "remembered (filter_lifetime * nanos_per_sec) (nr_now s) (nr_nt s)" for s r
    using that by (auto elim!: notify_step.cases) (metis fst_conv remembered_process_batch)
qed

text \<open>
  C17. Whatever arrives, from however many nodes and in whatever batches, no device is pushed the
  same message twice within the lifetime of the filter: of two pushes with the same filter value
  the later one was sent at least that much later.
\<close>

theorem no_duplicate_push:
  assumes "reach notify_init (notify_step B sod filter_lifetime) r"
    and "i < j" "j < length (sent_pushes (nr_nt r))"
    and "sent_pushes (nr_nt r) ! i = (t, h, c, x)" "sent_pushes (nr_nt r) ! j = (t', h, c', x')"
  shows "t + filter_lifetime * nanos_per_sec \<le> t'"
proof -
  have "sorted_wrt (\<lambda>(t, h, _, _) (t', h', _, _). h = h' \<longrightarrow> t + filter_lifetime * nanos_per_sec \<le> t') (sent_pushes (nr_nt r))"
    using pushes.reach_invar [OF assms(1)] by (simp add: remembered_def)
  from sorted_wrt_nth_less [OF this assms(2,3)] assms(4,5) show ?thesis by simp
qed

section \<open>Who is pushed\<close>

text \<open>The pushes due for the rows of one message: registered, and not in either filter.\<close>

definition due_pushes ::
  "'d bt_lib \<Rightarrow> sodium_lib \<Rightarrow> (string \<times> nat) list \<Rightarrow> nanos \<Rightarrow> notification \<Rightarrow> bytes set \<Rightarrow> notify_row list \<Rightarrow> (nanos \<times> bytes \<times> nat \<times> string) list" where
  "due_pushes B sod svcs now n seen rows =
     map (\<lambda>row. (now, filter_val sod n row, the (map_of svcs (fst (snd (snd row)))), bt_encode B (push_dict n row)))
       (filter (\<lambda>row. filter_val sod n row \<notin> seen \<and> map_of svcs (fst (snd (snd row))) \<noteq> None) rows)"

definition services_ok :: "(string \<times> nat) list \<Rightarrow> bool" where
  "services_ok svcs \<longleftrightarrow> (\<forall>(s, c) \<in> set svcs. s \<noteq> [] \<and> length s \<le> 32) \<and> keys_distinct svcs"

lemma on_reg_service_ok:
  assumes "services_ok (services hm)"
  shows "services_ok (services (on_reg_service parts cid hm))"
proof -
  have upd: "services_ok (AList.update s c m)" if "services_ok m" "s \<noteq> []" "length s \<le> 32" for s c m
  proof -
    have keys: "fst ` set (AList.update s c m) = insert s (fst ` set m)"
      by (simp add: AList.dom_update insert_commute)
    have ok: "services_ok m' \<longleftrightarrow> (\<forall>x \<in> fst ` set m'. x \<noteq> [] \<and> length x \<le> 32) \<and> keys_distinct m'" for m'
      unfolding services_ok_def by auto
    from that keys_distinct_update [of m s c] show ?thesis unfolding ok keys by simp
  qed
  show ?thesis
  proof (cases "length parts \<noteq> 1 \<or> parts ! 0 = [] \<or> length (parts ! 0) > 32")
    case True
    then have "on_reg_service parts cid hm = hm" by (auto simp: on_reg_service_def Let_def)
    with assms show ?thesis by simp
  next
    case False
    then have reg: "on_reg_service parts cid hm =
        (case map_of (services hm) (parts ! 0) of
           None \<Rightarrow> hm\<lparr>services := (parts ! 0, cid) # services hm\<rparr>
         | Some c \<Rightarrow> if cid \<noteq> c then hm\<lparr>services := AList.update (parts ! 0) cid (services hm)\<rparr> else hm)"
      by (simp add: on_reg_service_def Let_def)
    show ?thesis
    proof (cases "map_of (services hm) (parts ! 0)")
      case None
      then have "parts ! 0 \<notin> fst ` set (services hm)" by (simp add: map_of_eq_None_iff)
      with None False assms show ?thesis unfolding reg by (simp add: services_ok_def)
    next
      case (Some c)
      with False assms upd show ?thesis unfolding reg by (cases "cid = c") simp_all
    qed
  qed
qed

lemma parse_notification_ok:
  assumes doc: "bt_reads_documented B" and p: "parse_notification B body = Inr (Some n)"
    and len: "\<And>d. n_data n = Some d \<Longrightarrow> length d < 2 ^ 64"
  shows "notification_ok n"
proof -
  have int: "bt_consume_integer B ok d = Inr (i, d') \<Longrightarrow> ok i" for ok d i d'
    using doc unfolding bt_reads_documented_def by blast
  show ?thesis
    using p len unfolding parse_notification_def required_def
    by (auto simp: result_simps notification_ok_def AccountID_SIZE_def MSG_HASH_MIN_SIZE_def MSG_HASH_MAX_SIZE_def
        as_bytes_def dest!: int split: if_splits)
qed

lemma push_row_due:
  assumes "bt_sizes_documented B" "notification_ok n" "row_ok row" "services_ok svcs"
  shows "case push_row B sod svcs now n row nt of (sent_it, nt') \<Rightarrow>
    sent_pushes nt' = sent_pushes nt @ due_pushes B sod svcs now n (filter_rotate nt \<union> filter_cur nt) [row] \<and>
    (sent_it \<longleftrightarrow> due_pushes B sod svcs now n (filter_rotate nt \<union> filter_cur nt) [row] \<noteq> []) \<and>
    filter_rotate nt' \<union> filter_cur nt' = insert (filter_val sod n row) (filter_rotate nt \<union> filter_cur nt)"
proof (cases "filter_val sod n row \<in> filter_rotate nt \<union> filter_cur nt")
  case True
  then show ?thesis by (auto simp: push_row_def due_pushes_def)
next
  case False
  show ?thesis
  proof (cases "map_of svcs (fst (snd (snd row)))")
    case None
    with False show ?thesis by (auto simp: push_row_def due_pushes_def Let_def)
  next
    case (Some c)
    then have "length (fst (snd (snd row))) \<le> 32"
      using assms(4) by (auto simp: services_ok_def dest!: map_of_SomeD)
    then have "build_push B (max b (size_needed n row)) n row = Inr (bt_encode B (push_dict n row))" for b
      using push_text_size [OF assms(1-3)] by (simp add: build_push_def Let_def le_max_iff_disj)
    with False Some show ?thesis by (auto simp: push_row_def due_pushes_def Let_def)
  qed
qed

lemma due_pushes_Cons:
  assumes "filter_val sod n row \<notin> filter_val sod n ` set rows"
  shows "due_pushes B sod svcs now n seen (row # rows) =
    due_pushes B sod svcs now n seen [row] @ due_pushes B sod svcs now n (insert (filter_val sod n row) seen) rows"
proof -
  have "filter (\<lambda>r. filter_val sod n r \<notin> seen \<and> map_of svcs (fst (snd (snd r))) \<noteq> None) rows =
      filter (\<lambda>r. filter_val sod n r \<notin> insert (filter_val sod n row) seen \<and> map_of svcs (fst (snd (snd r))) \<noteq> None) rows"
    using assms by (intro filter_cong refl) (metis image_eqI insert_iff)
  then show ?thesis by (simp add: due_pushes_def)
qed

lemma push_rows_due:
  assumes doc: "bt_sizes_documented B" and n: "notification_ok n" and svcs: "services_ok svcs"
  shows "list_all row_ok rows \<Longrightarrow> distinct (map (filter_val sod n) rows) \<Longrightarrow>
    case push_rows B sod svcs now n rows (k, nt) of (k', nt') \<Rightarrow>
      sent_pushes nt' = sent_pushes nt @ due_pushes B sod svcs now n (filter_rotate nt \<union> filter_cur nt) rows \<and>
      k' = k + length (due_pushes B sod svcs now n (filter_rotate nt \<union> filter_cur nt) rows)"
proof (induction rows arbitrary: k nt)
  case (Cons row rows)
  obtain sent_it nt1 where p: "push_row B sod svcs now n row nt = (sent_it, nt1)" by (metis prod.exhaust)
  let ?seen = "filter_rotate nt \<union> filter_cur nt" and ?k = "if sent_it then k + 1 else k"
  have one: "sent_pushes nt1 = sent_pushes nt @ due_pushes B sod svcs now n ?seen [row]"
    "sent_it \<longleftrightarrow> due_pushes B sod svcs now n ?seen [row] \<noteq> []"
    "filter_rotate nt1 \<union> filter_cur nt1 = insert (filter_val sod n row) ?seen"
    using push_row_due [OF doc n _ svcs, where row = row and sod = sod and now = now and nt = nt] Cons.prems(1) p by auto
  have len: "length (due_pushes B sod svcs now n ?seen [row]) \<le> 1" by (simp add: due_pushes_def)
  have "distinct (map (filter_val sod n) rows)" "list_all row_ok rows" using Cons.prems by auto
  from Cons.IH [OF this(2,1), where k = ?k and nt = nt1] one len show ?case
    using due_pushes_Cons [of sod n row rows B svcs now ?seen] Cons.prems(2)
    by (auto simp: p split: prod.splits) (cases "due_pushes B sod svcs now n ?seen [row]"; simp)+
qed (simp add: due_pushes_def)

text \<open>
  A well-formed notification pushes to exactly the devices subscribed to its account and
  namespace whose service is registered and that were not pushed this message lately: each gets
  one message, on its service's connection, with its own service id, data and encryption key, and
  with the message's data only if it asked for it. Distinct devices must have distinct hashes.
\<close>

theorem process_message_pushes:
  assumes "bt_sizes_documented B" "parse_notification B body = Inr (Some n)" "notification_ok n" "services_ok (services hm)"
    and "list_all row_ok (notify_query (n_account n) (n_ns n) (db hm))"
    and "distinct (map (filter_val sod n) (notify_query (n_account n) (n_ns n) (db hm)))"
    and "process_message B sod hm now body (k, nt) = (k', nt')"
  shows "sent_pushes nt' = sent_pushes nt @
      map (\<lambda>row. (now, filter_val sod n row, the (map_of (services hm) (fst (snd (snd row)))), bt_encode B (push_dict n row)))
        (filter (\<lambda>row. filter_val sod n row \<notin> filter_rotate nt \<union> filter_cur nt \<and> map_of (services hm) (fst (snd (snd row))) \<noteq> None)
          (notify_query (n_account n) (n_ns n) (db hm))) \<and>
    k' = k + (length (sent_pushes nt') - length (sent_pushes nt))"
  using push_rows_due [OF assms(1,3,4,5,6), where now = now and k = k and nt = nt] assms(2,7)
  by (auto simp: process_message_def due_pushes_def split: prod.splits)

section \<open>Batches\<close>

fun pushed :: "proc_cmd option \<Rightarrow> string list" where
  "pushed (Some (CMD_PUSH m)) = [m]"
| "pushed _ = []"

definition receiver_ok :: "receiver \<Rightarrow> bool" where
  "receiver_ok rc \<longleftrightarrow> length (process rc) < MAX_BATCH \<and> (blocking rc \<longrightarrow> process rc = [])"

lemma recv_step_cases:
  assumes "recv_step cmd rc = (act, rc')" "receiver_ok rc" "cmd \<noteq> Some CMD_QUIT"
  shows "receiver_ok rc' \<and> (act = Continue \<and> process rc' = process rc @ pushed cmd \<or>
    (\<exists>b. act = Process b \<and> b @ process rc' = process rc @ pushed cmd \<and> b \<noteq> [] \<and> length b \<le> MAX_BATCH)) \<and>
    (cmd = None \<longrightarrow> process rc' = [])"
proof -
  consider "cmd = None" | m where "cmd = Some (CMD_PUSH m)" | "cmd = Some CMD_OTHER"
    using assms(3) by (metis option.exhaust proc_cmd.exhaust)
  then show ?thesis
    using assms(1,2) by cases (auto simp: recv_step_def receiver_ok_def MAX_BATCH_def Let_def split: if_splits)
qed

text \<open>
  C33. The notification thread hands on every message it receives, in order, once: the batches it
  forms, followed by what it still holds, are the messages received before the stop command.
  Every batch has between 1 and 100 messages, and when nothing more is waiting it holds nothing
  back.
\<close>

theorem recv_loop_batches:
  assumes "receiver_ok rc" "recv_loop cmds rc = (bs, rc')"
  shows "concat bs @ process rc' = process rc @ concat (map pushed (takeWhile (\<lambda>c. c \<noteq> Some CMD_QUIT) cmds)) \<and>
    (\<forall>b \<in> set bs. 1 \<le> length b \<and> length b \<le> MAX_BATCH) \<and> length (process rc') < MAX_BATCH \<and>
    (cmds \<noteq> [] \<and> last cmds = None \<and> Some CMD_QUIT \<notin> set cmds \<longrightarrow> process rc' = [])"
  using assms
proof (induction cmds arbitrary: rc bs)
  case Nil
  then show ?case by (simp add: receiver_ok_def)
next
  case (Cons cmd cmds)
  show ?case
  proof (cases "cmd = Some CMD_QUIT")
    case True
    then show ?thesis using Cons.prems by (auto simp: recv_step_def receiver_ok_def)
  next
    case False
    obtain act rc1 where st: "recv_step cmd rc = (act, rc1)" by (metis prod.exhaust)
    note step = recv_step_cases [OF st Cons.prems(1) False]
    have last: "cmds = [] \<Longrightarrow> rc' = rc1" and rest: "\<exists>bs1. recv_loop cmds rc1 = (bs1, rc') \<and>
        (act = Continue \<and> bs = bs1 \<or> (\<exists>b. act = Process b \<and> bs = b # bs1))"
      using Cons.prems(2) st step by (auto split: prod.splits)
    obtain bs1 where bs1: "recv_loop cmds rc1 = (bs1, rc')"
      and act: "act = Continue \<and> bs = bs1 \<or> (\<exists>b. act = Process b \<and> bs = b # bs1)" using rest by blast
    have ok: "receiver_ok rc1" using step by blast
    note IH = Cons.IH [OF ok bs1]
    have "concat bs @ process rc' = process rc @ pushed cmd @ concat (map pushed (takeWhile (\<lambda>c. c \<noteq> Some CMD_QUIT) cmds))"
    proof (cases "act = Continue")
      case True
      then show ?thesis using IH act step by simp
    next
      case False
      then obtain b where "bs = b # bs1" "b @ process rc1 = process rc @ pushed cmd" using act step by auto
      then show ?thesis using IH by (metis append.assoc concat.simps(2))
    qed
    moreover have "\<forall>b \<in> set bs. 1 \<le> length b \<and> length b \<le> MAX_BATCH"
    proof
      fix b
      assume b: "b \<in> set bs"
      from IH have small: "b \<in> set bs1 \<Longrightarrow> 1 \<le> length b \<and> length b \<le> MAX_BATCH" by blast
      have "b \<in> set bs1 \<or> act = Process b" using b act by auto
      with small step show "1 \<le> length b \<and> length b \<le> MAX_BATCH"
        by (metis One_nat_def Suc_leI length_greater_0_conv recv_action.distinct(5) recv_action.inject)
    qed
    moreover have "process rc' = []" if "last (cmd # cmds) = None" "Some CMD_QUIT \<notin> set (cmd # cmds)"
      using IH last step that by (cases "cmds = []") simp_all
    ultimately show ?thesis using IH False by simp
  qed
qed

section \<open>Witnesses of the notifications\<close>

text \<open>An instance of the encoding library: a consumer is the list of pairs it has left.\<close>

definition sample_string_enc :: "string \<Rightarrow> string" where
  "sample_string_enc s = to_chars (int (length s)) @ '':'' @ s"

fun sample_value_enc :: "bt \<Rightarrow> string" where
  "sample_value_enc (BtInt i) = ''i'' @ to_chars i @ ''e''"
| "sample_value_enc (BtStr s) = sample_string_enc s"
| "sample_value_enc _ = []"

definition sample_encode :: "(string \<times> bt) list \<Rightarrow> string" where
  "sample_encode kvs = ''d'' @ concat (map (\<lambda>(k, v). sample_string_enc k @ sample_value_enc v) kvs) @ ''e''"

fun sample_consume_string :: "(string \<times> bt) list \<Rightarrow> (string \<times> (string \<times> bt) list) result" where
  "sample_consume_string ((k, BtStr s) # rest) = Inr (s, rest)"
| "sample_consume_string _ = Inl bt_invalid_type"

fun sample_consume_integer :: "(int \<Rightarrow> bool) \<Rightarrow> (string \<times> bt) list \<Rightarrow> (int \<times> (string \<times> bt) list) result" where
  "sample_consume_integer ok ((k, BtInt i) # rest) = (if ok i then Inr (i, rest) else Inl (bt_error ''out of range''))"
| "sample_consume_integer ok _ = Inl bt_invalid_type"

definition sample_skip_until :: "string \<Rightarrow> (string \<times> bt) list \<Rightarrow> bool \<times> (string \<times> bt) list" where
  "sample_skip_until key d =
     (let d' = dropWhile (\<lambda>e. fst e \<noteq> key) d in if d' = [] then (False, d) else (True, d'))"

definition sample_bt :: "(string \<times> bt) list \<Rightarrow> (string \<times> bt) list bt_lib" where
  "sample_bt content =
     \<lparr>bt_dict_consumer = (\<lambda>_. Inr content), bt_list_consumer = (\<lambda>_. Inr content),
      bt_skip_until = (\<lambda>key d. Inr (sample_skip_until key d)),
      bt_consume_string = sample_consume_string, bt_consume_integer = sample_consume_integer,
      bt_maybe_string = (\<lambda>key d. if fst (sample_skip_until key d)
         then map_sum id (\<lambda>(s, r). (Some s, r)) (sample_consume_string (snd (sample_skip_until key d))) else Inr (None, d)),
      bt_key = (\<lambda>d. case d of [] \<Rightarrow> Inl (bt_error ''end of dict'') | e # _ \<Rightarrow> Inr (fst e)),
      bt_is_integer = (\<lambda>d. case d of (_, BtInt _) # _ \<Rightarrow> True | _ \<Rightarrow> False),
      bt_is_string = (\<lambda>d. case d of (_, BtStr _) # _ \<Rightarrow> True | _ \<Rightarrow> False),
      bt_more = (\<lambda>d. d \<noteq> []), bt_is_finished = (\<lambda>d. d = []),
      bt_pairs = (\<lambda>d. d), bt_items = map snd, bt_encode = sample_encode\<rparr>"

lemma sample_consume_string_Inr: "sample_consume_string d = Inr (s, d') \<longleftrightarrow> (\<exists>k. d = (k, BtStr s) # d')"
  by (cases d rule: sample_consume_string.cases) auto

lemma sample_consume_integer_Inr:
  "sample_consume_integer ok d = Inr (i, d') \<longleftrightarrow> (\<exists>k. d = (k, BtInt i) # d') \<and> ok i"
  by (cases "(ok, d)" rule: sample_consume_integer.cases) auto

lemma sample_bt_reads: "bt_reads_documented (sample_bt content)"
  by (auto simp: bt_reads_documented_def sample_bt_def sample_consume_string_Inr sample_consume_integer_Inr
      split: list.splits)

lemma sample_bt_sizes: "bt_sizes_documented (sample_bt content)"
proof -
  have s: "length (sample_string_enc s) = bt_string_size s" for s
    by (simp add: sample_string_enc_def bt_string_size_def)
  have "length (concat (map (\<lambda>(k, v). sample_string_enc k @ sample_value_enc v) kvs)) =
      sum_list (map (\<lambda>(k, v). bt_string_size k + bt_value_size v) kvs)"
    if "list_all (\<lambda>(k, v). \<exists>s i. v = BtStr s \<or> v = BtInt i) kvs" for kvs
    using that by (induction kvs) (auto simp: s)
  then show ?thesis by (simp add: bt_sizes_documented_def sample_bt_def sample_encode_def)
qed

definition sample_note :: notification where
  "sample_note = \<lparr>n_account = replicate 33 1, n_hash = replicate 32 (CHR ''h''), n_ns = 0, n_timestamp = 5, n_expiry = 6,
     n_data = None\<rparr>"

definition note_pairs :: "(string \<times> bt) list" where
  "note_pairs = [(''@'', BtStr (as_sv (replicate 33 1))), (''h'', BtStr (replicate 32 (CHR ''h''))), (''n'', BtInt 0),
     (''t'', BtInt 5), (''z'', BtInt 6)]"

definition pushing_hm :: HiveMind where
  "pushing_hm = empty_hm\<lparr>db := empty_DB\<lparr>subscriptions := [\<lparr>row_id = 1, row_account = replicate 33 1, row_service = ''apns'',
     row_svcid = sample_sid, row_vals = (sample_values [] 0)\<lparr>row_enc_key := replicate 32 2, svcdata := None\<rparr>\<rparr>],
     sub_namespaces := [(1, 0)]\<rparr>\<rparr>"

definition sample_row :: notify_row where
  "sample_row = (row_want_data (sample_values [] 0), replicate 32 2, ''apns'', sample_sid, None)"

lemma sample_note_parsed: "parse_notification (sample_bt note_pairs) body = Inr (Some sample_note)"
  by (simp add: parse_notification_def required_def sample_bt_def sample_skip_until_def note_pairs_def sample_note_def
      AccountID_SIZE_def MSG_HASH_MIN_SIZE_def MSG_HASH_MAX_SIZE_def is_int16_def is_int64_def int64_min_def int64_max_def)

lemma sample_note_ok: "notification_ok sample_note"
  by (simp add: notification_ok_def sample_note_def is_int16_def is_int64_def int64_min_def int64_max_def)

lemma sample_query: "notify_query (replicate 33 1) 0 (db pushing_hm) = [sample_row]"
  by (simp add: notify_query_def pushing_hm_def empty_DB_def sample_row_def)

lemma sample_row_ok: "row_ok sample_row"
  by (simp add: sample_row_def sample_sid_def)

lemma pushing_services: "services pushing_hm = [(''apns'', 7)]"
  by (simp add: pushing_hm_def empty_hm_def)

lemma sample_push:
  defines "h \<equiv> filter_val sample_sodium sample_note sample_row"
  shows "process_message (sample_bt note_pairs) sample_sodium pushing_hm now body (k, nt) =
    (if h \<in> filter_rotate nt \<or> h \<in> filter_cur nt then (k, nt)
     else (k + 1, nt\<lparr>filter_cur := insert h (filter_cur nt), buf_size := max (buf_size nt) (size_needed sample_note sample_row),
       sent_pushes := sent_pushes nt @ [(now, h, 7, bt_encode (sample_bt note_pairs) (push_dict sample_note sample_row))]\<rparr>))"
proof -
  have svc: "fst (snd (snd sample_row)) = ''apns''" by (simp add: sample_row_def)
  have q: "notify_query (n_account sample_note) (n_ns sample_note) (db pushing_hm) = [sample_row]"
    using sample_query by (simp add: sample_note_def)
  have "build_push (sample_bt note_pairs) (max b (size_needed sample_note sample_row)) sample_note sample_row =
      Inr (bt_encode (sample_bt note_pairs) (push_dict sample_note sample_row))" for b
    using push_text_size [OF sample_bt_sizes [of note_pairs] sample_note_ok sample_row_ok] svc
    by (simp add: build_push_def Let_def le_max_iff_disj)
  then show ?thesis
    by (simp add: process_message_def sample_note_parsed q push_row_def pushing_services svc Let_def h_def)
qed

theorem push_fits_buffer_witness:
  "build_push (sample_bt note_pairs) (size_needed sample_note sample_row) sample_note sample_row =
     Inr (sample_encode (push_dict sample_note sample_row))"
  using push_fits_buffer [OF sample_bt_sizes sample_note_ok sample_row_ok, where buf = "size_needed sample_note sample_row"
      and content1 = note_pairs]
  by (simp add: sample_bt_def sample_row_def SERVICE_NAME_MAX_SIZE_def)

theorem process_message_pushes_witness:
  "\<exists>k' nt'. process_message (sample_bt note_pairs) sample_sodium pushing_hm 0 []
       (0, \<lparr>filter_cur = {}, filter_rotate = {}, filter_rotate_time = 0, sent_pushes = [], buf_size = 0\<rparr>) = (k', nt') \<and>
     map (\<lambda>(_, _, c, text). (c, text)) (sent_pushes nt') = [(7, sample_encode (push_dict sample_note sample_row))] \<and> k' = 1"
proof -
  let ?nt = "\<lparr>filter_cur = {}, filter_rotate = {}, filter_rotate_time = 0, sent_pushes = [], buf_size = 0\<rparr> :: notifier"
  have q: "notify_query (n_account sample_note) (n_ns sample_note) (db pushing_hm) = [sample_row]"
    using sample_query by (simp add: sample_note_def)
  have svcs: "services_ok (services pushing_hm)" by (simp add: pushing_services services_ok_def)
  obtain k' nt' where run: "process_message (sample_bt note_pairs) sample_sodium pushing_hm 0 [] (0, ?nt) = (k', nt')"
    by (metis prod.exhaust)
  have "sent_pushes nt' = [(0, filter_val sample_sodium sample_note sample_row, 7, sample_encode (push_dict sample_note sample_row))] \<and> k' = 1"
    using process_message_pushes [OF sample_bt_sizes sample_note_parsed sample_note_ok svcs _ _ run] sample_row_ok
    by (simp add: q pushing_services) (simp add: sample_row_def sample_bt_def)
  with run show ?thesis by simp
qed

theorem no_duplicate_push_witness:
  "\<exists>r. reach notify_init (notify_step (sample_bt note_pairs) sample_sodium 600) r \<and>
     map (\<lambda>(t, h, _). (t, h)) (sent_pushes (nr_nt r)) =
       [(0, filter_val sample_sodium sample_note sample_row), (1200 * nanos_per_sec, filter_val sample_sodium sample_note sample_row)] \<and>
     fst (sent_pushes (nr_nt r) ! 0) + 600 * nanos_per_sec \<le> fst (sent_pushes (nr_nt r) ! 1)"
proof -
  let ?B = "sample_bt note_pairs" and ?h = "filter_val sample_sodium sample_note sample_row"
  let ?step = "notify_step ?B sample_sodium 600"
  let ?text = "bt_encode ?B (push_dict sample_note sample_row)" and ?b = "size_needed sample_note sample_row"
  let ?nt = "\<lambda>cur rot t pushes b. \<lparr>filter_cur = cur, filter_rotate = rot, filter_rotate_time = t, sent_pushes = pushes, buf_size = b\<rparr>"
  have batch: "process_batch ?B sample_sodium 600 now [[]] pushing_hm nt =
      (snd (process_message ?B sample_sodium pushing_hm now [] (0, rotate_filters 600 now (nt\<lparr>buf_size := 0\<rparr>))),
       snd (process_batch ?B sample_sodium 600 now [[]] pushing_hm nt))" for now nt
    by (simp add: process_batch_def split_beta)
  have "reach notify_init ?step \<lparr>nr_nt = ?nt {} {} 0 [] 0, nr_now = 0\<rparr>"
    by (rule reach.reach_init) (simp add: notify_init_def)
  then have "reach notify_init ?step \<lparr>nr_nt = ?nt {?h} {} (600 * nanos_per_sec) [(0, ?h, 7, ?text)] ?b, nr_now = 0\<rparr>"
    by (rule reach.reach_step)
      (rule notify_step.batch_done [where hm = pushing_hm and msgs = "[[]]"], simp add: nanos_per_sec_def,
       subst batch, simp add: sample_push rotate_filters_def)
  then have "reach notify_init ?step
      \<lparr>nr_nt = ?nt {} {?h} (1200 * nanos_per_sec) [(0, ?h, 7, ?text)] 0, nr_now = 600 * nanos_per_sec\<rparr>"
    by (rule reach.reach_step)
      (rule notify_step.batch_done [where hm = pushing_hm and msgs = "[[]]"], simp add: nanos_per_sec_def,
       subst batch, simp add: sample_push rotate_filters_def)
  then have r: "reach notify_init ?step
      \<lparr>nr_nt = ?nt {?h} {} (1800 * nanos_per_sec) [(0, ?h, 7, ?text), (1200 * nanos_per_sec, ?h, 7, ?text)] ?b,
       nr_now = 1200 * nanos_per_sec\<rparr>"
    by (rule reach.reach_step)
      (rule notify_step.batch_done [where hm = pushing_hm and msgs = "[[]]"], simp add: nanos_per_sec_def,
       subst batch, simp add: sample_push rotate_filters_def)
  have "0 + 600 * nanos_per_sec \<le> 1200 * nanos_per_sec"
    using no_duplicate_push [OF r, of 0 1 0 ?h 7 ?text "1200 * nanos_per_sec" 7 ?text] by simp
  then show ?thesis
    by (intro exI conjI) (rule r, simp_all)
qed

theorem recv_loop_batches_witness:
  "\<exists>bs rc'. recv_loop [Some (CMD_PUSH ''a''), Some CMD_OTHER, Some (CMD_PUSH ''b''), None] \<lparr>blocking = True, process = []\<rparr> = (bs, rc') \<and>
     concat bs = [''a'', ''b''] \<and> process rc' = []"
proof -
  have ok: "receiver_ok \<lparr>blocking = True, process = []\<rparr>" by (simp add: receiver_ok_def MAX_BATCH_def)
  obtain bs rc' where run: "recv_loop [Some (CMD_PUSH ''a''), Some CMD_OTHER, Some (CMD_PUSH ''b''), None]
      \<lparr>blocking = True, process = []\<rparr> = (bs, rc')" by (metis prod.exhaust)
  have "process rc' = []" "concat bs @ process rc' = [''a'', ''b'']"
    using recv_loop_batches [OF ok run] by auto
  with run show ?thesis by auto
qed

end
