(* ===== verification/Statistics.thy ===== *)
theory Statistics
  imports Notifications
begin

text \<open>
  The notifiers' administrative calls and the server's statistics (\<^verbatim>\<open>spns/hivemind.cpp\<close>, lines
  818-1022): reported statistics, dropped registrations, the statistics report and the status line.
\<close>

section \<open>Loops over consumers\<close>

text \<open>
  \<^verbatim>\<open>while (more) body\<close> over a consumer. \<open>fuel\<close> bounds the iterations, \<open>None\<close> means that it ran out;
  the handlers pass the number of elements left, which every iteration lowers.
\<close>

fun consume_all :: "('d \<Rightarrow> bool) \<Rightarrow> ('d \<Rightarrow> 's \<Rightarrow> ('s \<times> 'd) result) \<Rightarrow> nat \<Rightarrow> 'd \<Rightarrow> 's \<Rightarrow> 's result option" where
  "consume_all has_more body 0 d s = (if has_more d then None else Some (Inr s))"
| "consume_all has_more body (Suc fuel) d s =
     (if \<not> has_more d then Some (Inr s)
      else case body d s of Inl e \<Rightarrow> Some (Inl e) | Inr (s', d') \<Rightarrow> consume_all has_more body fuel d' s')"

fun fold_r :: "('a \<Rightarrow> 's \<Rightarrow> 's result) \<Rightarrow> 'a list \<Rightarrow> 's \<Rightarrow> 's result" where
  "fold_r f [] s = Inr s"
| "fold_r f (x # xs) s = bind_r (f x s) (fold_r f xs)"

text \<open>If every iteration takes one element off, the loop ends and works through all of them.\<close>

lemma consume_all_total:
  assumes has_more: "\<And>d. has_more d \<longleftrightarrow> left d \<noteq> []"
    and body: "\<And>d s s' d'. body d s = Inr (s', d') \<Longrightarrow> left d \<noteq> [] \<Longrightarrow> \<exists>x. left d = x # left d' \<and> f x s = Inr s'"
  shows "\<exists>r. consume_all has_more body (length (left d)) d s = Some r \<and> (\<forall>s'. r = Inr s' \<longrightarrow> fold_r f (left d) s = Inr s')"
proof (induction "length (left d)" arbitrary: d s)
  case 0
  then show ?case using has_more [of d] by simp
next
  case (Suc k)
  have ne: "left d \<noteq> []" using Suc.hyps(2) by auto
  show ?case
  proof (cases "body d s")
    case (Inl e)
    then show ?thesis using has_more ne Suc.hyps(2) [symmetric] by simp
  next
    case (Inr sd)
    obtain s' d' where sd: "sd = (s', d')" by (metis prod.exhaust)
    from body [OF Inr [unfolded sd] ne] obtain x where x: "left d = x # left d'" "f x s = Inr s'" by blast
    then have k: "k = length (left d')" using Suc.hyps(2) by simp
    from Suc.hyps(1) [OF k, of s'] show ?thesis
      using has_more ne Inr sd x by simp
  qed
qed

section \<open>Statistics reported by a notifier\<close>

definition stat_entry :: "'d bt_lib \<Rightarrow> string \<Rightarrow> 'd \<Rightarrow> DB \<Rightarrow> (DB \<times> 'd) result" where
  "stat_entry B service d tables =
     bind_r (bt_key B d) (\<lambda>key.
     if take 1 key = ''+'' then
       bind_r (bt_consume_integer B is_int64 d) (\<lambda>(i, d').
       bind_r (increment_stat service (drop 1 key) i tables) (\<lambda>tables'. Inr (tables', d')))
     else if bt_is_integer B d then
       bind_r (bt_consume_integer B is_int64 d) (\<lambda>(i, d'). Inr (set_stat_int service key i tables, d'))
     else if bt_is_string B d then
       bind_r (bt_consume_string B d) (\<lambda>(v, d'). Inr (set_stat_str service key v tables, d'))
     else Inl (invalid_argument ''Invalid service status: values must be string or int!''))"

definition stats_tx :: "'d bt_lib \<Rightarrow> nanos \<Rightarrow> string \<Rightarrow> 'd \<Rightarrow> DB \<Rightarrow> DB result option" where
  "stats_tx B now service d tables =
     consume_all (bt_more B) (stat_entry B service) (length (bt_pairs B d)) d
       (set_stat_int '''' (''last.'' @ service) (unix_timestamp now) tables)"

text \<open>Every exception is caught, logged, and rolls the transaction back.\<close>

definition on_service_stats :: "'d bt_lib \<Rightarrow> nanos \<Rightarrow> string list \<Rightarrow> HiveMind \<Rightarrow> HiveMind" where
  "on_service_stats B now parts hm =
     (if length parts \<noteq> 2 then hm
      else if parts ! 0 = [] then hm
      else (case bt_dict_consumer B (parts ! 1) of
              Inl _ \<Rightarrow> hm
            | Inr d \<Rightarrow> (case stats_tx B now (parts ! 0) d (db hm) of
                          Some (Inr tables') \<Rightarrow> hm\<lparr>db := tables'\<rparr>
                        | _ \<Rightarrow> hm)))"

section \<open>Dropped registrations\<close>

text \<open>The counters requested, deleted and matched, and the tables.\<close>

type_synonym drop_state = "int \<times> int \<times> int \<times> DB"

definition drop_entry :: "'d bt_lib \<Rightarrow> string \<Rightarrow> 'd \<Rightarrow> drop_state \<Rightarrow> (drop_state \<times> 'd) result" where
  "drop_entry B service d st =
     (case st of (reqed, deleted, matched, tables) \<Rightarrow>
      bind_r (bt_consume_string B d) (\<lambda>(svcid, d').
      case drop_registration service svcid tables of
        (del, tables') \<Rightarrow> Inr ((reqed + 1, deleted + int del, if del > 0 then matched + 1 else matched, tables'), d')))"

text \<open>
  The new state and, when the transaction committed, the counters that are logged. A list that
  cannot be opened, or an exception other than a wrong element type, leaves through the wrapper.
\<close>

definition on_drop_registrations ::
  "'d bt_lib \<Rightarrow> string list \<Rightarrow> HiveMind \<Rightarrow> (HiveMind \<times> (int \<times> int \<times> int) option) result" where
  "on_drop_registrations B parts hm =
     (if length parts \<noteq> 2 then Inr (hm, None)
      else if parts ! 0 = [] then Inr (hm, None)
      else
        bind_r (bt_list_consumer B (parts ! 1)) (\<lambda>drops.
        if bt_is_finished B drops then Inr (hm, None)
        else (case consume_all (\<lambda>d. \<not> bt_is_finished B d) (drop_entry B (parts ! 0)) (length (bt_items B drops)) drops (0, 0, 0, db hm) of
                Some (Inr (reqed, deleted, matched, tables')) \<Rightarrow> Inr (hm\<lparr>db := tables'\<rparr>, Some (reqed, deleted, matched))
              | Some (Inl bt_invalid_type) \<Rightarrow> Inr (hm, None)
              | Some (Inl e) \<Rightarrow> Inl e
              | None \<Rightarrow> Inr (hm, None))))"

section \<open>What the calls do\<close>

text \<open>One reported statistic, as the description of the call has it.\<close>

definition apply_stat :: "string \<Rightarrow> string \<times> bt \<Rightarrow> DB \<Rightarrow> DB result" where
  "apply_stat service kv tables =
     (case kv of
        (key, BtInt i) \<Rightarrow>
          if take 1 key = ''+'' then increment_stat service (drop 1 key) i tables else Inr (set_stat_int service key i tables)
      | (key, BtStr v) \<Rightarrow>
          if take 1 key = ''+'' then Inl bt_invalid_type else Inr (set_stat_str service key v tables)
      | _ \<Rightarrow> Inl bt_invalid_type)"

lemma stat_entry_reads:
  assumes doc: "bt_reads_documented B" and e: "stat_entry B service d tables = Inr (tables', d')" and ne: "bt_pairs B d \<noteq> []"
  shows "\<exists>x. bt_pairs B d = x # bt_pairs B d' \<and> apply_stat service x tables = Inr tables'"
proof -
  obtain key where key: "bt_key B d = Inr key" using e by (auto simp: stat_entry_def result_simps)
  then obtain v rest where kv: "bt_pairs B d = (key, v) # rest"
    using doc unfolding bt_reads_documented_def by blast
  have int: "\<exists>k. bt_pairs B d = (k, BtInt i) # bt_pairs B d'" if "bt_consume_integer B is_int64 d = Inr (i, d')" for i
    using doc ne that unfolding bt_reads_documented_def by blast
  have str: "\<exists>k. bt_pairs B d = (k, BtStr s) # bt_pairs B d'" if "bt_consume_string B d = Inr (s, d')" for s
    using doc ne that unfolding bt_reads_documented_def by blast
  show ?thesis
    using e key kv int str by (auto simp: stat_entry_def result_simps apply_stat_def split: if_splits)
qed

lemma stats_tx_total:
  assumes "bt_reads_documented B"
  shows "\<exists>r. stats_tx B now service d tables = Some r \<and>
    (\<forall>tables'. r = Inr tables' \<longrightarrow>
       fold_r (apply_stat service) (bt_pairs B d) (set_stat_int '''' (''last.'' @ service) (unix_timestamp now) tables) = Inr tables')"
  unfolding stats_tx_def
proof (rule consume_all_total)
  show "bt_more B d \<longleftrightarrow> bt_pairs B d \<noteq> []" for d
    using assms unfolding bt_reads_documented_def by blast
qed (rule stat_entry_reads [OF assms])

text \<open>
  A notifier's statistics report is applied as a whole or not at all: either nothing changes, or
  the time of the report and every entry were recorded in order, integers under a key with a plus
  sign added to the old value, other integers and strings replacing it. Reading the report
  always ends.
\<close>

theorem on_service_stats_atomic:
  assumes "bt_reads_documented B"
  shows "on_service_stats B now parts hm = hm \<or>
    (\<exists>service body d tables'. parts = [service, body] \<and> service \<noteq> [] \<and> bt_dict_consumer B body = Inr d \<and>
       fold_r (apply_stat service) (bt_pairs B d)
         (set_stat_int '''' (''last.'' @ service) (unix_timestamp now) (db hm)) = Inr tables' \<and>
       on_service_stats B now parts hm = hm\<lparr>db := tables'\<rparr>)"
proof (cases "\<exists>service body. parts = [service, body] \<and> service \<noteq> []")
  case False
  then have "length parts \<noteq> 2 \<or> parts ! 0 = []"
    by (auto simp: numeral_2_eq_2 length_Suc_conv)
  then show ?thesis by (auto simp: on_service_stats_def)
next
  case True
  then obtain service body where parts: "parts = [service, body]" "service \<noteq> []" by blast
  show ?thesis
  proof (cases "bt_dict_consumer B body")
    case (Inr d)
    obtain r where r: "stats_tx B now service d (db hm) = Some r"
      "\<forall>tables'. r = Inr tables' \<longrightarrow> fold_r (apply_stat service) (bt_pairs B d)
         (set_stat_int '''' (''last.'' @ service) (unix_timestamp now) (db hm)) = Inr tables'"
      using stats_tx_total [OF assms] by blast
    with Inr parts show ?thesis by (cases r) (auto simp: on_service_stats_def)
  qed (use parts in \<open>simp add: on_service_stats_def\<close>)
qed

fun drop_item :: "string \<Rightarrow> bt \<Rightarrow> drop_state \<Rightarrow> drop_state result" where
  "drop_item service (BtStr svcid) (reqed, deleted, matched, tables) =
     (case drop_registration service svcid tables of
        (del, tables') \<Rightarrow> Inr (reqed + 1, deleted + int del, if del > 0 then matched + 1 else matched, tables'))"
| "drop_item service _ st = Inl bt_invalid_type"

lemma drop_entry_reads:
  assumes doc: "bt_reads_documented B" and e: "drop_entry B service d st = Inr (st', d')" and ne: "bt_items B d \<noteq> []"
  shows "\<exists>x. bt_items B d = x # bt_items B d' \<and> drop_item service x st = Inr st'"
proof -
  obtain rq dl mt tables where st: "st = (rq, dl, mt, tables)" by (metis prod.exhaust)
  obtain svcid where s: "bt_consume_string B d = Inr (svcid, d')" "drop_item service (BtStr svcid) st = Inr st'"
    using e by (auto simp: st drop_entry_def result_simps split_beta)
  then have "bt_items B d = BtStr svcid # bt_items B d'"
    using doc ne unfolding bt_reads_documented_def by blast
  with s show ?thesis by blast
qed

lemma drop_loop_total:
  assumes doc: "bt_reads_documented B"
  shows "\<exists>r. consume_all (\<lambda>d. \<not> bt_is_finished B d) (drop_entry B service) (length (bt_items B drops)) drops st = Some r \<and>
    (\<forall>st'. r = Inr st' \<longrightarrow> fold_r (drop_item service) (bt_items B drops) st = Inr st')"
proof (rule consume_all_total)
  show "(\<not> bt_is_finished B d) \<longleftrightarrow> bt_items B d \<noteq> []" for d
    using doc unfolding bt_reads_documented_def by blast
qed (rule drop_entry_reads [OF doc])

lemma drop_registration_view:
  assumes ok: "db_ok tables" and drop: "drop_registration service svcid tables = (n, tables')"
  shows "db_ok tables'"
    "sub_view tables' (a, s, i) = (if s = service \<and> i = svcid then None else sub_view tables (a, s, i))"
    "int (length (subscriptions tables')) + int n = int (length (subscriptions tables))"
proof -
  have del: "delete_subscriptions (\<lambda>r. row_service r = service \<and> row_svcid r = svcid) tables = (n, tables')"
    using drop by (simp add: drop_registration_def)
  show "db_ok tables'" using ok del by (rule delete_subscriptions_ok)
  show "sub_view tables' (a, s, i) = (if s = service \<and> i = svcid then None else sub_view tables (a, s, i))"
    using delete_subscriptions_view [OF ok del, of "(a, s, i)"] ok
    by (auto simp: sub_view_def select_Some_iff row_key_def split: option.splits)
  show "int (length (subscriptions tables')) + int n = int (length (subscriptions tables))"
    using del sum_length_filter_compl [of "\<lambda>r. row_service r = service \<and> row_svcid r = svcid" "subscriptions tables"]
    by (auto simp: delete_subscriptions_def Let_def)
qed

lemma drop_all:
  "fold_r (drop_item service) items (rq, dl, mt, tables) = Inr (rq', dl', mt', tables') \<Longrightarrow> db_ok tables \<Longrightarrow>
   \<exists>ids. items = map BtStr ids \<and> rq' = rq + int (length ids) \<and> db_ok tables' \<and>
     (\<forall>a s i. sub_view tables' (a, s, i) = (if s = service \<and> i \<in> set ids then None else sub_view tables (a, s, i))) \<and>
     dl' = dl + int (length (subscriptions tables)) - int (length (subscriptions tables'))"
proof (induction items arbitrary: rq dl mt tables)
  case (Cons x items)
  obtain svcid where x: "x = BtStr svcid" using Cons.prems(1) by (cases x) simp_all
  obtain n t1 where d: "drop_registration service svcid tables = (n, t1)" by (metis prod.exhaust)
  have "fold_r (drop_item service) items (rq + 1, dl + int n, if n > 0 then mt + 1 else mt, t1) = Inr (rq', dl', mt', tables')"
    using Cons.prems(1) by (simp add: x d)
  from Cons.IH [OF this drop_registration_view(1) [OF Cons.prems(2) d]]
  obtain ids where "items = map BtStr ids" "rq' = rq + 1 + int (length ids)" "db_ok tables'"
    "\<forall>a s i. sub_view tables' (a, s, i) = (if s = service \<and> i \<in> set ids then None else sub_view t1 (a, s, i))"
    "dl' = dl + int n + int (length (subscriptions t1)) - int (length (subscriptions tables'))" by blast
  with drop_registration_view [OF Cons.prems(2) d] show ?case
    by (intro exI [of _ "svcid # ids"]) (auto simp: x)
qed simp


section \<open>The statistics report\<close>

text \<open>
  The report is a JSON object built by assignments \<^verbatim>\<open>result[k1][k2]... = v\<close>; the model keeps it as
  the map from the path of keys to the value assigned last. The program's own paths never extend
  one another. The library's object lists its keys in order; the order of the list here stands for
  any. The up-time is kept in nanoseconds.
\<close>

datatype report_value = RStr string | RInt int | RBool bool | RNanos nanos

type_synonym report = "(string list \<times> report_value) list"

fun stat_row :: "nanos \<Rightarrow> (string \<times> string) \<times> stat_val \<Rightarrow> report \<Rightarrow> report" where
  "stat_row now ((service, name), v) r =
     (if service = [] then
        (case v of
           ValStr s \<Rightarrow> AList.update [name] (RStr s) r
         | ValInt i \<Rightarrow>
             let r1 = AList.update [name] (RInt i) r in
             if starts_with name ''last.''
             then AList.update [''alive.'' @ drop 5 name] (RBool (i > unix_timestamp (now - 60 * nanos_per_sec))) r1
             else r1)
      else AList.update [''notifier'', service, name] (case v of ValStr s \<Rightarrow> RStr s | ValInt i \<Rightarrow> RInt i) r)"

text \<open>\<^verbatim>\<open>SELECT service, COUNT(*) FROM subscriptions GROUP BY service\<close>\<close>

definition count_by_service :: "DB \<Rightarrow> (string \<times> int) list" where
  "count_by_service tables =
     map (\<lambda>s. (s, int (length (filter (\<lambda>r. row_service r = s) (subscriptions tables)))))
       (remdups (map row_service (subscriptions tables)))"

fun count_row :: "string \<times> int \<Rightarrow> report \<times> int \<Rightarrow> report \<times> int" where
  "count_row (service, n) (r, tot) = (AList.update [''subscriptions'', service] (RInt n) r, tot + n)"

definition report_tables :: "nanos \<Rightarrow> DB \<Rightarrow> report" where
  "report_tables now tables =
     (case fold count_row (count_by_service tables) (fold (stat_row now) (service_stats tables) [], 0) of
        (r, tot) \<Rightarrow> AList.update [''subscriptions'', ''total''] (RInt tot) r)"

text \<open>\<open>now2\<close> is the clock reading on the loop.\<close>

definition get_stats_json :: "nanos \<Rightarrow> nanos \<Rightarrow> nanos \<Rightarrow> HiveMind \<Rightarrow> report" where
  "get_stats_json now now2 startup_time hm =
     (let n = net hm;
          n_conns = length (filter (\<lambda>e. connected (snd e)) (sns n));
          r0 = report_tables now (db hm);
          r1 = AList.update [''block_hash''] (RStr (fst (last_block n))) r0;
          r2 = AList.update [''block_height''] (RInt (snd (last_block n))) r1;
          r3 = AList.update [''swarms''] (RInt (int (length (swarms n)))) r2;
          r4 = AList.update [''snodes''] (RInt (int (length (sns n)))) r3;
          r5 = AList.update [''accounts_monitored''] (RInt (int (length (subscribers n)))) r4;
          r6 = AList.update [''connections''] (RInt (int n_conns)) r5;
          r7 = AList.update [''pending_connections''] (RInt (pending_connects (gate n))) r6
      in AList.update [''uptime''] (RNanos (now2 - startup_time)) r7)"

section \<open>The status line\<close>

definition report_int64 :: "report_value \<Rightarrow> int result" where
  "report_int64 v = (case v of RInt i \<Rightarrow> Inr i | RBool b \<Rightarrow> Inr (of_bool b) | RNanos t \<Rightarrow> Inr (trunc_div t nanos_per_sec)
     | RStr _ \<Rightarrow> Inl (json_exception ''type must be number, but is string''))"

text \<open>\<^verbatim>\<open>get<int>()\<close> narrows to 32 bits.\<close>

definition report_int :: "report \<Rightarrow> string list \<Rightarrow> int result" where
  "report_int r path =
     bind_r (require_r (json_exception ''type must be number, but is null'') (map_of r path)) (\<lambda>v.
     bind_r (report_int64 v) (\<lambda>i. Inr ((i + 2 ^ 31) mod 2 ^ 32 - 2 ^ 31)))"

text \<open>The notifiers heard of lately, and all their notifications.\<close>

definition live_notifiers :: "nanos \<Rightarrow> nanos \<Rightarrow> report \<Rightarrow> string list result" where
  "live_notifiers startup_time now r =
     bind_r (traverse_r (\<lambda>(path, v). bind_r (report_int64 v) (\<lambda>t. Inr (hd path, t)))
               (filter (\<lambda>(path, v). length path = 1 \<and> starts_with (hd path) ''last.'') r)) (\<lambda>seen.
     Inr (map (\<lambda>(k, t). drop 5 k)
       (filter (\<lambda>(k, t). t \<ge> unix_timestamp startup_time \<and> t \<ge> unix_timestamp (now - 60 * nanos_per_sec)) seen)))"

definition total_notifies :: "report \<Rightarrow> int result" where
  "total_notifies r =
     bind_r (traverse_r (\<lambda>(path, v). report_int64 v)
               (filter (\<lambda>(path, v). length path = 3 \<and> path ! 0 = ''notifier'' \<and> path ! 2 = ''notifies'') r)) (\<lambda>ns.
     Inr (sum_list ns))"

definition stat_line :: "nanos \<Rightarrow> nanos \<Rightarrow> int \<Rightarrow> report \<Rightarrow> string result" where
  "stat_line startup_time now pushes_processed r =
     bind_r (live_notifiers startup_time now r) (\<lambda>notifiers.
     bind_r (total_notifies r) (\<lambda>tot.
     bind_r (report_int r [''connections'']) (\<lambda>conns.
     bind_r (report_int r [''snodes'']) (\<lambda>nodes.
     bind_r (report_int r [''pending_connections'']) (\<lambda>pend.
     bind_r (report_int r [''block_height'']) (\<lambda>height.
     bind_r (report_int r [''accounts_monitored'']) (\<lambda>accts.
     bind_r (report_int r [''subscriptions'', ''total'']) (\<lambda>subs.
     Inr (''SN conns: '' @ to_chars conns @ ''/'' @ to_chars nodes @ '' ('' @ to_chars pend @ '' pending); Height: '' @
          to_chars height @ ''; Accts/Subs: '' @ to_chars accts @ ''/'' @ to_chars subs @ ''; svcs: '' @
          join '', '' notifiers @ ''; notifies: '' @ to_chars tot @ ''; pushes recv'' @ [CHR 0x27] @ ''d: '' @
          to_chars pushes_processed)))))))))"

text \<open>The text for systemd, whether the line is logged at info level, and the new time of the last such line.\<close>

definition log_stats ::
  "nanos \<Rightarrow> nanos \<Rightarrow> nanos \<Rightarrow> int \<Rightarrow> string \<Rightarrow> report \<Rightarrow> nanos \<Rightarrow> (string \<times> bool \<times> nanos) result" where
  "log_stats startup_time now steady pushes_processed pre_cmd r last_stats_logged =
     bind_r (stat_line startup_time now pushes_processed r) (\<lambda>line.
     let sd_out = (if pre_cmd = [] then ''STATUS='' @ line else pre_cmd @ [CHR 0x0A] @ ''STATUS='' @ line)
     in if steady - last_stats_logged \<ge> (4 * 60 + 55) * nanos_per_sec then Inr (sd_out, True, steady)
        else Inr (sd_out, False, last_stats_logged))"

lemma length_filter_count: "length (filter (\<lambda>x. f x = y) xs) = count_list (map f xs) y"
  by (induction xs) auto

lemma sum_count_by_service: "sum_list (map snd (count_by_service tables)) = int (length (subscriptions tables))"
proof -
  let ?names = "map row_service (subscriptions tables)"
  have "sum_list (map snd (count_by_service tables)) = int (\<Sum>s \<in> set ?names. count_list ?names s)"
    by (simp add: count_by_service_def comp_def sum_list_distinct_conv_sum_set length_filter_count)
  also have "(\<Sum>s \<in> set ?names. count_list ?names s) = length (subscriptions tables)"
    using sum_count_set [of ?names "set ?names"] by simp
  finally show ?thesis .
qed

lemma fold_count_row:
  "snd (fold count_row l (r, t)) = t + sum_list (map snd l)"
  "path \<notin> (\<lambda>e. [''subscriptions'', fst e]) ` set l \<Longrightarrow> map_of (fst (fold count_row l (r, t))) path = map_of r path"
  "distinct (map fst l) \<Longrightarrow> (s, n) \<in> set l \<Longrightarrow> map_of (fst (fold count_row l (r, t))) [''subscriptions'', s] = Some (RInt n)"
proof -
  show "snd (fold count_row l (r, t)) = t + sum_list (map snd l)"
    by (induction l arbitrary: r t) auto
  show other: "map_of (fst (fold count_row l (r, t))) path = map_of r path"
    if "path \<notin> (\<lambda>e. [''subscriptions'', fst e]) ` set l" for l r t path
    using that by (induction l arbitrary: r t) (auto simp: alist_simps)
  show "distinct (map fst l) \<Longrightarrow> (s, n) \<in> set l \<Longrightarrow> map_of (fst (fold count_row l (r, t))) [''subscriptions'', s] = Some (RInt n)"
  proof (induction l arbitrary: r t)
    case (Cons e l)
    show ?case
    proof (cases "e = (s, n)")
      case True
      with Cons.prems(1) have "[''subscriptions'', s] \<notin> (\<lambda>e. [''subscriptions'', fst e]) ` set l" by auto
      from other [OF this] show ?thesis by (simp add: True alist_simps)
    next
      case False
      with Cons show ?thesis by (cases e) auto
    qed
  qed simp
qed

text \<open>
  The report's counts agree with the state: the total is the number of subscriptions, every
  service's count the number of its own, and connections are counted among the nodes known.
\<close>

lemma report_counts:
  fixes hm :: HiveMind and now now2 startup_time :: nanos
  defines "r \<equiv> get_stats_json now now2 startup_time hm"
  shows "map_of r [''subscriptions'', ''total''] = Some (RInt (int (length (subscriptions (db hm)))))"
    and "s \<in> row_service ` set (subscriptions (db hm)) \<Longrightarrow> s \<noteq> ''total'' \<Longrightarrow>
      map_of r [''subscriptions'', s] = Some (RInt (int (length (filter (\<lambda>x. row_service x = s) (subscriptions (db hm))))))"
    and "\<exists>c. map_of r [''connections''] = Some (RInt c) \<and> map_of r [''snodes''] = Some (RInt (int (length (sns (net hm))))) \<and>
      0 \<le> c \<and> c \<le> int (length (sns (net hm)))"
proof -
  obtain rt tot where f: "fold count_row (count_by_service (db hm)) (fold (stat_row now) (service_stats (db hm)) [], 0) = (rt, tot)"
    by (metis prod.exhaust)
  have tot: "tot = int (length (subscriptions (db hm)))"
    using fold_count_row(1) [of "count_by_service (db hm)" "fold (stat_row now) (service_stats (db hm)) []" 0]
    by (simp add: f sum_count_by_service)
  show "map_of r [''subscriptions'', ''total''] = Some (RInt (int (length (subscriptions (db hm)))))"
    by (simp add: r_def get_stats_json_def Let_def report_tables_def f tot alist_simps)
  show "map_of r [''subscriptions'', s] = Some (RInt (int (length (filter (\<lambda>x. row_service x = s) (subscriptions (db hm))))))"
    if "s \<in> row_service ` set (subscriptions (db hm))" "s \<noteq> ''total''"
  proof -
    have "distinct (map fst (count_by_service (db hm)))" by (simp add: count_by_service_def comp_def)
    moreover have "(s, int (length (filter (\<lambda>x. row_service x = s) (subscriptions (db hm))))) \<in> set (count_by_service (db hm))"
      using that(1) by (simp add: count_by_service_def)
    ultimately have "map_of rt [''subscriptions'', s] = Some (RInt (int (length (filter (\<lambda>x. row_service x = s) (subscriptions (db hm))))))"
      using fold_count_row(3) f by (metis fst_conv)
    with that(2) show ?thesis by (simp add: r_def get_stats_json_def Let_def report_tables_def f alist_simps)
  qed
  show "\<exists>c. map_of r [''connections''] = Some (RInt c) \<and> map_of r [''snodes''] = Some (RInt (int (length (sns (net hm))))) \<and>
      0 \<le> c \<and> c \<le> int (length (sns (net hm)))"
    by (simp add: r_def get_stats_json_def Let_def alist_simps)
qed

section \<open>Witnesses of the calls\<close>

theorem on_service_stats_atomic_witness:
  "\<exists>tables'. on_service_stats (sample_bt [(''+n'', BtInt 3)]) 0 [''apns'', []] empty_hm = empty_hm\<lparr>db := tables'\<rparr> \<and>
     map_of (service_stats tables') (''apns'', ''n'') = Some (ValInt 3)"
proof -
  let ?B = "sample_bt [(''+n'', BtInt 3)]"
  have ne: "on_service_stats ?B 0 [''apns'', []] empty_hm \<noteq> empty_hm"
    by (simp add: on_service_stats_def stats_tx_def stat_entry_def sample_bt_def increment_stat_def set_stat_int_def
        empty_hm_def empty_DB_def is_int64_def int64_min_def int64_max_def unix_timestamp_def trunc_div_def)
  from on_service_stats_atomic [OF sample_bt_reads, of "[(''+n'', BtInt 3)]" 0 "[''apns'', []]" empty_hm] ne
  show ?thesis
    by (auto simp: sample_bt_def apply_stat_def increment_stat_def set_stat_int_def empty_hm_def empty_DB_def
        is_int64_def int64_min_def int64_max_def)
qed


end
