(* ===== verification/Lifecycle.thy ===== *)
theory Lifecycle
  imports Statistics
begin

text \<open>
  Start-up and shutdown of \<^verbatim>\<open>HiveMind\<close> (\<^verbatim>\<open>spns/hivemind.cpp\<close>, lines 41-388, and \<^verbatim>\<open>spns/config.hpp\<close>): who
  counts as an administrator, which QUIC endpoint makes the outbound connections, the clean-up and
  loading of the stored subscriptions, the wait for the notifiers, and the destructor.
\<close>

section \<open>Configuration\<close>

text \<open>An address is what the QUIC library says of it.\<close>

record Address =
  is_ipv4 :: bool
  is_ipv6 :: bool
  is_any_addr :: bool
  dual_stack :: bool
  addr_host :: string
  addr_port :: nat

record Config =
  oxend_rpc :: string
  pg_connect :: string
  hivemind_sock :: string
  hivemind_curve :: "string option"
  hivemind_curve_admin :: "bytes list"
  omq_pubkey :: bytes
  omq_privkey :: bytes
  quic_listen :: "Address list"
  quic_keys :: "bytes option"
  filter_lifetime :: seconds
  notifier_wait :: nanos
  notifiers_expected :: "string list"
  conf_max_pending_connects :: int

definition default_Config :: Config where
  "default_Config =
     \<lparr>oxend_rpc = [], pg_connect = ''postgresql:///spns'', hivemind_sock = ''ipc://./hivemind.sock'', hivemind_curve = None,
      hivemind_curve_admin = [], omq_pubkey = replicate X25519PK_SIZE 0, omq_privkey = replicate X25519SK_SIZE 0,
      quic_listen = [], quic_keys = None, filter_lifetime = 10 * 60, notifier_wait = 10 * nanos_per_sec,
      notifiers_expected = [], conf_max_pending_connects = 500\<rparr>"

datatype auth_level = auth_none | auth_basic | auth_admin

definition allow_curve_conn :: "Config \<Rightarrow> string \<Rightarrow> auth_level" where
  "allow_curve_conn config pk =
     (if list_ex (\<lambda>admin. as_sv admin = pk) (hivemind_curve_admin config) then auth_admin else auth_none)"

section \<open>Endpoints\<close>

text \<open>A listening endpoint is named by its position in \<^verbatim>\<open>quic_listen\<close>; the flag says whether it got the outbound protocol.\<close>

datatype endpoint = Listening nat | Outbound_only

record endpoints =
  quic_in :: "(Address \<times> bool) list"
  ep_out :: "endpoint option"

definition outbound_capable :: "Address \<Rightarrow> bool" where
  "outbound_capable a \<longleftrightarrow> is_ipv4 a \<or> (is_ipv6 a \<and> is_any_addr a \<and> dual_stack a)"

fun listen_loop :: "Address list \<Rightarrow> endpoints \<Rightarrow> endpoints" where
  "listen_loop [] eps = eps"
| "listen_loop (a # as) eps =
     (let maybe_out = (ep_out eps = None \<and> outbound_capable a)
      in listen_loop as
           (eps\<lparr>quic_in := quic_in eps @ [(a, maybe_out)],
                ep_out := (if maybe_out then Some (Listening (length (quic_in eps))) else ep_out eps)\<rparr>))"

definition setup_endpoints :: "Config \<Rightarrow> endpoints result" where
  "setup_endpoints config =
     bind_r (if quic_listen config \<noteq> [] then
               (if quic_keys config = None then
                  Inl (runtime_error ''Configuration error: quic_listen requires quic_keys'')
                else Inr (listen_loop (quic_listen config) \<lparr>quic_in = [], ep_out = None\<rparr>))
             else Inr \<lparr>quic_in = [], ep_out = None\<rparr>) (\<lambda>eps.
     Inr (if ep_out eps = None then eps\<lparr>ep_out := Some Outbound_only\<rparr> else eps))"

section \<open>Start-up\<close>

text \<open>
  The constructor up to the start of its threads: endpoints, database clean-up, loading. A failure
  of any of them ends the start-up.
\<close>

definition HiveMind_ctor ::
  "oxenc_lib \<Rightarrow> sodium_lib \<Rightarrow> Config \<Rightarrow> nanos \<Rightarrow> (nat \<Rightarrow> seconds) \<Rightarrow> int \<Rightarrow> HiveMind \<Rightarrow> (endpoints \<times> HiveMind) result" where
  "HiveMind_ctor ox sod config now clock hardware hm =
     bind_r (setup_endpoints config) (\<lambda>eps.
     bind_r (load_saved_subscriptions ox sod clock hardware (hm\<lparr>db := db_cleanup now (db hm)\<rparr>)) (\<lambda>hm'.
     Inr (eps, hm')))"

text \<open>
  The wait for the notifiers: poll \<open>k\<close> reads the clock \<open>clock k\<close> and the state \<open>state k\<close>; the result
  is the number of the poll that ended it, \<open>None\<close> that the fuel ran out.
\<close>

fun wait_loop :: "string list \<Rightarrow> nanos \<Rightarrow> (nat \<Rightarrow> nanos) \<Rightarrow> (nat \<Rightarrow> HiveMind) \<Rightarrow> nat \<Rightarrow> nat \<Rightarrow> nat option" where
  "wait_loop expected wait_until clock state 0 k = None"
| "wait_loop expected wait_until clock state (Suc fuel) k =
     (if fst (notifier_startup_done expected wait_until (clock k) (state k)) then Some k
      else wait_loop expected wait_until clock state fuel (Suc k))"

definition wait_for_notifiers :: "Config \<Rightarrow> nanos \<Rightarrow> (nat \<Rightarrow> nanos) \<Rightarrow> (nat \<Rightarrow> HiveMind) \<Rightarrow> nat \<Rightarrow> nat option" where
  "wait_for_notifiers config start clock state fuel =
     (if notifier_wait config > 0
      then wait_loop (notifiers_expected config) (start + notifier_wait config) clock state fuel 0
      else Some 0)"

section \<open>Shutdown\<close>

text \<open>
  \<^verbatim>\<open>quic_out_\<close> is taken away first; destroying the endpoint then fires the disconnect callbacks of
  the open connections, and the nodes are cleared last.
\<close>

definition take_quic_out :: "Net \<Rightarrow> Net" where
  "take_quic_out n = n\<lparr>gate := (gate n)\<lparr>quic_out := False\<rparr>\<rparr>"

definition HiveMind_dtor :: "env \<Rightarrow> bytes list \<Rightarrow> Net \<Rightarrow> Net" where
  "HiveMind_dtor e open_conns n =
     (fold (on_disconnected e) open_conns (take_quic_out n))\<lparr>swarms := [], sns := []\<rparr>"

section \<open>Properties of the start-up\<close>

text \<open>The first address, if any, that can make outbound connections.\<close>

fun first_capable :: "Address list \<Rightarrow> nat option" where
  "first_capable [] = None"
| "first_capable (a # as) = (if outbound_capable a then Some 0 else map_option Suc (first_capable as))"

lemma listen_loop_chosen:
  "ep_out eps \<noteq> None \<Longrightarrow> listen_loop as eps = eps\<lparr>quic_in := quic_in eps @ map (\<lambda>a. (a, False)) as\<rparr>"
  by (induction as arbitrary: eps) (auto simp: Let_def)

lemma listen_loop_first:
  "ep_out eps = None \<Longrightarrow>
   listen_loop as eps =
     eps\<lparr>quic_in := quic_in eps @ map (\<lambda>i. (as ! i, first_capable as = Some i)) [0..<length as],
         ep_out := map_option (\<lambda>i. Listening (length (quic_in eps) + i)) (first_capable as)\<rparr>"
proof (induction as arbitrary: eps)
  case (Cons a as)
  have shift: "map (\<lambda>i. ((a # as) ! i, P i)) [0..<length (a # as)] = (a, P 0) # map (\<lambda>i. (as ! i, P (Suc i))) [0..<length as]" for P
    by (simp add: map_upt_Suc del: upt_Suc)
  show ?case
  proof (cases "outbound_capable a")
    case True
    have "map (\<lambda>i. (as ! i, False)) [0..<length as] = map (\<lambda>a. (a, False)) as"
      by (rule nth_equalityI) simp_all
    with True Cons.prems show ?thesis
      unfolding shift by (simp add: listen_loop_chosen Let_def)
  next
    case False
    have "(\<lambda>i. (as ! i, first_capable as = Some i)) = (\<lambda>i. (as ! i, map_option Suc (first_capable as) = Some (Suc i)))"
      by (auto simp: fun_eq_iff)
    moreover have "map_option (\<lambda>i. Listening (Suc n + i)) x = map_option (\<lambda>i. Listening (n + i)) (map_option Suc x)" for n x
      by (cases x) simp_all
    ultimately show ?thesis
      using False Cons unfolding shift by (simp add: Let_def)
  qed
qed simp

text \<open>
  Start-up refuses to listen without a key. Otherwise it listens on every configured address and
  always has exactly one endpoint for outbound connections: the first listening one that is IPv4
  capable, which alone gets the outbound protocol, or an additional one when there is none.
\<close>

theorem setup_endpoints_outbound:
  "case setup_endpoints config of
     Inl _ \<Rightarrow> quic_listen config \<noteq> [] \<and> quic_keys config = None
   | Inr eps \<Rightarrow> (quic_listen config = [] \<or> quic_keys config \<noteq> None) \<and>
       map fst (quic_in eps) = quic_listen config \<and>
       ep_out eps = Some (case first_capable (quic_listen config) of Some i \<Rightarrow> Listening i | None \<Rightarrow> Outbound_only) \<and>
       (\<forall>i < length (quic_in eps). snd (quic_in eps ! i) \<longleftrightarrow> ep_out eps = Some (Listening i))"
proof (cases "quic_listen config = [] \<or> quic_keys config \<noteq> None")
  case False
  then show ?thesis by (simp add: setup_endpoints_def)
next
  case True
  let ?as = "quic_listen config"
  define eps where "eps = listen_loop ?as \<lparr>quic_in = [], ep_out = None\<rparr>"
  have eps: "eps = \<lparr>quic_in = map (\<lambda>i. (?as ! i, first_capable ?as = Some i)) [0..<length ?as],
      ep_out = map_option Listening (first_capable ?as)\<rparr>"
    unfolding eps_def by (simp add: listen_loop_first)
  have "setup_endpoints config = Inr (if ep_out eps = None then eps\<lparr>ep_out := Some Outbound_only\<rparr> else eps)"
    using True by (auto simp: setup_endpoints_def eps_def)
  moreover have "map fst (quic_in eps) = ?as" unfolding eps by (simp add: comp_def map_nth)
  ultimately show ?thesis using True unfolding eps by (cases "first_capable ?as") auto
qed

lemma wait_loop_Some:
  assumes "wait_loop expected wait_until clock state fuel k = Some n"
  shows "k \<le> n \<and> fst (notifier_startup_done expected wait_until (clock n) (state n)) \<and>
    (\<forall>j. k \<le> j \<and> j < n \<longrightarrow> \<not> fst (notifier_startup_done expected wait_until (clock j) (state j)))"
  using assms
proof (induction expected wait_until clock state fuel k rule: wait_loop.induct)
  case (2 expected wait_until clock state fuel k)
  show ?case
  proof (cases "fst (notifier_startup_done expected wait_until (clock k) (state k))")
    case True
    with 2 show ?thesis by auto
  next
    case False
    with 2 have IH: "Suc k \<le> n \<and> fst (notifier_startup_done expected wait_until (clock n) (state n)) \<and>
        (\<forall>j. Suc k \<le> j \<and> j < n \<longrightarrow> \<not> fst (notifier_startup_done expected wait_until (clock j) (state j)))" by simp
    then show ?thesis using False by (metis Suc_leD Suc_leI le_neq_implies_less)
  qed
qed simp

lemma wait_loop_enough:
  assumes "fst (notifier_startup_done expected wait_until (clock n) (state n))" "k \<le> n" "n < k + fuel"
  shows "\<exists>m. wait_loop expected wait_until clock state fuel k = Some m \<and> m \<le> n"
  using assms
proof (induction expected wait_until clock state fuel k rule: wait_loop.induct)
  case (2 expected wait_until clock state fuel k)
  then show ?case by (cases "k = n") auto
qed simp

lemma polls_grow:
  assumes "\<forall>k. clock k + 25000000 \<le> clock (Suc k)" "start \<le> clock 0"
  shows "start + 25000000 * int k \<le> clock k"
proof (induction k)
  case (Suc k)
  then show ?case using assms(1) [rule_format, of k] by simp
qed (use assms(2) in simp)

lemma wait_time_over:
  assumes "\<forall>k. clock k + 25000000 \<le> clock (Suc k)" "start \<le> clock 0" "0 < wait"
  shows "clock (nat (wait div 25000000) + 1) > start + wait"
proof -
  have "wait < 25000000 * int (nat (wait div 25000000) + 1)"
    using assms(3) div_mult_mod_eq [of wait 25000000] pos_mod_bound [of 25000000 wait]
    by (simp add: pos_imp_zdiv_nonneg_iff)
  with polls_grow [OF assms(1,2), of "nat (wait div 25000000) + 1"] show ?thesis by linarith
qed

lemma wait_for_notifiers_total:
  assumes "\<forall>k. clock k + 25000000 \<le> clock (Suc k)" "start \<le> clock 0"
    and "nat (notifier_wait config div 25000000) + 2 \<le> fuel"
  shows "\<exists>n. wait_for_notifiers config start clock state fuel = Some n"
proof (cases "0 < notifier_wait config")
  case True
  let ?n = "nat (notifier_wait config div 25000000) + 1"
  have "fst (notifier_startup_done (notifiers_expected config) (start + notifier_wait config) (clock ?n) (state ?n))"
    using wait_time_over [OF assms(1,2) True] by (simp add: notifier_startup_done_def Let_def)
  from wait_loop_enough [where clock = clock and state = state and n = ?n, OF this, where k = 0 and fuel = fuel] assms(3) True show ?thesis
    by (auto simp: wait_for_notifiers_def)
qed (simp add: wait_for_notifiers_def)

text \<open>
  The wait for the notifiers ends: with a clock that advances at least 25 ms from poll to poll,
  at most \<open>notifier_wait / 25 ms + 2\<close> polls are made. It ends at the first poll that finds every
  expected notifier registered (when any is named) or the time over.
\<close>

theorem wait_for_notifiers_ends:
  assumes clock: "\<forall>k. clock k + 25000000 \<le> clock (Suc k)" and start: "start \<le> clock 0"
    and fuel: "fuel = nat (notifier_wait config div 25000000) + 2" and wait: "0 < notifier_wait config"
  shows "\<exists>n. wait_for_notifiers config start clock state fuel = Some n \<and> n < fuel \<and>
    (let ended = (\<lambda>k. (notifiers_expected config \<noteq> [] \<and> (\<forall>s \<in> set (notifiers_expected config). map_of (services (state k)) s \<noteq> None))
       \<or> clock k > start + notifier_wait config) in ended n \<and> (\<forall>j < n. \<not> ended j))"
proof -
  have poll: "fst (notifier_startup_done (notifiers_expected config) (start + notifier_wait config) (clock k) (state k)) \<longleftrightarrow>
      (notifiers_expected config \<noteq> [] \<and> (\<forall>s \<in> set (notifiers_expected config). map_of (services (state k)) s \<noteq> None))
       \<or> clock k > start + notifier_wait config" for k
    by (auto simp: notifier_startup_done_def Let_def filter_empty_conv)
  let ?n = "nat (notifier_wait config div 25000000) + 1"
  have "clock ?n > start + notifier_wait config" by (rule wait_time_over [OF clock start wait])
  then obtain m where m: "wait_loop (notifiers_expected config) (start + notifier_wait config) clock state fuel 0 = Some m" "m \<le> ?n"
    using wait_loop_enough [of "notifiers_expected config" "start + notifier_wait config" clock ?n state 0 fuel] poll fuel
    by auto
  with wait_loop_Some [OF m(1)] wait fuel show ?thesis
    by (intro exI [of _ m]) (simp add: wait_for_notifiers_def Let_def poll)
qed

lemma HiveMind_ctor_db:
  assumes "db_ok (db hm)" "HiveMind_ctor ox sod config now clock hardware hm = Inr (eps, hm')"
  shows "\<exists>hm1. load_saved_subscriptions ox sod clock hardware hm1 = Inr hm' \<and> db_ok (db hm1) \<and>
    (\<forall>r \<in> set (subscriptions (db hm1)). unix_timestamp (now - SIGNATURE_EXPIRY * nanos_per_sec) < signature_ts (row_vals r))"
proof -
  let ?hm1 = "hm\<lparr>db := db_cleanup now (db hm)\<rparr>"
  have "load_saved_subscriptions ox sod clock hardware ?hm1 = Inr hm'"
    using assms(2) by (auto simp: HiveMind_ctor_def result_simps)
  moreover have "db_ok (db ?hm1)"
    using delete_subscriptions_snd_ok [OF assms(1)] by (simp add: db_cleanup_def)
  moreover have "r \<in> set (subscriptions (db ?hm1)) \<Longrightarrow>
      unix_timestamp (now - SIGNATURE_EXPIRY * nanos_per_sec) < signature_ts (row_vals r)" for r
    by (simp add: db_cleanup_def delete_subscriptions_def Let_def)
  ultimately show ?thesis by blast
qed

section \<open>Shutdown is quiet\<close>

text \<open>
  Once \<^verbatim>\<open>quic_out_\<close> is taken away the disconnect callbacks neither open a connection nor touch the
  count of pending ones, and no node is left at the end.
\<close>

lemma on_disconnected_shutdown:
  assumes "\<not> quic_out (gate n)"
  shows "gate (on_disconnected e pk n) = gate n"
  using assms by (auto simp: on_disconnected_def snode_on_disconnected_def Let_def split: option.splits prod.splits)

lemma HiveMind_dtor_quiet:
  "gate (HiveMind_dtor e open_conns n) = (gate n)\<lparr>quic_out := False\<rparr> \<and>
   sns (HiveMind_dtor e open_conns n) = [] \<and> swarms (HiveMind_dtor e open_conns n) = []"
proof -
  have "\<not> quic_out (gate m) \<Longrightarrow> gate (fold (on_disconnected e) open_conns m) = gate m" for m
    by (induction open_conns arbitrary: m) (simp_all add: on_disconnected_shutdown)
  then show ?thesis by (simp add: HiveMind_dtor_def take_quic_out_def)
qed

section \<open>Witnesses of the start-up\<close>

theorem wait_for_notifiers_ends_witness:
  "\<exists>n < 402. wait_for_notifiers (default_Config\<lparr>notifiers_expected := [''apns'']\<rparr>)
     0 (\<lambda>k. 25000000 * int k) (\<lambda>_. empty_hm) 402 = Some n"
proof -
  let ?config = "default_Config\<lparr>notifiers_expected := [''apns'']\<rparr>"
  have "notifier_wait ?config = 10000000000" by (simp add: default_Config_def nanos_per_sec_def)
  then have "\<exists>n. wait_for_notifiers ?config 0 (\<lambda>k. 25000000 * int k) (\<lambda>_. empty_hm) 402 = Some n \<and> n < 402"
    using wait_for_notifiers_ends [where config = ?config and start = 0 and clock = "\<lambda>k. 25000000 * int k"
        and state = "\<lambda>_. empty_hm" and fuel = 402] by auto
  then show ?thesis by blast
qed


section \<open>The whole start-up\<close>

text \<open>
  The connection to oxend and the ping over it: the first argument is the error of the connection,
  if it failed, the second what the ping's callback was given.
\<close>

definition ping_error :: "string list \<Rightarrow> string" where
  "ping_error data =
     foldl (\<lambda>err m. err @ '' '' @ m) ''oxend failed to respond to ping:'' (if data = [] then [''(unknown)''] else data)"

fun connect_oxend :: "string option \<Rightarrow> bool \<times> string list \<Rightarrow> unit result" where
  "connect_oxend (Some err) _ = Inl (runtime_error (''oxend connection failed: '' @ err))"
| "connect_oxend None (success, data) = (if success then Inr () else Inl (runtime_error (ping_error data)))"

text \<open>The loop of \<^verbatim>\<open>set_ready\<close> runs until nothing is deferred; with the flag set nothing is added meanwhile.\<close>

definition set_ready_all :: "'m startup \<Rightarrow> 'm startup" where
  "set_ready_all s = (drain_deferred ^^ Suc (length (deferred s))) (set_ready s)"

text \<open>
  The constructor as a whole. \<open>serve k\<close> is the effect of the requests served up to poll \<open>k\<close> of the wait,
  among them registrations of notifiers; \<open>None\<close> is that the fuel of the wait ran out.
\<close>

definition HiveMind_start ::
  "oxenc_lib \<Rightarrow> sodium_lib \<Rightarrow> Config \<Rightarrow> nanos \<Rightarrow> (nat \<Rightarrow> seconds) \<Rightarrow> int \<Rightarrow> string option \<Rightarrow> bool \<times> string list \<Rightarrow>
   nanos \<Rightarrow> (nat \<Rightarrow> nanos) \<Rightarrow> (nat \<Rightarrow> HiveMind \<Rightarrow> HiveMind) \<Rightarrow> nat \<Rightarrow> HiveMind \<Rightarrow> 'm startup \<Rightarrow>
   (endpoints \<times> HiveMind \<times> 'm startup) result option" where
  "HiveMind_start ox sod config now clock hardware oxend_err ping start polls serve fuel hm s =
     (case bind_r (HiveMind_ctor ox sod config now clock hardware hm) (\<lambda>(eps, hm').
           bind_r (connect_oxend oxend_err ping) (\<lambda>_. Inr (eps, hm'))) of
        Inl e \<Rightarrow> Some (Inl e)
      | Inr (eps, hm') \<Rightarrow>
          map_option (\<lambda>n. Inr (eps, serve n hm', set_ready_all s))
            (wait_for_notifiers config start polls (\<lambda>k. serve k hm') fuel))"

lemma drain_all:
  assumes "is_ready s" "is_draining s"
  shows "(drain_deferred ^^ Suc (length (deferred s))) s = s\<lparr>is_draining := False, deferred := [], handled := handled s @ deferred s\<rparr>"
  using assms
proof (induction "deferred s" arbitrary: s)
  case Nil
  then have "deferred s = []" by simp
  then show ?case by (simp add: drain_deferred_def)
next
  case (Cons m ms)
  let ?s1 = "s\<lparr>deferred := ms, handled := handled s @ [m]\<rparr>"
  have "drain_deferred s = ?s1"
    using Cons.prems Cons.hyps(2) [symmetric] by (simp add: startup_defs)
  moreover have "(drain_deferred ^^ Suc (length ms)) ?s1 = ?s1\<lparr>is_draining := False, deferred := [], handled := handled ?s1 @ ms\<rparr>"
    using Cons.hyps(1) [of ?s1] Cons.prems by simp
  ultimately show ?case
    using Cons.hyps(2) [symmetric] by (simp add: funpow_Suc_right del: funpow.simps)
qed

lemma set_ready_all_eq:
  "set_ready_all s = s\<lparr>is_ready := True, is_draining := False, deferred := [], handled := handled s @ deferred s\<rparr>"
  using drain_all [of "set_ready s"] by (simp add: set_ready_all_def set_ready_def)

text \<open>The whole drain consists of steps of the start-up machine.\<close>

lemma drain_steps: "is_draining s \<Longrightarrow> is_ready s \<Longrightarrow> startup_step\<^sup>*\<^sup>* s (s\<lparr>is_draining := False, deferred := [], handled := handled s @ deferred s\<rparr>)"
proof (induction "deferred s" arbitrary: s)
  case Nil
  then have "deferred s = []" by simp
  then have "drain_deferred s = s\<lparr>is_draining := False, deferred := [], handled := handled s @ deferred s\<rparr>"
    by (simp add: drain_deferred_def)
  with startup_step.drain [OF Nil.prems(1)] show ?case by (simp only: r_into_rtranclp)
next
  case (Cons m ms)
  let ?s1 = "s\<lparr>deferred := ms, handled := handled s @ [m]\<rparr>"
  have "startup_step s ?s1"
    using Cons.prems Cons.hyps(2) [symmetric] startup_step.drain [of s] by (simp add: startup_defs)
  moreover have "startup_step\<^sup>*\<^sup>* ?s1 (s\<lparr>is_draining := False, deferred := [], handled := handled s @ deferred s\<rparr>)"
    using Cons.hyps(1) [of ?s1] Cons.prems Cons.hyps(2) [symmetric] by simp
  ultimately show ?case by (rule converse_rtranclp_into_rtranclp)
qed

lemma set_ready_all_steps: "\<not> is_ready s \<Longrightarrow> startup_step\<^sup>*\<^sup>* s (set_ready_all s)"
  using startup_step.flip [of s] drain_steps [of "set_ready s"]
  by (simp add: set_ready_all_eq set_ready_def converse_rtranclp_into_rtranclp)


text \<open>
  C21. Start-up comes to an end: with a clock that advances at least 25 ms from poll to poll it
  either reports an error, and then the QUIC configuration lacks a key, the stored subscriptions
  cannot be loaded, or oxend does not answer, or the server is ready. A ready server has handled
  every request deferred until then, once and in the order of arrival, by steps of the start-up
  machine, and has an endpoint for outbound connections.
\<close>

theorem HiveMind_start_completes:
  assumes clock: "\<forall>k. polls k + 25000000 \<le> polls (Suc k)" "start \<le> polls 0"
    and fuel: "nat (notifier_wait config div 25000000) + 2 \<le> fuel" and before: "\<not> is_ready s"
  shows "\<exists>res. HiveMind_start ox sod config now sclock hardware oxend_err ping start polls serve fuel hm s = Some res \<and>
    (case res of
       Inl e \<Rightarrow> (quic_listen config \<noteq> [] \<and> quic_keys config = None) \<or>
         load_saved_subscriptions ox sod sclock hardware (hm\<lparr>db := db_cleanup now (db hm)\<rparr>) = Inl e \<or>
         (\<exists>err. oxend_err = Some err) \<or> \<not> fst ping
     | Inr (eps, hm', s') \<Rightarrow> oxend_err = None \<and> fst ping \<and> ep_out eps \<noteq> None \<and> is_ready s' \<and> \<not> is_draining s' \<and>
         deferred s' = [] \<and> handled s' = handled s @ deferred s \<and> startup_step\<^sup>*\<^sup>* s s')"
proof -
  let ?pre = "bind_r (HiveMind_ctor ox sod config now sclock hardware hm) (\<lambda>(eps, hm').
           bind_r (connect_oxend oxend_err ping) (\<lambda>_. Inr (eps, hm')))"
  have oxend: "connect_oxend oxend_err ping = Inr () \<and> oxend_err = None \<and> fst ping \<or>
      (\<exists>e. connect_oxend oxend_err ping = Inl e) \<and> (oxend_err \<noteq> None \<or> \<not> fst ping)"
    by (cases "(oxend_err, ping)" rule: connect_oxend.cases) auto
  show ?thesis
  proof (cases ?pre)
    case (Inl e)
    have "(quic_listen config \<noteq> [] \<and> quic_keys config = None) \<or>
         load_saved_subscriptions ox sod sclock hardware (hm\<lparr>db := db_cleanup now (db hm)\<rparr>) = Inl e \<or> oxend_err \<noteq> None \<or> \<not> fst ping"
      using Inl oxend by (auto simp: result_simps HiveMind_ctor_def setup_endpoints_def split: if_splits)
    then show ?thesis using Inl by (auto simp: HiveMind_start_def)
  next
    case (Inr p)
    obtain eps hm' where p: "p = (eps, hm')" by fastforce
    obtain n where n: "wait_for_notifiers config start polls (\<lambda>k. serve k hm') fuel = Some n"
      using wait_for_notifiers_total [OF clock fuel] by blast
    have "ep_out eps \<noteq> None"
      using Inr p by (auto simp: result_simps HiveMind_ctor_def setup_endpoints_def split: if_splits)
    moreover have "oxend_err = None" "fst ping" using Inr oxend by (auto simp: result_simps)
    ultimately show ?thesis
      using Inr n p set_ready_all_steps [OF before] by (simp add: HiveMind_start_def set_ready_all_eq)
  qed
qed


definition waiting_startup :: "string startup" where
  "waiting_startup = \<lparr>is_ready = False, is_draining = False, deferred = [''first'', ''second''], blocked = {#}, handled = [],
     arrived = [''first'', ''second'']\<rparr>"

lemma load_nothing:
  assumes "subscriptions (db hm) = []"
  shows "\<exists>hm'. load_saved_subscriptions ox sod clock hardware hm = Inr hm'"
proof -
  have "concat (map (\<lambda>i. thread_rows n i (db hm)) is) = []" for n "is"
    using assms by (simp add: thread_rows_def concat_eq_Nil_conv)
  then show ?thesis unfolding load_saved_subscriptions_def Let_def by (simp only: traverse_r.simps bind_r.simps load_loop.simps) blast
qed

theorem HiveMind_start_completes_witness:
  "\<exists>eps hm' s'. HiveMind_start sample_oxenc sample_sodium default_Config 0 (\<lambda>_. 0) 4 None (True, []) 0 (\<lambda>k. 25000000 * int k)
     (\<lambda>_ hm. hm) 402 empty_hm waiting_startup = Some (Inr (eps, hm', s')) \<and> is_ready s' \<and> handled s' = [''first'', ''second'']"
proof -
  let ?start = "HiveMind_start sample_oxenc sample_sodium default_Config 0 (\<lambda>_. 0) 4 None (True, []) 0 (\<lambda>k. 25000000 * int k)
     (\<lambda>_ hm. hm) 402 empty_hm waiting_startup"
  have "nat (notifier_wait default_Config div 25000000) + 2 \<le> 402" by (simp add: default_Config_def nanos_per_sec_def)
  moreover have "\<not> is_ready waiting_startup" by (simp add: waiting_startup_def)
  moreover have "load_saved_subscriptions sample_oxenc sample_sodium (\<lambda>_. 0) 4 (empty_hm\<lparr>db := db_cleanup 0 (db empty_hm)\<rparr>) \<noteq> Inl e" for e
    using load_nothing [of "empty_hm\<lparr>db := db_cleanup 0 (db empty_hm)\<rparr>" sample_oxenc sample_sodium "\<lambda>_. 0" 4]
    by (auto simp: empty_hm_def empty_DB_def db_cleanup_def delete_subscriptions_def Let_def)
  moreover have "quic_listen default_Config = []" by (simp add: default_Config_def)
  ultimately obtain res where res: "?start = Some res" and
      ok: "case res of Inl e \<Rightarrow> False
        | Inr (eps, hm', s') \<Rightarrow> is_ready s' \<and> handled s' = handled waiting_startup @ deferred waiting_startup"
    using HiveMind_start_completes [where polls = "\<lambda>k. 25000000 * int k" and start = 0 and config = default_Config and fuel = 402
        and s = waiting_startup and ox = sample_oxenc and sod = sample_sodium and now = 0 and sclock = "\<lambda>_. 0" and hardware = 4
        and oxend_err = None and ping = "(True, [])" and serve = "\<lambda>_ hm. hm" and hm = empty_hm]
    by (fastforce split: sum.splits)
  then show ?thesis by (cases res) (auto simp: waiting_startup_def)
qed

end
