(* ===== verification/Commands.thy ===== *)
theory Commands
  imports Lifecycle
begin

text \<open>
  The OxenMQ commands of the server and who may call them (\<^verbatim>\<open>spns/hivemind.cpp\<close>, lines 59-213): the
  authentication level a connection is given, the table of categories with the level each
  requires, and the effect of a command on the shared state.
\<close>

section \<open>Authentication levels\<close>

instantiation auth_level :: linorder
begin

fun level_number :: "auth_level \<Rightarrow> nat" where
  "level_number auth_none = 0"
| "level_number auth_basic = 1"
| "level_number auth_admin = 2"

definition less_eq_auth_level :: "auth_level \<Rightarrow> auth_level \<Rightarrow> bool" where
  "less_eq_auth_level a b \<longleftrightarrow> level_number a \<le> level_number b"

definition less_auth_level :: "auth_level \<Rightarrow> auth_level \<Rightarrow> bool" where
  "less_auth_level a b \<longleftrightarrow> level_number a < level_number b"

instance
proof
  fix a b :: auth_level
  show "a \<le> b \<Longrightarrow> b \<le> a \<Longrightarrow> a = b"
    by (cases a; cases b) (simp_all add: less_eq_auth_level_def)
qed (auto simp: less_eq_auth_level_def less_auth_level_def)

end

text \<open>
  How a peer connects: over the local socket, over the curve socket with its public key, or as
  the oxend the server itself connects to.
\<close>

datatype peer = Local | Curve string | Oxend

fun peer_level :: "Config \<Rightarrow> peer \<Rightarrow> auth_level" where
  "peer_level config Local = auth_admin"
| "peer_level config (Curve pk) = allow_curve_conn config pk"
| "peer_level config Oxend = auth_basic"

section \<open>The command table\<close>

datatype handler =
  H_new_block | H_subscribe | H_unsubscribe | H_reg_service | H_service_stats | H_get_stats | H_drop_registrations

text \<open>A category: its name, the level it requires, and its commands, each with whether it is a request.\<close>

type_synonym category = "string \<times> auth_level \<times> (string \<times> bool \<times> handler) list"

definition omq_categories :: "category list" where
  "omq_categories =
     [(''notify'', auth_basic, [(''block'', False, H_new_block)]),
      (''push'', auth_none, [(''subscribe'', True, H_subscribe), (''unsubscribe'', True, H_unsubscribe)]),
      (''admin'', auth_admin,
         [(''register_service'', False, H_reg_service), (''service_stats'', False, H_service_stats),
          (''get_stats'', True, H_get_stats), (''drop_registrations'', False, H_drop_registrations)])]"

text \<open>
  The state a command changes before it returns. Subscriptions change only when the notifier has
  answered, the node list when oxend has; a command whose handler throws is logged and changes
  nothing.
\<close>

fun run_handler :: "'d bt_lib \<Rightarrow> nanos \<Rightarrow> nat \<Rightarrow> string list \<Rightarrow> handler \<Rightarrow> HiveMind \<Rightarrow> HiveMind" where
  "run_handler B now cid parts H_reg_service hm = on_reg_service parts cid hm"
| "run_handler B now cid parts H_service_stats hm = on_service_stats B now parts hm"
| "run_handler B now cid parts H_drop_registrations hm =
     (case on_drop_registrations B parts hm of Inl _ \<Rightarrow> hm | Inr (hm', _) \<Rightarrow> hm')"
| "run_handler B now cid parts _ hm = hm"

section \<open>Dispatch\<close>

text \<open>
  OxenMQ's look-up of a command is a parameter: given the categories and the level of the
  connection it finds the command of a name. Documented are that a name is the category, a dot
  and the command, and that the level of the category is required; command names are unique.
\<close>

type_synonym dispatch = "category list \<Rightarrow> auth_level \<Rightarrow> string \<Rightarrow> (bool \<times> handler) option"

definition full_commands :: "category list \<Rightarrow> (string \<times> auth_level \<times> bool \<times> handler) list" where
  "full_commands cats = concat (map (\<lambda>(c, level, cmds). map (\<lambda>(cmd, req, h). (c @ ''.'' @ cmd, level, req, h)) cmds) cats)"

definition omq_access_documented :: "dispatch \<Rightarrow> bool" where
  "omq_access_documented dispatch \<longleftrightarrow>
     (\<forall>cats level name req h. distinct (map fst (full_commands cats)) \<longrightarrow>
        (dispatch cats level name = Some (req, h) \<longleftrightarrow> (\<exists>need. (name, need, req, h) \<in> set (full_commands cats) \<and> need \<le> level)))"

text \<open>A message from a peer: what it asks for is looked up with the peer's level and run.\<close>

definition on_command ::
  "dispatch \<Rightarrow> 'd bt_lib \<Rightarrow> nanos \<Rightarrow> Config \<Rightarrow> peer \<times> nat \<Rightarrow> string \<Rightarrow> string list \<Rightarrow> HiveMind \<Rightarrow> HiveMind" where
  "on_command dispatch B now config caller name parts hm =
     (case dispatch omq_categories (peer_level config (fst caller)) name of
        None \<Rightarrow> hm
      | Some (_, h) \<Rightarrow> run_handler B now (snd caller) parts h hm)"

lemma full_commands_omq:
  "full_commands omq_categories =
     [(''notify.block'', auth_basic, False, H_new_block), (''push.subscribe'', auth_none, True, H_subscribe),
      (''push.unsubscribe'', auth_none, True, H_unsubscribe), (''admin.register_service'', auth_admin, False, H_reg_service),
      (''admin.service_stats'', auth_admin, False, H_service_stats), (''admin.get_stats'', auth_admin, True, H_get_stats),
      (''admin.drop_registrations'', auth_admin, False, H_drop_registrations)]"
  by (simp add: full_commands_def omq_categories_def)

lemma distinct_omq: "distinct (map fst (full_commands omq_categories))"
  by (simp add: full_commands_omq)

lemma dispatch_omq:
  assumes "omq_access_documented dispatch"
  shows "dispatch omq_categories level name = Some (req, h) \<longleftrightarrow>
    (\<exists>need. (name, need, req, h) \<in> set (full_commands omq_categories) \<and> need \<le> level)"
  using assms distinct_omq unfolding omq_access_documented_def by blast

text \<open>The least level from which a handler can be called.\<close>

fun required_level :: "handler \<Rightarrow> auth_level" where
  "required_level H_new_block = auth_basic"
| "required_level H_subscribe = auth_none"
| "required_level H_unsubscribe = auth_none"
| "required_level _ = auth_admin"

lemma dispatch_required:
  assumes "omq_access_documented dispatch"
  shows "(\<exists>name req. dispatch omq_categories level name = Some (req, h)) \<longleftrightarrow> required_level h \<le> level"
  unfolding dispatch_omq [OF assms] full_commands_omq by (cases h) auto

lemma run_handler_public: "required_level h \<noteq> auth_admin \<Longrightarrow> run_handler B now cid parts h hm = hm"
  by (cases h) simp_all

lemma allow_curve_conn_admin: "allow_curve_conn config pk = auth_admin \<longleftrightarrow> (\<exists>admin \<in> set (hivemind_curve_admin config). as_sv admin = pk)"
  by (auto simp: allow_curve_conn_def list_ex_iff)

text \<open>
  C26. Only administrators change the server's state by a command: a peer on the curve socket whose
  key is not configured as an administrator, and likewise oxend, reaches no handler that
  registers a service, records statistics or drops registrations, whatever name it asks for; the
  curve peer reaches subscribe and unsubscribe and nothing else. A local connection and every
  configured administrator reach all of them.
\<close>

theorem commands_need_admin:
  assumes "omq_access_documented dispatch"
  shows "(on_command dispatch B now config (p, cid) name parts hm \<noteq> hm \<longrightarrow>
      p = Local \<or> (\<exists>admin \<in> set (hivemind_curve_admin config). p = Curve (as_sv admin))) \<and>
    {h. \<exists>name req. dispatch omq_categories (peer_level config p) name = Some (req, h)} =
      (if p = Local \<or> (\<exists>admin \<in> set (hivemind_curve_admin config). p = Curve (as_sv admin)) then UNIV
       else if p = Oxend then {H_new_block, H_subscribe, H_unsubscribe} else {H_subscribe, H_unsubscribe})"
proof -
  have level: "peer_level config p = auth_admin \<longleftrightarrow>
      p = Local \<or> (\<exists>admin \<in> set (hivemind_curve_admin config). p = Curve (as_sv admin))"
    by (cases p) (auto simp: allow_curve_conn_admin)
  have curve: "p \<noteq> Local \<Longrightarrow> p \<noteq> Oxend \<Longrightarrow> peer_level config p \<noteq> auth_admin \<Longrightarrow> peer_level config p = auth_none"
    by (cases p) (auto simp: allow_curve_conn_def)
  have handlers: "(h \<in> {h. required_level h \<le> l}) \<longleftrightarrow> h \<in> (case l of auth_admin \<Rightarrow> UNIV
      | auth_basic \<Rightarrow> {H_new_block, H_subscribe, H_unsubscribe} | auth_none \<Rightarrow> {H_subscribe, H_unsubscribe})" for h l
    by (cases h; cases l) (simp_all add: less_eq_auth_level_def)
  have changes: "on_command dispatch B now config (p, cid) name parts hm \<noteq> hm \<longrightarrow>
      p = Local \<or> (\<exists>admin \<in> set (hivemind_curve_admin config). p = Curve (as_sv admin))"
  proof
    assume "on_command dispatch B now config (p, cid) name parts hm \<noteq> hm"
    then obtain req h where d: "dispatch omq_categories (peer_level config p) name = Some (req, h)"
      and "run_handler B now cid parts h hm \<noteq> hm"
      by (auto simp: on_command_def split: option.splits)
    then have "required_level h = auth_admin" using run_handler_public by blast
    moreover have "required_level h \<le> peer_level config p" using dispatch_required [OF assms] d by blast
    ultimately show "p = Local \<or> (\<exists>admin \<in> set (hivemind_curve_admin config). p = Curve (as_sv admin))"
      using level by (cases "peer_level config p") (simp_all add: less_eq_auth_level_def)
  qed
  have "{h. \<exists>name req. dispatch omq_categories (peer_level config p) name = Some (req, h)} = {h. required_level h \<le> peer_level config p}"
    using dispatch_required [OF assms] by simp
  also have "\<dots> = (case peer_level config p of auth_admin \<Rightarrow> UNIV
      | auth_basic \<Rightarrow> {H_new_block, H_subscribe, H_unsubscribe} | auth_none \<Rightarrow> {H_subscribe, H_unsubscribe})"
    using handlers by blast
  also have "\<dots> = (if p = Local \<or> (\<exists>admin \<in> set (hivemind_curve_admin config). p = Curve (as_sv admin)) then UNIV
       else if p = Oxend then {H_new_block, H_subscribe, H_unsubscribe} else {H_subscribe, H_unsubscribe})"
    using level curve by (cases p) (auto split: auth_level.splits)
  finally have "{h. \<exists>name req. dispatch omq_categories (peer_level config p) name = Some (req, h)} =
      (if p = Local \<or> (\<exists>admin \<in> set (hivemind_curve_admin config). p = Curve (as_sv admin)) then UNIV
       else if p = Oxend then {H_new_block, H_subscribe, H_unsubscribe} else {H_subscribe, H_unsubscribe})" .
  with changes show ?thesis by blast
qed


section \<open>Witnesses of the commands\<close>

definition sample_dispatch :: dispatch where
  "sample_dispatch cats level name =
     (case map_of (full_commands cats) name of
        None \<Rightarrow> None
      | Some (need, cmd) \<Rightarrow> if need \<le> level then Some cmd else None)"

lemma sample_dispatch_documented: "omq_access_documented sample_dispatch"
  unfolding omq_access_documented_def
proof (intro allI impI)
  fix cats level name req h
  assume "distinct (map fst (full_commands cats))"
  then have entry: "(name, x) \<in> set (full_commands cats) \<longleftrightarrow> map_of (full_commands cats) name = Some x" for x
    by simp
  then show "sample_dispatch cats level name = Some (req, h) \<longleftrightarrow>
      (\<exists>need. (name, need, req, h) \<in> set (full_commands cats) \<and> need \<le> level)"
    unfolding entry sample_dispatch_def by (auto split: option.splits if_splits)
qed

text \<open>A stranger on the curve socket asks in vain; a configured key registers a service.\<close>

definition curve_config :: Config where
  "curve_config = default_Config\<lparr>hivemind_curve_admin := [as_bytes ''A'']\<rparr>"

theorem commands_need_admin_witness:
  "on_command sample_dispatch (sample_bt []) 0 curve_config (Curve ''B'', 3) ''admin.register_service'' [''apns''] empty_hm = empty_hm \<and>
   map_of (services (on_command sample_dispatch (sample_bt []) 0 curve_config (Curve ''A'', 3) ''admin.register_service''
     [''apns''] empty_hm)) ''apns'' = Some 3"
proof
  have admins: "hivemind_curve_admin curve_config = [as_bytes ''A'']" by (simp add: curve_config_def)
  have A: "as_sv (as_bytes ''A'') = ''A''" by simp
  show "on_command sample_dispatch (sample_bt []) 0 curve_config (Curve ''B'', 3) ''admin.register_service'' [''apns''] empty_hm = empty_hm"
    using commands_need_admin [OF sample_dispatch_documented, where p = "Curve ''B''" and config = curve_config
        and B = "sample_bt []"] admins A by auto
  have "peer_level curve_config (Curve ''A'') = auth_admin" using admins A by (auto simp: allow_curve_conn_admin)
  then show "map_of (services (on_command sample_dispatch (sample_bt []) 0 curve_config (Curve ''A'', 3) ''admin.register_service''
     [''apns''] empty_hm)) ''apns'' = Some 3"
    by (simp add: on_command_def sample_dispatch_def full_commands_omq on_reg_service_def empty_hm_def alist_simps)
qed

end
