(* ===== verification/System.thy ===== *)
theory System
  imports Commands
begin

text \<open>
  The server as a whole: client requests, notifier answers, administrative commands, notifications,
  the events of the network loop, the periodic clean-up, and crashes with restarts, as one state
  machine over the handlers of the component theories. Its invariant ties the database to the
  memory and makes the conditions under which the component theorems hold true in every state:
  what the server stored it can load, what it holds it monitors, what it is told it can push.
\<close>

section \<open>What the database holds\<close>

text \<open>Identity columns start at 1.\<close>

definition ids_pos :: "DB \<Rightarrow> bool" where
  "ids_pos d \<longleftrightarrow> 0 < next_id d \<and> (\<forall>r \<in> set (subscriptions d). 0 < row_id r)"

text \<open>
  The types of the columns, as the fixed-size types of \<^verbatim>\<open>spns/bytes.hpp\<close> and the limits of the request
  handlers give them: a value of another size could not be read back into an \<^verbatim>\<open>AccountID\<close>, a
  \<^verbatim>\<open>Signature\<close> or an \<^verbatim>\<open>EncKey\<close>.
\<close>

definition sub_typed :: "SwarmPubkey \<Rightarrow> Subscription \<Rightarrow> bool" where
  "sub_typed pubkey sub \<longleftrightarrow>
     length (account_id pubkey) = AccountID_SIZE \<and> (session_ed pubkey \<longleftrightarrow> hd (account_id pubkey) = 0x05) \<and>
     (session_ed pubkey \<longrightarrow> length (ed25519 pubkey) = Ed25519PK_SIZE) \<and>
     pred_option (\<lambda>sa. length (sub_tag sa) = SubaccountTag_SIZE \<and> length (sub_sig sa) = Signature_SIZE) (subaccount sub) \<and>
     length (sig sub) = Signature_SIZE \<and> is_int64 (sig_ts sub) \<and> list_all is_int16 (namespaces sub)"

fun row_typed :: "sub_key \<Rightarrow> sub_values \<times> int list \<Rightarrow> bool" where
  "row_typed (account, service, svcid) (vals, ns) \<longleftrightarrow>
     length account = AccountID_SIZE \<and> (session_ed25519 vals \<noteq> None \<longleftrightarrow> hd account = 0x05) \<and>
     pred_option (\<lambda>b. length b = Ed25519PK_SIZE) (session_ed25519 vals) \<and>
     (subaccount_tag vals = None \<longleftrightarrow> subaccount_sig vals = None) \<and>
     pred_option (\<lambda>b. length b = SubaccountTag_SIZE) (subaccount_tag vals) \<and>
     pred_option (\<lambda>b. length b = Signature_SIZE) (subaccount_sig vals) \<and>
     length (signature vals) = Signature_SIZE \<and> is_int64 (signature_ts vals) \<and> length (row_enc_key vals) = EncKey_SIZE \<and>
     service \<noteq> [] \<and> length service \<le> SERVICE_NAME_MAX_SIZE \<and>
     SERVICE_ID_MIN_SIZE \<le> length svcid \<and> length svcid \<le> SERVICE_ID_MAX_SIZE \<and>
     pred_option (\<lambda>b. length b \<le> SERVICE_DATA_MAX_SIZE) (svcdata vals) \<and>
     ns \<noteq> [] \<and> sorted_wrt (<) ns \<and> list_all is_int16 ns"

lemma row_typed_vals_of:
  assumes "sub_typed pubkey sub" "wf_Subscription sub" "length enc = EncKey_SIZE" "service \<noteq> []" "length service \<le> SERVICE_NAME_MAX_SIZE"
    "length svcid \<in> {32..999}" "\<forall>x. dta = Some x \<longrightarrow> length x \<le> 99999"
  shows "row_typed (account_id pubkey, service, svcid) (vals_of pubkey sub enc dta, namespaces sub)"
  using assms
  by (auto simp: sub_typed_def wf_Subscription_def vals_of_def option.pred_map comp_def
      SERVICE_ID_MIN_SIZE_def SERVICE_ID_MAX_SIZE_def SERVICE_DATA_MAX_SIZE_def pred_option_def)

text \<open>
  An entry of the tables at time \<open>now\<close>: written by an accepted subscription, with values of their types and
  a timestamp that is not in the future by more than the grace.
\<close>

definition entry_sound :: "oxenc_lib \<Rightarrow> sodium_lib \<Rightarrow> seconds \<Rightarrow> sub_key \<Rightarrow> sub_values \<times> int list \<Rightarrow> bool" where
  "entry_sound ox sod now key v \<longleftrightarrow>
     entry_ok ox sod key v \<and> row_typed key v \<and> signature_ts (fst v) \<noteq> 0 \<and> signature_ts (fst v) < now + SIGNATURE_EARLY"

definition db_sound :: "oxenc_lib \<Rightarrow> sodium_lib \<Rightarrow> seconds \<Rightarrow> DB \<Rightarrow> bool" where
  "db_sound ox sod now d \<longleftrightarrow>
     db_ok d \<and> ids_pos d \<and> (\<forall>key v. sub_view d key = Some v \<longrightarrow> entry_sound ox sod now key v)"

text \<open>An operation that at most removes entries.\<close>

definition db_shrinks :: "DB \<Rightarrow> DB \<Rightarrow> bool" where
  "db_shrinks d d' \<longleftrightarrow> (db_ok d \<longrightarrow> db_ok d' \<and> sub_view d' \<subseteq>\<^sub>m sub_view d) \<and>
     next_id d' = next_id d \<and> set (subscriptions d') \<subseteq> set (subscriptions d)"

lemma db_shrinks_refl [simp]: "db_shrinks d d"
  by (simp add: db_shrinks_def)

lemma db_shrinks_trans: "db_shrinks d d' \<Longrightarrow> db_shrinks d' d'' \<Longrightarrow> db_shrinks d d''"
  unfolding db_shrinks_def by (metis map_le_trans subset_trans)

lemma db_shrinks_stats: "keys_distinct st \<or> \<not> db_ok d \<Longrightarrow> db_shrinks d (d\<lparr>service_stats := st\<rparr>)"
  by (auto simp: db_shrinks_def db_ok_stats)

lemma db_shrinks_set_stat [intro]:
  "db_shrinks d (set_stat_int s n i d)" "db_shrinks d (set_stat_str s n v d)"
  by (auto simp: set_stat_int_def set_stat_str_def db_ok_def keys_distinct_update intro!: db_shrinks_stats)

lemma db_shrinks_increment: "increment_stat s n i d = Inr d' \<Longrightarrow> db_shrinks d d'"
  by (auto dest!: increment_stat_shape)

lemma db_shrinks_delete: "db_shrinks d (snd (delete_subscriptions P d))"
  using delete_shrinks [of d P]
  by (auto simp: db_shrinks_def map_le_def dom_def) (auto simp: delete_subscriptions_def Let_def)

lemma entry_sound_mono: "now \<le> now' \<Longrightarrow> entry_sound ox sod now key v \<Longrightarrow> entry_sound ox sod now' key v"
  by (auto simp: entry_sound_def)

lemma db_sound_shrinks:
  assumes "db_sound ox sod now d" "db_shrinks d d'" "now \<le> now'"
  shows "db_sound ox sod now' d'"
proof -
  have "sub_view d' \<subseteq>\<^sub>m sub_view d" "db_ok d'" "ids_pos d'"
    using assms(1,2) by (auto simp: db_sound_def db_shrinks_def ids_pos_def)
  moreover have "entry_sound ox sod now' key v" if "sub_view d' key = Some v" for key v
  proof -
    have "sub_view d key = Some v"
      using that \<open>sub_view d' \<subseteq>\<^sub>m sub_view d\<close> by (metis domI map_le_def)
    with assms(1,3) entry_sound_mono show ?thesis unfolding db_sound_def by blast
  qed
  ultimately show ?thesis by (simp add: db_sound_def)
qed

text \<open>The identity column after an upsert.\<close>

lemma insert_namespaces_frame:
  "insert_namespaces i ns d = Inr d' \<Longrightarrow> subscriptions d' = subscriptions d \<and> next_id d' = next_id d"
  by (induction i ns d rule: insert_namespaces.induct) (auto split: if_splits)

lemma count_subscription_frame:
  "count_subscription new s d = Inr d' \<Longrightarrow> subscriptions d' = subscriptions d \<and> next_id d' = next_id d"
  by (auto simp: count_subscription_def Let_def result_simps set_stat_int_def dest!: increment_stat_shape)

lemma upsert_ids_pos:
  assumes "upsert_subscription key v d = Inr (new, d')" "ids_pos d"
  shows "ids_pos d'"
proof -
  obtain vals ns where v: "v = (vals, ns)" by (metis prod.exhaust)
  obtain ins i d1 d2 where d1: "(case select_subscription key d of
           Some row \<Rightarrow>
             (let i = row_id row; insert_ns = (namespaces_of d i \<noteq> ns); db1 = update_subscription i vals d
              in Inr (False, insert_ns, i, if insert_ns then delete_namespaces i db1 else db1))
         | None \<Rightarrow> bind_r (insert_subscription key vals d) (\<lambda>(i, db1). Inr (True, True, i, db1))) = Inr (new, ins, i, d1)"
    and d2: "(if ins then insert_namespaces i ns d1 else Inr d1) = Inr d2" "count_subscription new (fst (snd key)) d2 = Inr d'"
    using assms(1) by (auto simp: v upsert_subscription_def result_simps)
  have "ids_pos d1"
    using d1 assms(2)
    by (auto simp: ids_pos_def update_subscription_def delete_namespaces_def insert_subscription_def Let_def result_simps
        split: option.splits if_splits prod.splits) metis+
  moreover have "subscriptions d' = subscriptions d1 \<and> next_id d' = next_id d1"
    using d2 insert_namespaces_frame count_subscription_frame by (metis (full_types) sum.inject(2))
  ultimately show ?thesis by (simp add: ids_pos_def)
qed


section \<open>What the memory holds\<close>

definition vals_subaccount :: "sub_values \<Rightarrow> Subaccount option" where
  "vals_subaccount v =
     (case (subaccount_tag v, subaccount_sig v) of
        (Some tag, Some sg) \<Rightarrow> Some \<lparr>sub_tag = tag, sub_sig = sg\<rparr>
      | _ \<Rightarrow> None)"

text \<open>
  Every stored subscription whose signature is still good for more than five seconds, the margin
  with which the loader skips old ones, is served by the in-memory list of its account.
\<close>

definition memory_covers :: "seconds \<Rightarrow> DB \<Rightarrow> subscribers \<Rightarrow> bool" where
  "memory_covers now d subs \<longleftrightarrow>
     (\<forall>acct service svcid vals ns pk. sub_view d (acct, service, svcid) = Some (vals, ns) \<longrightarrow>
        now - SIGNATURE_EXPIRY + 5 < signature_ts vals \<longrightarrow> account_id pk = acct \<longrightarrow>
        serves (account_subs subs pk) (vals_subaccount vals) ns (row_want_data vals) (signature_ts vals))"

text \<open>A change of the memory that loses nothing.\<close>

definition serves_more :: "subscribers \<Rightarrow> subscribers \<Rightarrow> bool" where
  "serves_more m m' \<longleftrightarrow> (\<forall>pk sa ns wd ts. serves (account_subs m pk) sa ns wd ts \<longrightarrow> serves (account_subs m' pk) sa ns wd ts)"

lemma serves_more_refl [simp]: "serves_more m m"
  by (simp add: serves_more_def)

lemma memory_covers_mono:
  assumes "memory_covers now d m" "now \<le> now'" "sub_view d' \<subseteq>\<^sub>m sub_view d" "serves_more m m'"
  shows "memory_covers now' d' m'"
  unfolding memory_covers_def
proof (intro allI impI)
  fix acct service svcid vals ns and pk :: SwarmPubkey
  assume v: "sub_view d' (acct, service, svcid) = Some (vals, ns)" "now' - SIGNATURE_EXPIRY + 5 < signature_ts vals" "account_id pk = acct"
  from v(1) assms(3) have "sub_view d (acct, service, svcid) = Some (vals, ns)" by (metis domI map_le_def)
  moreover have "now - SIGNATURE_EXPIRY + 5 < signature_ts vals" using v(2) assms(2) by simp
  ultimately have "serves (account_subs m pk) (vals_subaccount vals) ns (row_want_data vals) (signature_ts vals)"
    using assms(1) v(3) unfolding memory_covers_def by blast
  with assms(4) show "serves (account_subs m' pk) (vals_subaccount vals) ns (row_want_data vals) (signature_ts vals)"
    unfolding serves_more_def by blast
qed

lemma vals_subaccount_of: "vals_subaccount (vals_of pubkey sub enc data) = subaccount sub"
  by (simp add: vals_subaccount_def vals_of_def split: option.split)

text \<open>The loop's own events change at most the swarms of the accounts.\<close>

lemma find_subscriber_map:
  assumes "\<And>pk. account_id (f pk) = account_id pk"
  shows "map_option snd (find_subscriber pk (map (\<lambda>(pk, v). (f pk, v)) m)) = map_option snd (find_subscriber pk m)"
  by (induction m) (auto simp: find_subscriber_def same_account_def assms)

lemma recheck_job_subscribers: "subscribers (recheck_job job n) = subscribers n"
  by (simp add: recheck_job_def split: prod.split)

lemma recheck_swarms_account_subs:
  "account_subs (subscribers (recheck_swarms n)) pk = account_subs (subscribers n) pk"
proof -
  have "subscribers (fold recheck_job js m) = subscribers m" for js m
    by (induction js arbitrary: m) (simp_all add: recheck_job_subscribers)
  then show ?thesis
    by (simp add: recheck_swarms_def Let_def account_subs_snd find_subscriber_map)
qed

lemma net_calls_subscribers [simp]:
  "subscribers (fst (hm_check_subs e n)) = subscribers n"
  "subscribers (make_conns e n) = subscribers n"
  "subscribers (finished_connect e n) = subscribers n"
  "subscribers (fst (check_my_subs e pk n)) = subscribers n"
  "subscribers (fst (on_connected e pk n)) = subscribers n"
  "subscribers (on_disconnected e pk n) = subscribers n"
  by (simp_all add: hm_check_subs_def make_conns_def finished_connect_def check_my_subs_def on_connected_def
      on_disconnected_def Let_def split_beta split: option.split)

lemma update_sns_subscribers [simp]: "subscribers (fst (update_sns mk_addr e new n)) = subscribers n"
proof (induction new arbitrary: n)
  case (Cons x xs)
  have "update_sn mk_addr e x n = Inr (c, n') \<Longrightarrow> subscribers n' = subscribers n" for c n'
    by (auto simp: update_sn_def result_simps Let_def split_beta split: option.splits)
  with Cons show ?case by (auto split: sum.splits prod.splits) (metis fst_conv)+
qed simp

lemma apply_sns_account_subs:
  "account_subs (subscribers (fst (apply_sns mk_addr e c new m))) pk = account_subs (subscribers m) pk"
proof -
  obtain m1 r where u: "update_sns mk_addr e new (drop_missing new m) = (m1, r)" by (metis prod.exhaust)
  have "subscribers (drop_missing new m) = subscribers m" by (simp add: drop_missing_def)
  then have "subscribers m1 = subscribers m"
    using update_sns_subscribers [of mk_addr e new "drop_missing new m"] u by simp
  with u show ?thesis
    by (cases r) (simp_all add: apply_sns_def Let_def recheck_swarms_account_subs prune_swarms_def)
qed

lemma on_sns_response_account_subs:
  "account_subs (subscribers (fst (on_sns_response ox J mk_addr e data n))) pk = account_subs (subscribers n) pk"
proof -
  have "read_block J res sts n = Inr (c, n') \<Longrightarrow> subscribers n' = subscribers n" for res sts c n'
    by (auto simp: read_block_def result_simps split: if_splits)
  then show ?thesis
    by (auto simp: on_sns_response_def apply_sns_account_subs split: sum.splits)
qed


section \<open>Items waiting for their notifier\<close>

definition pending_sound :: "oxenc_lib \<Rightarrow> sodium_lib \<Rightarrow> seconds \<Rightarrow> pending \<Rightarrow> bool" where
  "pending_sound ox sod now p \<longleftrightarrow>
     pd_service p \<noteq> [] \<and> length (pd_service p) \<le> SERVICE_NAME_MAX_SIZE \<and>
     (case pd_action p of
        Subscribe_action sub enc \<Rightarrow>
          vouched ox sod (pd_pubkey p) sub \<and> sub_typed (pd_pubkey p) sub \<and> length enc = EncKey_SIZE \<and> sig_ts sub \<noteq> 0 \<and> sig_ts sub < now + SIGNATURE_EARLY
      | Unsubscribe_action _ _ _ \<Rightarrow> True)"

lemma pending_sound_mono: "now \<le> now' \<Longrightarrow> pending_sound ox sod now p \<Longrightarrow> pending_sound ox sod now' p"
  by (auto simp: pending_sound_def split: sub_action.splits)

text \<open>The timestamp a constructed subscription can have; wrap-around only makes it smaller.\<close>

lemma Subscription_ctor_ts:
  assumes "Subscription_ctor ox sod pubkey subacc ns wd ts sg skip now = Inr s" "is_int64 ts" "0 \<le> now" "now < 2 ^ 62"
  shows "ts \<noteq> 0 \<and> ts < now + SIGNATURE_EARLY"
proof -
  have "ts \<noteq> 0" "sub64 now ts < SIGNATURE_EXPIRY" "sub64 ts now < SIGNATURE_EARLY"
    using assms(1) by (auto simp: Subscription_ctor_def result_simps split: if_splits)
  moreover have "now - 2 ^ 63 < now + SIGNATURE_EARLY" by (simp add: SIGNATURE_EARLY_def)
  ultimately show ?thesis using timestamp_window [OF assms(2-4)] by blast
qed

text \<open>What the reader of a request's fields returns has the sizes it asks for.\<close>

lemma subaccount_arg_sizes:
  assumes "oxenc_documented ox" "subaccount_arg ox J args = Inr sa"
  shows "pred_option (\<lambda>sa. length (sub_tag sa) = SubaccountTag_SIZE \<and> length (sub_sig sa) = Signature_SIZE) sa"
  using assms from_hex_or_b64_size [OF assms(1)]
  by (auto simp: subaccount_arg_def result_simps split: option.splits)

lemma sub_unsub_args_sizes:
  assumes doc: "oxenc_documented ox" and args: "sub_unsub_args ox sod J e = Inr a"
  defines "pubkey \<equiv> arg_pubkey a"
  shows "length (account_id pubkey) = AccountID_SIZE \<and> (session_ed pubkey \<longleftrightarrow> hd (account_id pubkey) = 0x05) \<and>
    (session_ed pubkey \<longrightarrow> length (ed25519 pubkey) = Ed25519PK_SIZE) \<and>
    pred_option (\<lambda>sa. length (sub_tag sa) = SubaccountTag_SIZE \<and> length (sub_sig sa) = Signature_SIZE) (arg_subaccount a) \<and>
    length (arg_sig a) = Signature_SIZE"
proof -
  obtain account ed sa sg s1 s2 where len: "from_hex_or_b64 ox AccountID_SIZE s1 = Inr account" "from_hex_or_b64 ox Signature_SIZE s2 = Inr sg"
    and ed: "ed \<noteq> None \<longleftrightarrow> hd account = 0x05" "\<forall>x. ed = Some x \<longrightarrow> (\<exists>s. from_hex_or_b64 ox Ed25519PK_SIZE s = Inr x)"
    and sa: "subaccount_arg ox J e = Inr sa" and pk: "SwarmPubkey_ctor ox sod account ed False = Inr pubkey"
    and a: "arg_subaccount a = sa" "arg_sig a = sg"
    using args unfolding sub_unsub_args_def pubkey_def by (auto simp: result_simps split: if_splits) blast+
  note sizes = from_hex_or_b64_size [OF doc len(1)] from_hex_or_b64_size [OF doc len(2)] subaccount_arg_sizes [OF doc sa]
  have "account_id pubkey = account"
    using pk by (auto simp: SwarmPubkey_ctor_def Let_def split: option.splits if_splits prod.splits)
  moreover have "session_ed pubkey \<longleftrightarrow> hd account = 0x05" "session_ed pubkey \<longrightarrow> length (ed25519 pubkey) = Ed25519PK_SIZE"
    using pk ed from_hex_or_b64_size [OF doc]
    by (auto simp: SwarmPubkey_ctor_def Let_def split: option.splits if_splits prod.splits)
  ultimately show ?thesis using sizes a by simp
qed

lemma sub_unsub_item_sound:
  assumes doc: "json_documented J" "oxenc_documented ox" and now: "0 \<le> now" "now < 2 ^ 62" and svcs: "services_ok (services hm)"
    and item: "sub_unsub_item ox sod J now subscribe i e hm = Inr (req, p)"
  shows "pending_sound ox sod now p"
proof -
  obtain a c where a: "sub_unsub_args ox sod J e = Inr a" "map_of (services hm) (arg_service a) = Some c" "pd_service p = arg_service a"
      "pd_pubkey p = arg_pubkey a"
    and act: "\<And>sub enc. pd_action p = Subscribe_action sub enc \<Longrightarrow> \<exists>s u ns wd v ts.
      from_hex_or_b64 ox EncKey_SIZE s = Inr enc \<and> j_int16s J u = Inr ns \<and> j_int64 J v = Inr ts \<and>
      Subscription_ctor ox sod (arg_pubkey a) (arg_subaccount a) ns wd ts (arg_sig a) False now = Inr sub"
    using item by (auto simp: sub_unsub_item_def sub_unsub_service_conn_def result_simps split: if_splits) blast
  have "pd_service p \<noteq> [] \<and> length (pd_service p) \<le> SERVICE_NAME_MAX_SIZE"
    using map_of_SomeD [OF a(2)] svcs a(3) by (auto simp: services_ok_def SERVICE_NAME_MAX_SIZE_def)
  moreover have "pending_vouched ox sod p" by (rule sub_unsub_item_vouched [OF item])
  moreover have "sub_typed (pd_pubkey p) sub \<and> length enc = EncKey_SIZE \<and> sig_ts sub \<noteq> 0 \<and> sig_ts sub < now + SIGNATURE_EARLY"
    if is_sub: "pd_action p = Subscribe_action sub enc" for sub enc
  proof -
    obtain s u ns wd v ts where x: "from_hex_or_b64 ox EncKey_SIZE s = Inr enc" "j_int16s J u = Inr ns" "j_int64 J v = Inr ts"
      "Subscription_ctor ox sod (arg_pubkey a) (arg_subaccount a) ns wd ts (arg_sig a) False now = Inr sub"
      using act [OF is_sub] by blast
    have "is_int64 ts" "list_all is_int16 ns" using doc(1) x(2,3) by (auto simp: json_documented_def)
    with Subscription_ctor_ts [OF x(4) _ now] Subscription_ctor_fields [OF x(4)] from_hex_or_b64_size [OF doc(2) x(1)]
      sub_unsub_args_sizes [OF doc(2) a(1)]
    show ?thesis by (simp add: sub_typed_def a(4))
  qed
  ultimately show ?thesis by (cases "pd_action p") (simp_all add: pending_sound_def pending_vouched_def)
qed

lemma sub_unsub_loop_sound:
  assumes doc: "json_documented J" "oxenc_documented ox" and clock: "\<And>i. 0 \<le> clock i" "\<And>i. clock i \<le> t" "t < 2 ^ 62"
    and svcs: "services_ok (services hm)"
  shows "list_all (pending_sound ox sod t) (map snd (snd s)) \<Longrightarrow>
    list_all (pending_sound ox sod t) (map snd (snd (sub_unsub_loop ox sod J clock subscribe hm i es s)))"
proof (induction es arbitrary: i s)
  case (Cons e es)
  have "list_all (pending_sound ox sod t) (map snd (snd (sub_unsub_step ox sod J clock subscribe hm i e s)))"
  proof (cases "sub_unsub_item ox sod J (clock i) subscribe i e hm")
    case (Inr rp)
    obtain req p where rp: "rp = (req, p)" by (metis prod.exhaust)
    have "clock i < 2 ^ 62" using clock(2) [of i] clock(3) by simp
    from sub_unsub_item_sound [OF doc clock(1) this svcs Inr [unfolded rp]]
    have "pending_sound ox sod t p" by (rule pending_sound_mono [OF clock(2)])
    with Inr rp Cons.prems show ?thesis by (simp add: sub_unsub_step_def)
  qed (use Cons.prems in \<open>simp add: sub_unsub_step_def\<close>)
  from Cons.IH [OF this] show ?case by simp
qed simp

text \<open>What an answer of a notifier can do to the state.\<close>

lemma validation_changes:
  assumes "on_notifier_validation ox sod J nowa nowb p success data b hm = (b', hm')"
  obtains (same) "hm' = hm"
  | (subscribe) sub enc dta new where "pd_action p = Subscribe_action sub enc" "length (data ! 1) \<in> {32..999}"
      "\<forall>x. dta = Some x \<longrightarrow> length x \<le> 99999"
      "add_subscription (pd_pubkey p) (pd_service p) (data ! 1) dta enc sub hm = Inr (new, hm')"
  | (unsubscribe) sg sa ts removed where "pd_action p = Unsubscribe_action sg sa ts"
      "remove_subscription ox sod nowa nowb (pd_pubkey p) sa (pd_service p) (data ! 1) sg ts hm = Inr (removed, hm')"
proof (cases "validation_result ox sod J nowa nowb p success data hm")
  case (Inl e)
  then have "hm' = hm" using assms by (simp add: on_notifier_validation_def validation_response_def Let_def)
  then show thesis by (rule same)
next
  case (Inr x)
  obtain code msg extra hm1 where x: "x = (code, msg, extra, hm1)" by (metis prod.exhaust)
  then have hm': "hm' = hm1" using assms Inr by (simp add: on_notifier_validation_def validation_response_def Let_def)
  show thesis
  proof (cases "code = 0")
    case False
    then show thesis using same Inr hm' by (auto simp: x validation_result_def result_simps split: if_splits)
  next
    case True
    then obtain dta where act: "apply_action ox sod J nowa nowb p (data ! 1) dta hm = Inr (msg, extra, hm')"
      and len: "length (data ! 1) \<in> {32..999}"
      using Inr hm' by (auto simp: x validation_result_def result_simps SERVICE_ID_MIN_SIZE_def SERVICE_ID_MAX_SIZE_def split: if_splits)
    show thesis
    proof (cases "pd_action p")
      case (Subscribe_action sub enc)
      then obtain new where "add_subscription (pd_pubkey p) (pd_service p) (data ! 1) dta enc sub hm = Inr (new, hm')"
        and "\<forall>x. dta = Some x \<longrightarrow> length x \<le> 99999"
        using act by (auto simp: apply_action_def result_simps SERVICE_DATA_MAX_SIZE_def split: option.splits if_splits)
      with Subscribe_action len subscribe show thesis by blast
    next
      case (Unsubscribe_action sg sa ts)
      then show thesis using act unsubscribe by (auto simp: apply_action_def result_simps)
    qed
  qed
qed


section \<open>The machine\<close>

text \<open>
  The state of the process, the items whose notifier has not answered, the notification thread's
  filters and history of pushes, and the system time in seconds.
\<close>

record system =
  sy_hm :: HiveMind
  sy_pending :: "pending list"
  sy_nt :: notifier
  sy_now :: seconds

text \<open>The events of the network loop other than a new subscription.\<close>

inductive loop_event ::
  "oxenc_lib \<Rightarrow> 'j json_lib \<Rightarrow> (bytes \<Rightarrow> string \<Rightarrow> int \<Rightarrow> RemoteAddress result) \<Rightarrow> Net \<Rightarrow> Net \<Rightarrow> bool"
  for ox J mk_addr where
  ev_sns: "0 \<le> sys_now e \<Longrightarrow> loop_event ox J mk_addr n (fst (refresh_sns_reply ox J mk_addr e success data n))"
| ev_connected: "0 \<le> sys_now e \<Longrightarrow> loop_event ox J mk_addr n (fst (on_connected e pk n))"
| ev_disconnected: "loop_event ox J mk_addr n (on_disconnected e pk n)"
| ev_check: "0 \<le> sys_now e \<Longrightarrow> loop_event ox J mk_addr n (fst (hm_check_subs e n))"
| ev_check_one: "0 \<le> sys_now e \<Longrightarrow> loop_event ox J mk_addr n (fst (check_my_subs e pk n))"

text \<open>A new process on the database of the old one.\<close>

definition fresh_process :: "Net \<Rightarrow> HiveMind \<Rightarrow> HiveMind" where
  "fresh_process n hm = \<lparr>db = db hm, net = n, services = []\<rparr>"

definition fresh_net :: "Net \<Rightarrow> bool" where
  "fresh_net n \<longleftrightarrow> net_init n \<and> subscribers n = []"

definition fresh_notifier :: "seconds \<Rightarrow> nanos \<Rightarrow> notifier \<Rightarrow> notifier" where
  "fresh_notifier lifetime now nt =
     nt\<lparr>filter_cur := {}, filter_rotate := {}, filter_rotate_time := now + lifetime * nanos_per_sec\<rparr>"

text \<open>
  The steps. Time does not go back; \<open>timely s t\<close> says that the clock reads \<open>t\<close> after the step, and
  readings during a request or a restart lie between. A crash at any moment, with the restart that
  follows, loses the waiting items, the registered services and the filters.
\<close>

definition timely :: "system \<Rightarrow> seconds \<Rightarrow> bool" where
  "timely s t \<longleftrightarrow> sy_now s \<le> t \<and> t < 2 ^ 62"

inductive system_step ::
  "oxenc_lib \<Rightarrow> sodium_lib \<Rightarrow> 'j json_lib \<Rightarrow> 'd bt_lib \<Rightarrow> (bytes \<Rightarrow> string \<Rightarrow> int \<Rightarrow> RemoteAddress result) \<Rightarrow> dispatch \<Rightarrow>
   Config \<Rightarrow> system \<Rightarrow> system \<Rightarrow> bool"
  for ox sod J B mk_addr dispatch config where
  sy_tick: "timely s t \<Longrightarrow> system_step ox sod J B mk_addr dispatch config s (s\<lparr>sy_now := t\<rparr>)"
| sy_request: "timely s t \<Longrightarrow> \<forall>i. sy_now s \<le> clock i \<and> clock i \<le> t \<Longrightarrow>
    on_sub_unsub_impl ox sod J clock True subscribe m (sy_hm s) = Inr (Inr (b, reqs)) \<Longrightarrow>
    system_step ox sod J B mk_addr dispatch config s (s\<lparr>sy_pending := sy_pending s @ map snd reqs, sy_now := t\<rparr>)"
| sy_validated: "sy_pending s = ps @ p # qs \<Longrightarrow>
    on_notifier_validation ox sod J nowa nowb p success data b (sy_hm s) = (b', hm') \<Longrightarrow>
    system_step ox sod J B mk_addr dispatch config s (s\<lparr>sy_hm := hm', sy_pending := ps @ qs\<rparr>)"
| sy_command: "system_step ox sod J B mk_addr dispatch config s
    (s\<lparr>sy_hm := on_command dispatch B now config caller name parts (sy_hm s)\<rparr>)"
| sy_cleanup: "system_step ox sod J B mk_addr dispatch config s
    (s\<lparr>sy_hm := (sy_hm s)\<lparr>db := db_cleanup now (db (sy_hm s))\<rparr>\<rparr>)"
| sy_batch: "process_batch B sod (filter_lifetime config) now msgs (sy_hm s) (sy_nt s) = (nt', r) \<Longrightarrow>
    system_step ox sod J B mk_addr dispatch config s
      (s\<lparr>sy_hm := (case r of Inl _ \<Rightarrow> sy_hm s | Inr hm' \<Rightarrow> hm'), sy_nt := nt'\<rparr>)"
| sy_loop: "loop_event ox J mk_addr (net (sy_hm s)) n' \<Longrightarrow>
    system_step ox sod J B mk_addr dispatch config s (s\<lparr>sy_hm := (sy_hm s)\<lparr>net := n'\<rparr>\<rparr>)"
| sy_restart: "timely s t \<Longrightarrow> \<forall>k. sy_now s \<le> clock k \<and> clock k \<le> t \<Longrightarrow> fresh_net n \<Longrightarrow>
    HiveMind_ctor ox sod config now clock hardware (fresh_process n (sy_hm s)) = Inr (eps, hm') \<Longrightarrow>
    system_step ox sod J B mk_addr dispatch config s
      \<lparr>sy_hm = hm', sy_pending = [], sy_nt = fresh_notifier (filter_lifetime config) steady (sy_nt s), sy_now = t\<rparr>"

definition system_init :: "system \<Rightarrow> bool" where
  "system_init s \<longleftrightarrow>
     db_ok (db (sy_hm s)) \<and> subscriptions (db (sy_hm s)) = [] \<and> 0 < next_id (db (sy_hm s)) \<and>
     fresh_net (net (sy_hm s)) \<and> services (sy_hm s) = [] \<and> sy_pending s = [] \<and> sent_pushes (sy_nt s) = [] \<and>
     0 \<le> sy_now s \<and> sy_now s < 2 ^ 62"

definition system_ok :: "oxenc_lib \<Rightarrow> sodium_lib \<Rightarrow> system \<Rightarrow> bool" where
  "system_ok ox sod s \<longleftrightarrow>
     0 \<le> sy_now s \<and> sy_now s < 2 ^ 62 \<and> db_sound ox sod (sy_now s) (db (sy_hm s)) \<and>
     memory_covers (sy_now s) (db (sy_hm s)) (subscribers (net (sy_hm s))) \<and> net_ok (net (sy_hm s)) \<and>
     services_ok (services (sy_hm s)) \<and> list_all (pending_sound ox sod (sy_now s)) (sy_pending s)"


section \<open>Every step keeps the invariant\<close>

lemma consume_all_shrinks:
  assumes "\<And>d s s' d'. body d s = Inr (s', d') \<Longrightarrow> db_shrinks (g s) (g s')"
  shows "consume_all has_more body fuel d s = Some (Inr s') \<Longrightarrow> db_shrinks (g s) (g s')"
proof (induction fuel arbitrary: d s)
  case (Suc fuel)
  show ?case
  proof (cases "has_more d")
    case True
    then obtain s1 d1 where one: "body d s = Inr (s1, d1)" and rest: "consume_all has_more body fuel d1 s1 = Some (Inr s')"
      using Suc.prems by (auto split: sum.splits)
    show ?thesis by (rule db_shrinks_trans [OF assms [OF one] Suc.IH [OF rest]])
  qed (use Suc.prems in simp)
qed (simp split: if_splits)

lemma stat_entry_shrinks: "stat_entry B service d tables = Inr (tables', d') \<Longrightarrow> db_shrinks tables tables'"
  by (auto simp: stat_entry_def result_simps dest: db_shrinks_increment split: if_splits)

lemma on_service_stats_shrinks:
  "db_shrinks (db hm) (db (on_service_stats B now parts hm))"
  "net (on_service_stats B now parts hm) = net hm" "services (on_service_stats B now parts hm) = services hm"
proof -
  have "stats_tx B now service d tables = Some (Inr tables') \<Longrightarrow> db_shrinks tables tables'" for service d tables tables'
    unfolding stats_tx_def
    by (rule db_shrinks_trans [OF db_shrinks_set_stat(1) consume_all_shrinks [where g = "\<lambda>x. x", OF stat_entry_shrinks]])
  then show "db_shrinks (db hm) (db (on_service_stats B now parts hm))"
    "net (on_service_stats B now parts hm) = net hm" "services (on_service_stats B now parts hm) = services hm"
    by (auto simp: on_service_stats_def split: sum.splits option.splits)
qed

lemma drop_entry_shrinks:
  "drop_entry B service d s = Inr (s', d') \<Longrightarrow> db_shrinks (snd (snd (snd s))) (snd (snd (snd s')))"
proof -
  assume e: "drop_entry B service d s = Inr (s', d')"
  obtain rq dl mt tables where s: "s = (rq, dl, mt, tables)" by (metis prod.exhaust)
  obtain svcid where "snd (snd (snd s')) = snd (drop_registration service svcid tables)"
    using e by (auto simp: s drop_entry_def result_simps split_beta)
  then show ?thesis by (simp add: s drop_registration_def db_shrinks_delete)
qed

lemma on_drop_registrations_shrinks:
  assumes "on_drop_registrations B parts hm = Inr (hm', logged)"
  shows "db_shrinks (db hm) (db hm') \<and> net hm' = net hm \<and> services hm' = services hm"
proof -
  have "consume_all m (drop_entry B service) fuel d (0, 0, 0, db hm) = Some (Inr (rq, dl, mt, tables)) \<Longrightarrow> db_shrinks (db hm) tables"
    for m service fuel d rq dl mt tables
    using consume_all_shrinks [where g = "\<lambda>s. snd (snd (snd s))" and body = "drop_entry B service", OF drop_entry_shrinks] by fastforce
  with assms show ?thesis
    by (auto simp: on_drop_registrations_def result_simps split: if_splits option.splits sum.splits exn.splits)
qed

lemma on_command_shrinks:
  assumes "services_ok (services hm)"
  shows "db_shrinks (db hm) (db (on_command dispatch B now config caller name parts hm))"
    "net (on_command dispatch B now config caller name parts hm) = net hm"
    "services_ok (services (on_command dispatch B now config caller name parts hm))"
proof -
  have reg: "db (on_reg_service parts cid hm) = db hm" "net (on_reg_service parts cid hm) = net hm" for cid
    by (auto simp: on_reg_service_def Let_def split: option.splits)
  have "db_shrinks (db hm) (db (run_handler B now cid parts h hm)) \<and> net (run_handler B now cid parts h hm) = net hm \<and>
      services_ok (services (run_handler B now cid parts h hm))" for cid h
    using assms on_reg_service_ok [OF assms] on_service_stats_shrinks [where hm = hm and B = B and now = now and parts = parts] on_drop_registrations_shrinks [of B parts hm]
    by (cases h) (auto simp: reg split: sum.splits)
  then show "db_shrinks (db hm) (db (on_command dispatch B now config caller name parts hm))"
    "net (on_command dispatch B now config caller name parts hm) = net hm"
    "services_ok (services (on_command dispatch B now config caller name parts hm))"
    using assms by (auto simp: on_command_def split: option.splits)
qed

lemma process_batch_shrinks:
  assumes "process_batch B sod lifetime now msgs hm nt = (nt', Inr hm')"
  shows "db_shrinks (db hm) (db hm') \<and> net hm' = net hm \<and> services hm' = services hm"
proof -
  obtain i j d1 d2 where "increment_stat '''' ''notifications'' i (db hm) = Inr d1" "increment_stat '''' ''pushes'' j d1 = Inr d2"
    "hm' = hm\<lparr>db := d2\<rparr>"
    using assms by (auto simp: process_batch_def split_beta result_simps)
  then show ?thesis using db_shrinks_trans [OF db_shrinks_increment db_shrinks_increment] by simp
qed

lemma loop_event_ok:
  assumes "loop_event ox J mk_addr n n'" "net_ok n"
  shows "net_ok n'" "serves_more (subscribers n) (subscribers n')"
proof -
  show "net_ok n'"
    using assms by cases (simp_all add: inv_intros refresh_sns_reply_def)
  show "serves_more (subscribers n) (subscribers n')"
    using assms(1) by cases (simp_all add: serves_more_def refresh_sns_reply_def on_sns_response_account_subs)
qed


text \<open>An accepted answer writes a sound entry and enters it in memory.\<close>

lemma add_subscription_sound:
  assumes db: "db_sound ox sod now (db hm)" and mem: "memory_covers now (db hm) (subscribers (net hm))" and p: "pending_sound ox sod now p"
    and act: "pd_action p = Subscribe_action sub enc" and len: "length svcid \<in> {32..999}" "\<forall>x. dta = Some x \<longrightarrow> length x \<le> 99999"
    and add: "add_subscription (pd_pubkey p) (pd_service p) svcid dta enc sub hm = Inr (new, hm')"
  shows "db_sound ox sod now (db hm')" "memory_covers now (db hm') (subscribers (net hm'))"
proof -
  let ?key = "(account_id (pd_pubkey p), pd_service p, svcid)" and ?v = "(vals_of (pd_pubkey p) sub enc dta, namespaces sub)"
  have sub: "vouched ox sod (pd_pubkey p) sub" "sub_typed (pd_pubkey p) sub" "length enc = EncKey_SIZE" "sig_ts sub \<noteq> 0" "sig_ts sub < now + SIGNATURE_EARLY"
    and svc: "pd_service p \<noteq> []" "length (pd_service p) \<le> SERVICE_NAME_MAX_SIZE"
    using p act by (simp_all add: pending_sound_def)
  have "entry_ok ox sod ?key ?v"
    unfolding entry_ok_def fst_conv snd_conv using sub(1) len by blast
  moreover have wf: "wf_Subscription sub" using sub(1) by (simp add: vouched_def)
  moreover note row_typed_vals_of [OF sub(2) wf sub(3) svc len]
  ultimately have entry: "entry_sound ox sod now ?key ?v"
    using sub by (simp add: entry_sound_def vals_of_def)
  have ok: "db_ok (db hm)" using db by (simp add: db_sound_def)
  note view = add_subscription_view [OF ok wf add] and serves = add_subscription_serves [OF add]
  have "ids_pos (db hm')"
    using add db upsert_ids_pos by (auto simp: add_subscription_def add_subscription_tx_def result_simps db_sound_def)
  then show "db_sound ox sod now (db hm')"
    using view db entry unfolding db_sound_def by (metis fun_upd_apply option.inject)
  show "memory_covers now (db hm') (subscribers (net hm'))"
    unfolding memory_covers_def
  proof (intro allI impI)
    fix acct service sid vals ns and pk :: SwarmPubkey
    assume v: "sub_view (db hm') (acct, service, sid) = Some (vals, ns)" "now - SIGNATURE_EXPIRY + 5 < signature_ts vals" "account_id pk = acct"
    show "serves (account_subs (subscribers (net hm')) pk) (vals_subaccount vals) ns (row_want_data vals) (signature_ts vals)"
    proof (cases "(acct, service, sid) = ?key")
      case True
      then have "vals = vals_of (pd_pubkey p) sub enc dta" "ns = namespaces sub" using v(1) view by auto
      moreover have "account_subs (subscribers (net hm')) pk = account_subs (subscribers (net hm')) (pd_pubkey p)"
        using True v(3) by (intro account_subs_cong) simp
      ultimately show ?thesis using serves(1) by (simp add: vals_subaccount_of) (simp add: vals_of_def)
    next
      case False
      then have "sub_view (db hm) (acct, service, sid) = Some (vals, ns)" using v(1) view by auto
      then have "serves (account_subs (subscribers (net hm)) pk) (vals_subaccount vals) ns (row_want_data vals) (signature_ts vals)"
        using mem v(2,3) unfolding memory_covers_def by blast
      then show ?thesis by (rule serves(2))
    qed
  qed
qed

lemma remove_subscription_shrinks:
  assumes "remove_subscription ox sod nowa nowb pubkey sa service svcid sg ts hm = Inr (removed, hm')"
  shows "db_shrinks (db hm) (db hm') \<and> net hm' = net hm \<and> services hm' = services hm"
  using assms db_shrinks_delete [of "db hm" "\<lambda>r. row_key r = (account_id pubkey, service, svcid)"]
  by (auto simp: remove_subscription_def remove_subscription_tx_def result_simps split_beta)

text \<open>Sound tables can be loaded, and loading restores what the memory has to hold.\<close>

lemma db_sound_loadable:
  assumes "db_sound ox sod now d" "r \<in> set (subscriptions d)"
  shows "sub_view d (row_key r) = Some (row_vals r, namespaces_of d (row_id r))" "row_loadable d r"
proof -
  have ok: "db_ok d" and ids: "0 < row_id r" using assms by (auto simp: db_sound_def ids_pos_def)
  then have "select_subscription (row_key r) d = Some r" using assms(2) by (simp add: select_Some_iff)
  then show view: "sub_view d (row_key r) = Some (row_vals r, namespaces_of d (row_id r))" by (simp add: sub_view_def)
  then have "entry_sound ox sod now (row_key r) (row_vals r, namespaces_of d (row_id r))"
    using assms(1) unfolding db_sound_def by blast
  then obtain pubkey sub enc dta where e: "account_id pubkey = row_account r" "row_vals r = vals_of pubkey sub enc dta"
      "namespaces_of d (row_id r) = namespaces sub" "vouched ox sod pubkey sub" "signature_ts (row_vals r) \<noteq> 0"
    by (auto simp: entry_sound_def entry_ok_def row_key_def)
  have "hd (row_account r) = 0x05" if "session_ed pubkey"
  proof -
    have "SwarmPubkey_ctor ox sod (row_account r) (Some (ed25519 pubkey)) False = Inr pubkey"
      using e(1,4) that by (simp add: vouched_def)
    then show ?thesis by (auto simp: SwarmPubkey_ctor_def Let_def split: if_splits)
  qed
  then show "row_loadable d r"
    using e ids by (simp add: row_loadable_def vouched_def wf_Subscription_def) (simp add: vals_of_def)
qed

lemma restart_loads:
  assumes db: "db_sound ox sod now d" and clock: "\<And>k. now \<le> clock k" "\<And>k. clock k \<le> t"
  shows "\<exists>hm'. load_saved_subscriptions ox sod clock hardware \<lparr>db = d, net = n, services = svcs\<rparr> = Inr hm' \<and>
    hm' = \<lparr>db = d, net = n\<lparr>subscribers := subscribers (net hm')\<rparr>, services = svcs\<rparr> \<and> memory_covers t d (subscribers (net hm'))"
proof -
  let ?hm = "\<lparr>db = d, net = n, services = svcs\<rparr>"
  have "\<exists>hm'. load_saved_subscriptions ox sod clock hardware ?hm = Inr hm' \<and> hm' = ?hm\<lparr>net := (net ?hm)\<lparr>subscribers := subscribers (net hm')\<rparr>\<rparr> \<and>
    (\<forall>r \<in> set (subscriptions (db ?hm)). in_load_window clock (signature_ts (row_vals r)) \<longrightarrow>
       (\<forall>pk. account_id pk = row_account r \<longrightarrow>
          serves (account_subs (subscribers (net hm')) pk) (row_subaccount r) (namespaces_of (db ?hm) (row_id r))
            (row_want_data (row_vals r)) (signature_ts (row_vals r))))"
    using db db_sound_loadable(2) [OF db] by (intro load_saved_serves) (simp_all add: db_sound_def)
  then obtain hm' where ld: "load_saved_subscriptions ox sod clock hardware ?hm = Inr hm'"
    and hm': "hm' = \<lparr>db = d, net = n\<lparr>subscribers := subscribers (net hm')\<rparr>, services = svcs\<rparr>"
    and srv: "\<And>r pk. r \<in> set (subscriptions d) \<Longrightarrow> in_load_window clock (signature_ts (row_vals r)) \<Longrightarrow> account_id pk = row_account r \<Longrightarrow>
      serves (account_subs (subscribers (net hm')) pk) (row_subaccount r) (namespaces_of d (row_id r))
        (row_want_data (row_vals r)) (signature_ts (row_vals r))"
    by auto
  have "memory_covers t d (subscribers (net hm'))"
    unfolding memory_covers_def
  proof (intro allI impI)
    fix acct service sid vals ns and pk :: SwarmPubkey
    assume v: "sub_view d (acct, service, sid) = Some (vals, ns)" "t - SIGNATURE_EXPIRY + 5 < signature_ts vals" "account_id pk = acct"
    then obtain r where r: "r \<in> set (subscriptions d)" "row_key r = (acct, service, sid)" "vals = row_vals r" "ns = namespaces_of d (row_id r)"
      using db by (auto simp: sub_view_def db_sound_def select_Some_iff)
    have "signature_ts vals < now + SIGNATURE_EARLY"
      using db v(1) unfolding db_sound_def entry_sound_def by fastforce
    then have "clock k - SIGNATURE_EXPIRY + 5 < signature_ts vals \<and> signature_ts vals < clock k + SIGNATURE_EARLY" for k
      using clock(1) [of k] clock(2) [of k] v(2) by linarith
    then have "in_load_window clock (signature_ts (row_vals r))"
      unfolding in_load_window_def r(3) [symmetric] by blast
    with srv [OF r(1) this, of pk] v(3) r show "serves (account_subs (subscribers (net hm')) pk) (vals_subaccount vals) ns (row_want_data vals) (signature_ts vals)"
      by (simp add: row_key_def row_subaccount_def vals_subaccount_def)
  qed
  with ld hm' show ?thesis by blast
qed


lemma system_okD:
  assumes "system_ok ox sod s"
  shows "0 \<le> sy_now s" "sy_now s < 2 ^ 62" "db_sound ox sod (sy_now s) (db (sy_hm s))"
    "memory_covers (sy_now s) (db (sy_hm s)) (subscribers (net (sy_hm s)))" "net_ok (net (sy_hm s))"
    "services_ok (services (sy_hm s))" "list_all (pending_sound ox sod (sy_now s)) (sy_pending s)"
  using assms unfolding system_ok_def by blast+

lemma system_ok_shrinks:
  assumes ok: "system_ok ox sod s" and db: "db_shrinks (db (sy_hm s)) (db hm')" and net: "net hm' = net (sy_hm s)"
    and svcs: "services_ok (services hm')" and ps: "set ps \<subseteq> set (sy_pending s)"
  shows "system_ok ox sod (s\<lparr>sy_hm := hm', sy_pending := ps\<rparr>)"
proof -
  note ok = system_okD [OF ok]
  have "sub_view (db hm') \<subseteq>\<^sub>m sub_view (db (sy_hm s))" using db ok(3) by (simp add: db_shrinks_def db_sound_def)
  then have "memory_covers (sy_now s) (db hm') (subscribers (net hm'))"
    using memory_covers_mono [OF ok(4) order_refl _ serves_more_refl] net by simp
  moreover have "db_sound ox sod (sy_now s) (db hm')" by (rule db_sound_shrinks [OF ok(3) db order_refl])
  moreover have "list_all (pending_sound ox sod (sy_now s)) ps" using ok(7) ps unfolding list_all_iff by blast
  ultimately show ?thesis using ok(1,2,5) svcs net by (simp add: system_ok_def)
qed

lemma system_ok_time:
  assumes ok: "system_ok ox sod s" and t: "timely s t"
  shows "system_ok ox sod (s\<lparr>sy_now := t\<rparr>)"
proof -
  note ok = system_okD [OF ok]
  have le: "sy_now s \<le> t" and t: "t < 2 ^ 62" using t by (simp_all add: timely_def)
  have "list_all (pending_sound ox sod t) (sy_pending s)"
    using ok(7) pending_sound_mono [OF le] unfolding list_all_iff by blast
  then show ?thesis
    using db_sound_shrinks [OF ok(3) db_shrinks_refl le] memory_covers_mono [OF ok(4) le map_le_refl serves_more_refl]
      ok(1,5,6) le t by (simp add: system_ok_def)
qed

lemma system_ok_validated:
  assumes ok: "system_ok ox sod s" and ps: "sy_pending s = ps @ p # qs"
    and v: "on_notifier_validation ox sod J nowa nowb p success data b (sy_hm s) = (b', hm')"
  shows "system_ok ox sod (s\<lparr>sy_hm := hm', sy_pending := ps @ qs\<rparr>)"
  using v
proof (cases rule: validation_changes)
  case same
  with ps show ?thesis using system_okD(6) [OF ok] by (intro system_ok_shrinks [OF ok]) auto
next
  case (subscribe sub enc dta new)
  note ok = system_okD [OF ok]
  have p: "pending_sound ox sod (sy_now s) p" using ok(7) ps by simp
  from add_subscription_sound [OF ok(3,4) p subscribe]
  have "db_sound ox sod (sy_now s) (db hm')" "memory_covers (sy_now s) (db hm') (subscribers (net hm'))" .
  moreover have "services hm' = services (sy_hm s)" "net_ok (net (sy_hm s)) \<Longrightarrow> net_ok (net hm')"
    using subscribe(4) by (auto simp: add_subscription_def result_simps add_subscription_loop_ok)
  ultimately show ?thesis using ok ps by (simp add: system_ok_def)
next
  case (unsubscribe sg sa ts removed)
  from remove_subscription_shrinks [OF this(2)] ps show ?thesis
    using system_okD(6) [OF ok] by (intro system_ok_shrinks [OF ok]) auto
qed

lemma system_ok_restart:
  assumes ok: "system_ok ox sod s" and t: "timely s t" and clock: "\<forall>k. sy_now s \<le> clock k \<and> clock k \<le> t" and n: "fresh_net n"
    and c: "HiveMind_ctor ox sod config now clock hardware (fresh_process n (sy_hm s)) = Inr (eps, hm')"
  shows "system_ok ox sod \<lparr>sy_hm = hm', sy_pending = [], sy_nt = nt, sy_now = t\<rparr>"
proof -
  let ?d = "db_cleanup now (db (sy_hm s))"
  note ok = system_okD [OF ok]
  have "db_shrinks (db (sy_hm s)) ?d" by (simp add: db_cleanup_def db_shrinks_delete)
  then have sound: "db_sound ox sod (sy_now s) ?d" by (rule db_sound_shrinks [OF ok(3) _ order_refl])
  have "load_saved_subscriptions ox sod clock hardware \<lparr>db = ?d, net = n, services = []\<rparr> = Inr hm'"
    using c by (auto simp: HiveMind_ctor_def fresh_process_def result_simps)
  then obtain m where hm': "hm' = \<lparr>db = ?d, net = n\<lparr>subscribers := m\<rparr>, services = []\<rparr>" and mem: "memory_covers t ?d m"
    using restart_loads [OF sound, of clock t hardware n "[]"] clock by (metis Inr_inject)
  have "db_sound ox sod t ?d" using t by (intro db_sound_shrinks [OF sound db_shrinks_refl]) (simp add: timely_def)
  moreover have "net_ok (n\<lparr>subscribers := m\<rparr>)"
    using n network.invar_init [of n] unfolding fresh_net_def by (simp add: net_ok_def)
  ultimately show ?thesis using ok(1) t mem unfolding hm' by (simp add: system_ok_def timely_def services_ok_def)
qed

lemma system_ok_request:
  assumes doc: "json_documented J" "oxenc_documented ox" and ok: "system_ok ox sod s"
    and t: "timely s t" and clock: "\<forall>i. sy_now s \<le> clock i \<and> clock i \<le> t"
    and req: "on_sub_unsub_impl ox sod J clock True subscribe m (sy_hm s) = Inr (Inr (b, reqs))"
  shows "system_ok ox sod (s\<lparr>sy_pending := sy_pending s @ map snd reqs, sy_now := t\<rparr>)"
proof -
  have t62: "t < 2 ^ 62" using t by (simp add: timely_def)
  have cl: "0 \<le> clock i" "clock i \<le> t" for i
    using clock [rule_format, of i] system_okD(1) [OF ok] by linarith+
  obtain items acc where run: "sub_unsub_loop ox sod J clock subscribe (sy_hm s) 0 items (acc, []) = (b, reqs)"
    using on_sub_unsub_impl_loop [OF req] by metis
  have "list_all (pending_sound ox sod t) (map snd (snd (sub_unsub_loop ox sod J clock subscribe (sy_hm s) 0 items (acc, []))))"
    by (rule sub_unsub_loop_sound [OF doc cl t62 system_okD(6) [OF ok]]) simp
  then have "list_all (pending_sound ox sod t) (map snd reqs)" unfolding run by simp
  moreover have "system_ok ox sod (s\<lparr>sy_now := t\<rparr>)" by (rule system_ok_time [OF ok t])
  ultimately show ?thesis by (simp add: system_ok_def)
qed

lemma system_ok_batch:
  assumes ok: "system_ok ox sod s" and batch: "process_batch B sod lifetime now msgs (sy_hm s) (sy_nt s) = (nt', r)"
  shows "system_ok ox sod (s\<lparr>sy_hm := (case r of Inl _ \<Rightarrow> sy_hm s | Inr hm' \<Rightarrow> hm'), sy_nt := nt'\<rparr>)"
proof -
  let ?hm = "case r of Inl _ \<Rightarrow> sy_hm s | Inr hm' \<Rightarrow> hm'"
  have "db_shrinks (db (sy_hm s)) (db ?hm) \<and> net ?hm = net (sy_hm s) \<and> services ?hm = services (sy_hm s)"
  proof (cases r)
    case (Inr hm')
    from process_batch_shrinks [OF batch [unfolded Inr]] Inr show ?thesis by simp
  qed simp
  then have "system_ok ox sod (s\<lparr>sy_hm := ?hm, sy_pending := sy_pending s\<rparr>)"
    using system_okD(6) [OF ok] by (intro system_ok_shrinks [OF ok]) simp_all
  then show ?thesis by (simp add: system_ok_def)
qed

lemma system_step_ok:
  assumes doc: "json_documented J" "oxenc_documented ox"
  shows "system_step ox sod J B mk_addr dispatch config s s' \<Longrightarrow> system_ok ox sod s \<Longrightarrow> system_ok ox sod s'"
proof (induction rule: system_step.induct)
  case (sy_tick s t)
  then show ?case by (intro system_ok_time)
next
  case (sy_request s t clock subscribe m b reqs)
  then show ?case by (intro system_ok_request [OF doc])
next
  case (sy_validated s ps p qs nowa nowb success data b b' hm')
  then show ?case by (intro system_ok_validated)
next
  case (sy_command s now caller name parts)
  note cmd = on_command_shrinks [OF system_okD(6) [OF sy_command], where dispatch = dispatch and B = B]
  show ?case using system_ok_shrinks [OF sy_command cmd order_refl] by simp
next
  case (sy_cleanup s now)
  let ?hm = "(sy_hm s)\<lparr>db := db_cleanup now (db (sy_hm s))\<rparr>"
  have "db_shrinks (db (sy_hm s)) (db ?hm)" by (simp add: db_cleanup_def db_shrinks_delete)
  from system_ok_shrinks [OF sy_cleanup this _ _ order_refl] system_okD(6) [OF sy_cleanup] show ?case by simp
next
  case (sy_batch now msgs s nt' r)
  then show ?case by (intro system_ok_batch)
next
  case (sy_loop s n')
  note ok = system_okD [OF sy_loop.prems]
  from loop_event_ok [OF sy_loop.hyps ok(5)] memory_covers_mono [OF ok(4) order_refl map_le_refl] ok
  show ?case by (simp add: system_ok_def)
next
  case (sy_restart s t clock n now hardware eps hm' steady)
  then show ?case by (intro system_ok_restart)
qed

lemma system_init_ok: "system_init s \<Longrightarrow> system_ok ox sod s"
  using network.invar_init [of "net (sy_hm s)"]
  by (simp add: system_init_def system_ok_def db_sound_def ids_pos_def sub_view_def select_subscription_def memory_covers_def
      fresh_net_def services_ok_def)

interpretation sys: transition_system system_init
  "\<lambda>s s'. json_documented J \<and> oxenc_documented ox \<and> system_step ox sod J B mk_addr dispatch config s s'" "system_ok ox sod"
  for ox sod J B mk_addr dispatch config
  by unfold_locales (use system_init_ok system_step_ok in blast)+

lemma reachable_ok:
  assumes "json_documented J" "oxenc_documented ox" "reach system_init (system_step ox sod J B mk_addr dispatch config) s"
  shows "system_ok ox sod s"
  using sys.reach_invar [of J ox sod B mk_addr dispatch config s] assms by simp

section \<open>What holds in every state of the server\<close>

text \<open>
  C5. Whatever requests, answers, commands, notifications, network events and restarts came before,
  every stored subscription has values of the column types: a 33-byte account, which has a 32-byte
  session key exactly when its prefix is 05, a 36-byte subaccount tag and a 64-byte signature of it
  or neither, a 64-byte signature, a 64-bit timestamp, a 32-byte encryption key, a service name of 1
  to 32 characters, a service id of 32 to 999, service data of at most 99999 bytes, and at least one
  namespace, all of them 16-bit and strictly increasing. So every value can be read back into the
  fixed-size type it was written from.
\<close>

theorem stored_rows_typed:
  assumes "json_documented J" "oxenc_documented ox" "reach system_init (system_step ox sod J B mk_addr dispatch config) s"
    and "sub_view (db (sy_hm s)) (account, service, svcid) = Some (vals, ns)"
  shows "length account = 33 \<and> (session_ed25519 vals \<noteq> None \<longleftrightarrow> hd account = 0x05) \<and>
    (\<forall>ed \<in> set_option (session_ed25519 vals). length ed = 32) \<and>
    (subaccount_tag vals = None \<longleftrightarrow> subaccount_sig vals = None) \<and>
    (\<forall>tag \<in> set_option (subaccount_tag vals). length tag = 36) \<and> (\<forall>sg \<in> set_option (subaccount_sig vals). length sg = 64) \<and>
    length (signature vals) = 64 \<and> is_int64 (signature_ts vals) \<and> length (row_enc_key vals) = 32 \<and>
    length service \<in> {1..32} \<and> length svcid \<in> {32..999} \<and> (\<forall>d \<in> set_option (svcdata vals). length d \<le> 99999) \<and>
    ns \<noteq> [] \<and> sorted_wrt (<) ns \<and> list_all is_int16 ns"
proof -
  have "db_sound ox sod (sy_now s) (db (sy_hm s))" by (rule system_okD(3) [OF reachable_ok [OF assms(1-3)]])
  then have "row_typed (account, service, svcid) (vals, ns)"
    using assms(4) unfolding db_sound_def entry_sound_def by blast
  then show ?thesis
    by (simp add: pred_option_def AccountID_SIZE_def Ed25519PK_SIZE_def SubaccountTag_SIZE_def Signature_SIZE_def EncKey_SIZE_def
        SERVICE_NAME_MAX_SIZE_def SERVICE_ID_MIN_SIZE_def SERVICE_ID_MAX_SIZE_def SERVICE_DATA_MAX_SIZE_def Suc_le_eq)
qed



lemma sub_view_cleanup:
  assumes "db_ok d" "SIGNATURE_EXPIRY * nanos_per_sec \<le> now"
  shows "sub_view (db_cleanup now d) = op_spec (Cleanup now) (sub_view d)"
  using assms(2) cleanup_cutoff [of now]
  by (auto simp: db_cleanup_def sub_view_delete [OF assms(1)] sub_view_def fun_eq_iff split: option.splits)

text \<open>
  C7. A crash loses no subscription: from every state of the server, whatever was in memory, a new
  process on the same database, with a QUIC key if it listens on QUIC, gets through its constructor.
  The clean-up removes exactly the entries whose signature has run out, and afterwards every
  remaining one whose signature is good for more than five seconds is in memory again.
\<close>

theorem restart_restores:
  assumes doc: "json_documented J" "oxenc_documented ox" and reach: "reach system_init (system_step ox sod J B mk_addr dispatch config) s"
    and quic: "quic_listen config' = [] \<or> quic_keys config' \<noteq> None"
    and clock: "\<forall>k. sy_now s \<le> clock k \<and> clock k \<le> t" and now: "SIGNATURE_EXPIRY * nanos_per_sec \<le> now"
  shows "\<exists>eps hm'. HiveMind_ctor ox sod config' now clock hardware (fresh_process n (sy_hm s)) = Inr (eps, hm') \<and>
    (\<forall>key. sub_view (db hm') key =
      (case sub_view (db (sy_hm s)) key of None \<Rightarrow> None
       | Some v \<Rightarrow> if signature_ts (fst v) \<le> floor_seconds now - SIGNATURE_EXPIRY then None else Some v)) \<and>
    (\<forall>pk service svcid vals ns. sub_view (db hm') (account_id pk, service, svcid) = Some (vals, ns) \<and>
       t - SIGNATURE_EXPIRY + 5 < signature_ts vals \<longrightarrow>
       serves (account_subs (subscribers (net hm')) pk) (vals_subaccount vals) ns (row_want_data vals) (signature_ts vals))"
proof -
  let ?d = "db_cleanup now (db (sy_hm s))"
  have sound: "db_sound ox sod (sy_now s) (db (sy_hm s))" by (rule system_okD(3) [OF reachable_ok [OF doc reach]])
  then have ok: "db_ok (db (sy_hm s))" by (simp add: db_sound_def)
  have "db_shrinks (db (sy_hm s)) ?d" by (simp add: db_cleanup_def db_shrinks_delete)
  from db_sound_shrinks [OF sound this order_refl]
  obtain hm' where ld: "load_saved_subscriptions ox sod clock hardware \<lparr>db = ?d, net = n, services = []\<rparr> = Inr hm'"
    and hm': "hm' = \<lparr>db = ?d, net = n\<lparr>subscribers := subscribers (net hm')\<rparr>, services = []\<rparr>"
    and mem: "memory_covers t ?d (subscribers (net hm'))"
    using restart_loads [of ox sod "sy_now s" ?d clock t hardware n "[]"] clock by blast
  obtain eps where "setup_endpoints config' = Inr eps" using quic by (cases "quic_listen config' = []") (auto simp: setup_endpoints_def)
  then have "HiveMind_ctor ox sod config' now clock hardware (fresh_process n (sy_hm s)) = Inr (eps, hm')"
    using ld by (simp add: HiveMind_ctor_def fresh_process_def)
  moreover have d: "db hm' = ?d" using arg_cong [OF hm', of db] by simp
  moreover note sub_view_cleanup [OF ok now]
  ultimately show ?thesis using mem unfolding memory_covers_def by auto
qed


section \<open>Who is told of a message\<close>

lemma set_due_pushes:
  "(t, h, cid, x) \<in> set (due_pushes B sod svcs now n seen rows) \<longleftrightarrow>
     (\<exists>row \<in> set rows. t = now \<and> h = filter_val sod n row \<and> h \<notin> seen \<and> map_of svcs (fst (snd (snd row))) = Some cid \<and>
        x = bt_encode B (push_dict n row))"
proof -
  have "map_of svcs a = Some cid \<longleftrightarrow> map_of svcs a \<noteq> None \<and> cid = the (map_of svcs a)" for a
    by (cases "map_of svcs a") auto
  then show ?thesis
    unfolding due_pushes_def set_map set_filter image_iff mem_Collect_eq prod.inject by blast
qed



section \<open>Witnesses\<close>

text \<open>
  A server on an empty database: a notifier registers with a key of the configuration, a client
  subscribes, the notifier accepts.
\<close>

lemma distinct_singleton: "distinct xs \<Longrightarrow> set xs \<subseteq> {a} \<Longrightarrow> xs = [] \<or> xs = [a]"
proof (cases xs)
  case (Cons x ys)
  assume "distinct xs" "set xs \<subseteq> {a}"
  with Cons have "x = a" "set ys = {}" by (auto simp: subset_singleton_iff)
  with Cons show ?thesis by simp
qed simp

definition owner_note :: notification where
  "owner_note = sample_note\<lparr>n_account := sample_account 1\<rparr>"

definition owner_pairs :: "(string \<times> bt) list" where
  "owner_pairs = (''@'', BtStr (as_sv (sample_account 1))) # tl note_pairs"

lemma owner_note_parsed: "parse_notification (sample_bt owner_pairs) body = Inr (Some owner_note)"
  by (simp add: parse_notification_def required_def sample_bt_def sample_skip_until_def owner_pairs_def note_pairs_def
      owner_note_def sample_note_def AccountID_SIZE_def MSG_HASH_MIN_SIZE_def MSG_HASH_MAX_SIZE_def is_int16_def is_int64_def
      int64_min_def int64_max_def) (simp add: sample_account_def)

lemma owner_note_ok: "notification_ok owner_note"
  using sample_note_ok by (simp add: notification_ok_def owner_note_def sample_account_def)

abbreviation owner_row :: notify_row where
  "owner_row \<equiv> (True, replicate 32 2, ''apns'', sample_sid, None)"

lemma owner_rows:
  assumes ok: "db_ok d" and v: "sub_view d = Map.empty((sample_account 1, ''apns'', sample_sid) \<mapsto>
       (vals_of (sample_pk 1) signed_sub (replicate 32 2) None, [0, 5]))"
  shows "notify_query (n_account owner_note) (n_ns owner_note) d = [] \<or> notify_query (n_account owner_note) (n_ns owner_note) d = [owner_row]"
proof -
  let ?rows = "notify_query (n_account owner_note) (n_ns owner_note) d"
  have "x = owner_row" if x: "x \<in> set ?rows" for x
  proof -
    obtain wd e service svcid dt where x5: "x = (wd, e, service, svcid, dt)" by (metis prod.exhaust)
    show ?thesis
      using x notify_query_mem [OF ok] v unfolding x5 by (auto simp: vals_of_def signed_sub_def split: if_splits)
  qed
  moreover have "distinct ?rows" using notify_query_distinct [OF ok] by (simp add: distinct_map)
  ultimately show ?thesis by (intro distinct_singleton subsetI singletonI) blast+
qed

lemma validation_result_services:
  "validation_result ox sod J nowa nowb p success data hm = Inr (code, msg, extra, hm') \<Longrightarrow> services hm' = services hm"
  by (auto simp: validation_result_def apply_action_def add_subscription_def remove_subscription_def result_simps
      split: if_splits sub_action.splits prod.splits)

abbreviation sample_nt :: notifier where
  "sample_nt \<equiv> \<lparr>filter_cur = {}, filter_rotate = {}, filter_rotate_time = 0, sent_pushes = [], buf_size = 0\<rparr>"

abbreviation sample_system :: "HiveMind \<Rightarrow> pending list \<Rightarrow> system" where
  "sample_system hm ps \<equiv> \<lparr>sy_hm = hm, sy_pending = ps, sy_nt = sample_nt, sy_now = 1700000100\<rparr>"

abbreviation sample_step :: "(bytes \<Rightarrow> string \<Rightarrow> int \<Rightarrow> RemoteAddress result) \<Rightarrow> system \<Rightarrow> system \<Rightarrow> bool" where
  "sample_step mk_addr \<equiv> system_step sample_oxenc signing_sodium (sample_json (Inr sample_item)) (sample_bt owner_pairs) mk_addr
     sample_dispatch curve_config"

lemma sample_registered:
  "on_command sample_dispatch B 0 curve_config (Curve ''A'', 7) ''admin.register_service'' [''apns''] (empty_hm\<lparr>services := []\<rparr>) = empty_hm"
proof -
  have admins: "hivemind_curve_admin curve_config = [as_bytes ''A'']" by (simp add: curve_config_def)
  have A: "as_sv (as_bytes ''A'') = ''A''" by simp
  have "peer_level curve_config (Curve ''A'') = auth_admin" using admins A by (auto simp: allow_curve_conn_admin)
  then show ?thesis
    by (simp add: on_command_def sample_dispatch_def full_commands_omq on_reg_service_def empty_hm_def alist_simps)
qed

lemma sample_requested:
  "on_sub_unsub_impl sample_oxenc signing_sodium (sample_json (Inr sample_item)) (\<lambda>_. 1700000100) True True (omq_message [[]]) empty_hm =
     Inr (Inr (new_batch (sample_json (Inr sample_item)) False [sample_item], [((7, ''apns'', []), sample_pending)]))"
proof -
  let ?J = "sample_json (Inr sample_item)"
  have "request_items ?J sample_item = [sample_item]" "\<not> j_is_array ?J sample_item" "j_is_object ?J sample_item"
    "j_parse ?J s = Inr sample_item" for s
    by (simp_all add: request_items_def sample_json_def sample_item_def)
  then show ?thesis
    by (simp add: on_sub_unsub_impl_def ready_or_defer_def guard_r_def parse_sub_unsub_def Let_def
        sub_unsub_step_def sample_item_accepted)
qed

lemma sample_accepted:
  "\<exists>b' hm'. on_notifier_validation sample_oxenc signing_sodium J 0 0 sample_pending True [''0'', sample_sid] b empty_hm = (b', hm') \<and>
     services hm' = [(''apns'', 7)] \<and> sns (net hm') = [] \<and>
     sub_view (db hm') = Map.empty((sample_account 1, ''apns'', sample_sid) \<mapsto>
       (vals_of (sample_pk 1) signed_sub (replicate 32 2) None, [0, 5]))"
proof -
  obtain msg extra hm' where v: "validation_result sample_oxenc signing_sodium J 0 0 sample_pending True
      [''0'', sample_sid] empty_hm = Inr (0, msg, extra, hm')"
    using sample_validated by metis
  then obtain b' where "on_notifier_validation sample_oxenc signing_sodium J 0 0 sample_pending True [''0'', sample_sid] b empty_hm = (b', hm')"
    by (simp add: on_notifier_validation_def validation_response_def)
  moreover have "services hm' = [(''apns'', 7)]"
    using validation_result_services [OF v] by (simp add: empty_hm_def)
  moreover have "sns (net hm') = []"
    using v by (auto simp: validation_result_def apply_action_def add_subscription_def sample_pending_def result_simps
        add_subscription_loop_def Let_def empty_hm_def start_net_def split: if_splits)
  moreover have "sub_view empty_DB = Map.empty" by (auto simp: sub_view_def select_subscription_def empty_DB_def)
  then have "sub_view (db hm') = Map.empty((sample_account 1, ''apns'', sample_sid) \<mapsto>
       (vals_of (sample_pk 1) signed_sub (replicate 32 2) None, [0, 5]))"
    using validation_result_state [OF empty_hm_ok sample_pending_wf v]
    by (simp add: action_effect_def sample_pending_def) (simp add: sample_pk_def signed_sub_def empty_hm_def)
  ultimately show ?thesis by blast
qed

lemma sample_reached:
  "\<exists>hm. reach system_init (sample_step mk_addr) (sample_system hm []) \<and> services hm = [(''apns'', 7)] \<and> sns (net hm) = [] \<and>
     sub_view (db hm) = Map.empty((sample_account 1, ''apns'', sample_sid) \<mapsto>
       (vals_of (sample_pk 1) signed_sub (replicate 32 2) None, [0, 5]))"
proof -
  let ?J = "sample_json (Inr sample_item)" and ?hm0 = "empty_hm\<lparr>services := []\<rparr>"
  have "fresh_net (net empty_hm)" using start_net_init by (simp add: fresh_net_def net_init_def empty_hm_def)
  then have "system_init (sample_system ?hm0 [])"
    by (simp add: system_init_def empty_hm_ok) (simp add: empty_hm_def empty_DB_def)
  then have "reach system_init (sample_step mk_addr) (sample_system ?hm0 [])" by (rule reach.reach_init)
  moreover have "sample_step mk_addr (sample_system ?hm0 []) (sample_system empty_hm [])"
    using system_step.sy_command [where s = "sample_system ?hm0 []" and now = 0 and caller = "(Curve ''A'', 7)"
        and name = "''admin.register_service''" and parts = "[''apns'']" and dispatch = sample_dispatch and config = curve_config]
    by (simp add: sample_registered)
  ultimately have "reach system_init (sample_step mk_addr) (sample_system empty_hm [])" by (rule reach.reach_step)
  moreover have "sample_step mk_addr (sample_system empty_hm []) (sample_system empty_hm [sample_pending])"
    using system_step.sy_request [where s = "sample_system empty_hm []" and t = 1700000100] sample_requested
    by (fastforce simp: timely_def)
  ultimately have r: "reach system_init (sample_step mk_addr) (sample_system empty_hm [sample_pending])" by (rule reach.reach_step)
  obtain b' hm' where v: "on_notifier_validation sample_oxenc signing_sodium ?J 0 0 sample_pending True
      [''0'', sample_sid] (new_batch ?J False [sample_item]) empty_hm = (b', hm')"
    and hm': "services hm' = [(''apns'', 7)]" "sns (net hm') = []" "sub_view (db hm') = Map.empty((sample_account 1, ''apns'', sample_sid) \<mapsto>
       (vals_of (sample_pk 1) signed_sub (replicate 32 2) None, [0, 5]))"
    using sample_accepted [of ?J "new_batch ?J False [sample_item]"] by blast
  from v have "sample_step mk_addr (sample_system empty_hm [sample_pending]) (sample_system hm' [])"
    using system_step.sy_validated [where s = "sample_system empty_hm [sample_pending]" and ps = "[]" and qs = "[]" and p = sample_pending]
    by fastforce
  then have "reach system_init (sample_step mk_addr) (sample_system hm' [])" by (rule reach.reach_step [OF r])
  with hm' show ?thesis by blast
qed


theorem stored_rows_typed_witness:
  "\<exists>hm vals ns. reach system_init (sample_step (\<lambda>_ _ _. Inl (runtime_error []))) (sample_system hm []) \<and>
     sub_view (db hm) (sample_account 1, ''apns'', sample_sid) = Some (vals, ns) \<and>
     length (signature vals) = 64 \<and> length (row_enc_key vals) = 32 \<and> list_all is_int16 ns"
proof -
  obtain hm vals ns where r: "reach system_init (sample_step (\<lambda>_ _ _. Inl (runtime_error []))) (sample_system hm [])"
    and v: "sub_view (db hm) (sample_account 1, ''apns'', sample_sid) = Some (vals, ns)"
    using sample_reached [of "\<lambda>_ _ _. Inl (runtime_error [])"] by fastforce
  from stored_rows_typed [OF sample_json_documented sample_oxenc_documented r, of "sample_account 1" "''apns''" sample_sid vals ns] r v
  show ?thesis by auto
qed


theorem restart_restores_witness:
  "\<exists>hm eps hm'. reach system_init (sample_step (\<lambda>_ _ _. Inl (runtime_error []))) (sample_system hm []) \<and>
     HiveMind_ctor sample_oxenc signing_sodium default_Config (1700000100 * nanos_per_sec) (\<lambda>_. 1700000100) 16 (fresh_process start_net hm) =
       Inr (eps, hm') \<and>
     serves (account_subs (subscribers (net hm')) (sample_pk 1)) None [0, 5] True 1700000000"
proof -
  obtain hm where r: "reach system_init (sample_step (\<lambda>_ _ _. Inl (runtime_error []))) (sample_system hm [])"
    and v: "sub_view (db hm) = Map.empty((sample_account 1, ''apns'', sample_sid) \<mapsto>
       (vals_of (sample_pk 1) signed_sub (replicate 32 2) None, [0, 5]))"
    using sample_reached [of "\<lambda>_ _ _. Inl (runtime_error [])"] by metis
  have quic: "quic_listen default_Config = [] \<or> quic_keys default_Config \<noteq> None" by (simp add: default_Config_def)
  have clock: "\<forall>k. sy_now (sample_system hm []) \<le> (\<lambda>_. 1700000100) (k :: nat) \<and> (\<lambda>_. 1700000100) k \<le> (1700000100 :: int)" by simp
  have now: "SIGNATURE_EXPIRY * nanos_per_sec \<le> 1700000100 * nanos_per_sec" by (simp add: SIGNATURE_EXPIRY_def nanos_per_sec_def)
  obtain eps hm' where c: "HiveMind_ctor sample_oxenc signing_sodium default_Config (1700000100 * nanos_per_sec) (\<lambda>_. 1700000100) 16
      (fresh_process start_net hm) = Inr (eps, hm')"
    and view: "\<And>key. sub_view (db hm') key =
      (case sub_view (db hm) key of None \<Rightarrow> None
       | Some v \<Rightarrow> if signature_ts (fst v) \<le> floor_seconds (1700000100 * nanos_per_sec) - SIGNATURE_EXPIRY then None else Some v)"
    and srv: "\<And>pk service svcid vals ns. sub_view (db hm') (account_id pk, service, svcid) = Some (vals, ns) \<Longrightarrow>
       1700000100 - SIGNATURE_EXPIRY + 5 < signature_ts vals \<Longrightarrow>
       serves (account_subs (subscribers (net hm')) pk) (vals_subaccount vals) ns (row_want_data vals) (signature_ts vals)"
    using restart_restores [OF sample_json_documented sample_oxenc_documented r quic clock now, of 16 start_net, unfolded system.simps]
    by blast
  have "sub_view (db hm') (account_id (sample_pk 1), ''apns'', sample_sid) = Some (vals_of (sample_pk 1) signed_sub (replicate 32 2) None, [0, 5])"
    using view [of "(sample_account 1, ''apns'', sample_sid)"] v
    by (simp add: sample_pk_def) (simp add: vals_of_def signed_sub_def floor_seconds_def SIGNATURE_EXPIRY_def nanos_per_sec_def)
  from srv [OF this] have "serves (account_subs (subscribers (net hm')) (sample_pk 1)) None [0, 5] True 1700000000"
    by (simp add: vals_subaccount_of) (simp add: vals_of_def signed_sub_def SIGNATURE_EXPIRY_def)
  with r c show ?thesis by blast
qed




end
