(* ===== verification/Service.thy ===== *)
theory Service
  imports System
begin

text \<open>
  What the server promises, without its parts: a table of subscriptions, each vouched for by a
  signature of its account, the notifiers registered at the moment, and the pushes sent so far. The
  whole server of \<^theory_text>\<open>System\<close>, with its database, memory, nodes, requests in progress and
  restarts, is shown to implement this service; what holds of the service holds of the server.
\<close>

section \<open>The abstract service\<close>

type_synonym push = "nanos \<times> bytes \<times> nat \<times> string"

record service =
  entries :: sub_map
  registered :: "string \<Rightarrow> nat option"
  told :: "push list"

text \<open>
  A push for a subscription: a node reported the message, the subscription is for its account and
  namespace, and the text goes over the connection of the subscription's service.
\<close>

definition push_for :: "'d bt_lib \<Rightarrow> sub_map \<Rightarrow> (string \<Rightarrow> nat option) \<Rightarrow> push \<Rightarrow> bool" where
  "push_for B m reg p \<longleftrightarrow>
     (case p of (t, h, cid, x) \<Rightarrow>
        \<exists>body n name svcid vals ns. parse_notification B body = Inr (Some n) \<and>
          m (n_account n, name, svcid) = Some (vals, ns) \<and> n_ns n \<in> set ns \<and> reg name = Some cid \<and>
          x = bt_encode B (push_dict n (row_want_data vals, row_enc_key vals, name, svcid, svcdata vals)))"

inductive service_step :: "oxenc_lib \<Rightarrow> sodium_lib \<Rightarrow> 'd bt_lib \<Rightarrow> service \<Rightarrow> service \<Rightarrow> bool"
  for ox sod B where
  accept: "vouched ox sod pubkey sub \<Longrightarrow> service_step ox sod B a
    (a\<lparr>entries := (entries a)((account_id pubkey, name, svcid) \<mapsto> (vals_of pubkey sub enc dta, namespaces sub))\<rparr>)"
| forget: "m \<subseteq>\<^sub>m entries a \<Longrightarrow> service_step ox sod B a (a\<lparr>entries := m\<rparr>)"
| registry: "service_step ox sod B a (a\<lparr>registered := r\<rparr>)"
| tell: "push_for B (entries a) (registered a) p \<Longrightarrow> service_step ox sod B a (a\<lparr>told := told a @ [p]\<rparr>)"

definition service_init :: "service \<Rightarrow> bool" where
  "service_init a \<longleftrightarrow> entries a = Map.empty \<and> told a = []"

text \<open>What a push tells was asked for: the account signed a subscription to this namespace, with this data choice.\<close>

definition push_authorized :: "oxenc_lib \<Rightarrow> sodium_lib \<Rightarrow> 'd bt_lib \<Rightarrow> push \<Rightarrow> bool" where
  "push_authorized ox sod B p \<longleftrightarrow>
     (\<exists>body n pubkey sub enc name svcid dta. parse_notification B body = Inr (Some n) \<and>
        vouched ox sod pubkey sub \<and> n_account n = account_id pubkey \<and> n_ns n \<in> set (namespaces sub) \<and>
        snd (snd (snd p)) = bt_encode B (push_dict n (want_data sub, enc, name, svcid, dta)))"

definition entry_vouched :: "oxenc_lib \<Rightarrow> sodium_lib \<Rightarrow> sub_key \<Rightarrow> sub_values \<times> int list \<Rightarrow> bool" where
  "entry_vouched ox sod key v \<longleftrightarrow>
     (\<exists>pubkey sub enc dta. account_id pubkey = fst key \<and> vouched ox sod pubkey sub \<and> v = (vals_of pubkey sub enc dta, namespaces sub))"

definition service_ok :: "oxenc_lib \<Rightarrow> sodium_lib \<Rightarrow> 'd bt_lib \<Rightarrow> service \<Rightarrow> bool" where
  "service_ok ox sod B a \<longleftrightarrow>
     (\<forall>key v. entries a key = Some v \<longrightarrow> entry_vouched ox sod key v) \<and> list_all (push_authorized ox sod B) (told a)"

lemma push_for_authorized:
  assumes "push_for B (entries a) reg p" "service_ok ox sod B a"
  shows "push_authorized ox sod B p"
proof -
  obtain t h cid x where p: "p = (t, h, cid, x)" by (metis prod.exhaust)
  obtain body n name svcid vals ns where n: "parse_notification B body = Inr (Some n)" "n_ns n \<in> set ns"
    and e: "entries a (n_account n, name, svcid) = Some (vals, ns)"
    and x: "x = bt_encode B (push_dict n (row_want_data vals, row_enc_key vals, name, svcid, svcdata vals))"
    using assms(1) unfolding push_for_def p by auto
  obtain pubkey sub enc dta where "account_id pubkey = n_account n" "vouched ox sod pubkey sub"
    "vals = vals_of pubkey sub enc dta" "ns = namespaces sub"
    using assms(2) e unfolding service_ok_def entry_vouched_def by (metis Pair_inject fst_conv)
  with n x show ?thesis unfolding push_authorized_def p
    by (intro exI [of _ body] exI [of _ n] exI [of _ pubkey] exI [of _ sub] exI [of _ enc] exI [of _ name] exI [of _ svcid]
        exI [of _ dta]) (simp add: vals_of_def del: push_dict.simps)
qed

lemma service_step_ok: "service_step ox sod B a a' \<Longrightarrow> service_ok ox sod B a \<Longrightarrow> service_ok ox sod B a'"
proof (induction rule: service_step.induct)
  case (accept pubkey sub a name svcid enc dta)
  then have "entry_vouched ox sod (account_id pubkey, name, svcid) (vals_of pubkey sub enc dta, namespaces sub)"
    by (auto simp: entry_vouched_def)
  with accept.prems show ?case by (simp add: service_ok_def)
next
  case (forget m a)
  from forget.hyps have "m k = Some v \<Longrightarrow> entries a k = Some v" for k v by (metis domI map_le_def)
  with forget.prems show ?case by (simp add: service_ok_def)
next
  case (tell a p)
  with push_for_authorized [OF tell.hyps tell.prems] show ?case by (simp add: service_ok_def)
qed (simp add: service_ok_def)

interpretation spec: transition_system service_init "service_step ox sod B" "service_ok ox sod B" for ox sod B
proof
  show "service_init a \<Longrightarrow> service_ok ox sod B a" for a
    by (simp add: service_init_def service_ok_def)
qed (rule service_step_ok)


section \<open>How a step of the server changes tables and pushes\<close>

definition service_of :: "system \<Rightarrow> service" where
  "service_of s = \<lparr>entries = sub_view (db (sy_hm s)), registered = map_of (services (sy_hm s)), told = sent_pushes (sy_nt s)\<rparr>"

text \<open>The tables lose entries, or gain the one of a subscription whose notifier has just accepted it.\<close>

definition gains_entry :: "system \<Rightarrow> system \<Rightarrow> bool" where
  "gains_entry s s' \<longleftrightarrow>
     (\<exists>p sub enc svcid dta. p \<in> set (sy_pending s) \<and> pd_action p = Subscribe_action sub enc \<and>
        sub_view (db (sy_hm s')) = (sub_view (db (sy_hm s)))
          ((account_id (pd_pubkey p), pd_service p, svcid) \<mapsto> (vals_of (pd_pubkey p) sub enc dta, namespaces sub)))"

lemma validated_db:
  assumes ok: "system_ok ox sod s" and ps: "sy_pending s = ps @ p # qs"
    and v: "on_notifier_validation ox sod J nowa nowb p success data b (sy_hm s) = (b', hm')"
  shows "db_shrinks (db (sy_hm s)) (db hm') \<or> gains_entry s (s\<lparr>sy_hm := hm', sy_pending := ps @ qs\<rparr>)"
  using v
proof (cases rule: validation_changes)
  case (subscribe sub enc dta new)
  have "db_ok (db (sy_hm s))" "wf_Subscription sub"
    using system_okD(3,7) [OF ok] ps subscribe(1) by (auto simp: db_sound_def pending_sound_def vouched_def)
  from add_subscription_view [OF this subscribe(4)] have "gains_entry s (s\<lparr>sy_hm := hm', sy_pending := ps @ qs\<rparr>)"
    unfolding gains_entry_def using ps subscribe(1)
    by (intro exI [of _ p] exI [of _ sub] exI [of _ enc] exI [of _ "data ! 1"] exI [of _ dta]) simp
  then show ?thesis ..
next
  case (unsubscribe sg sa ts removed)
  from remove_subscription_shrinks [OF this(2)] show ?thesis by simp
qed simp

lemma system_step_db:
  assumes "system_step ox sod J B mk_addr dispatch config s s'" "system_ok ox sod s"
  shows "db_shrinks (db (sy_hm s)) (db (sy_hm s')) \<or> gains_entry s s'"
  using assms
proof (induction rule: system_step.induct)
  case (sy_validated s ps p qs nowa nowb success data b b' hm')
  from validated_db [OF sy_validated.prems sy_validated.hyps] show ?case by simp
next
  case (sy_command s now caller name parts)
  note cmd = on_command_shrinks(1) [OF system_okD(6) [OF sy_command], where dispatch = dispatch and B = B and config = config]
  show ?case using cmd [of now caller name parts] by simp
next
  case (sy_batch now msgs s nt' r)
  show ?case
  proof (cases r)
    case (Inr hm')
    from process_batch_shrinks [OF sy_batch.hyps [unfolded Inr]] Inr show ?thesis by simp
  qed simp
next
  case (sy_restart s t clock n now hardware eps hm' steady)
  then have "load_saved_subscriptions ox sod clock hardware \<lparr>db = db_cleanup now (db (sy_hm s)), net = n, services = []\<rparr> = Inr hm'"
    by (auto simp: HiveMind_ctor_def fresh_process_def result_simps)
  then have "db hm' = db_cleanup now (db (sy_hm s))"
    by (auto simp: load_saved_subscriptions_def Let_def result_simps)
  then show ?case by (simp add: db_cleanup_def db_shrinks_delete)
qed (simp_all add: db_cleanup_def db_shrinks_delete)

text \<open>A batch sends only pushes for entries of the tables as they are at that time.\<close>

lemma push_row_told:
  assumes "push_row B sod svcs now n row nt = (sent_it, nt')"
  shows "\<exists>ps. sent_pushes nt' = sent_pushes nt @ ps \<and>
    (\<forall>(t, h, cid, x) \<in> set ps. map_of svcs (fst (snd (snd row))) = Some cid \<and> x = bt_encode B (push_dict n row))"
  using assms
  by (auto simp: push_row_def Let_def build_push_def split: if_splits option.splits simp del: push_dict.simps)

definition told_more :: "'d bt_lib \<Rightarrow> HiveMind \<Rightarrow> notifier \<Rightarrow> notifier \<Rightarrow> bool" where
  "told_more B hm nt nt' \<longleftrightarrow>
     (\<exists>ps. sent_pushes nt' = sent_pushes nt @ ps \<and> (\<forall>p \<in> set ps. push_for B (sub_view (db hm)) (map_of (services hm)) p))"

lemma told_more_trans: "told_more B hm nt nt1 \<Longrightarrow> told_more B hm nt1 nt2 \<Longrightarrow> told_more B hm nt nt2"
  unfolding told_more_def by auto

lemma push_rows_told:
  assumes ok: "db_ok (db hm)" and n: "parse_notification B body = Inr (Some n)"
  shows "set rows \<subseteq> set (notify_query (n_account n) (n_ns n) (db hm)) \<Longrightarrow>
    told_more B hm (snd s) (snd (push_rows B sod (services hm) now n rows s))"
proof (induction rows arbitrary: s)
  case (Cons row rows)
  obtain k nt where s: "s = (k, nt)" by (metis prod.exhaust)
  obtain wd enc name svcid dta where row: "row = (wd, enc, name, svcid, dta)" by (metis prod.exhaust)
  obtain sent_it nt1 where p: "push_row B sod (services hm) now n row nt = (sent_it, nt1)" by (metis prod.exhaust)
  obtain vals nss where e: "sub_view (db hm) (n_account n, name, svcid) = Some (vals, nss)" "n_ns n \<in> set nss"
    "row = (row_want_data vals, row_enc_key vals, name, svcid, svcdata vals)"
    using Cons.prems notify_query_mem [OF ok, of wd enc name svcid dta "n_account n" "n_ns n"] unfolding row by auto
  have "push_for B (sub_view (db hm)) (map_of (services hm)) (t, h, cid, bt_encode B (push_dict n row))"
    if "map_of (services hm) name = Some cid" for t h cid
    using n e that unfolding push_for_def prod.case by blast
  moreover obtain ps where "sent_pushes nt1 = sent_pushes nt @ ps"
    and "\<forall>(t, h, cid, x) \<in> set ps. map_of (services hm) name = Some cid \<and> x = bt_encode B (push_dict n row)"
    using push_row_told [OF p] unfolding row fst_conv snd_conv by blast
  ultimately have "told_more B hm nt nt1"
    unfolding told_more_def by (intro exI [of _ ps]) (fastforce simp del: push_dict.simps)
  from told_more_trans [OF this Cons.IH [of "(if sent_it then k + 1 else k, nt1)", unfolded snd_conv]] Cons.prems
  show ?case by (simp add: s p)
qed (simp add: told_more_def)

lemma process_batch_told:
  assumes ok: "db_ok (db hm)" and batch: "process_batch B sod lifetime now msgs hm nt = (nt', r)"
  shows "told_more B hm nt nt'"
proof -
  have refl: "told_more B hm nt nt" for nt by (simp add: told_more_def)
  have one: "told_more B hm (snd s) (snd (process_message B sod hm now body s))" for body s
    using push_rows_told [OF ok _ order_refl, of B body] refl
    by (simp add: process_message_def split: sum.split option.split)
  have "told_more B hm (snd s) (snd (fold (process_message B sod hm now) msgs s))" for s
  proof (induction msgs arbitrary: s)
    case (Cons m msgs)
    from told_more_trans [OF one Cons.IH] show ?case by simp
  qed (simp add: refl)
  from this [of "(0, rotate_filters lifetime now (nt\<lparr>buf_size := 0\<rparr>))"] batch show ?thesis
    by (auto simp: process_batch_def told_more_def rotate_filters_def split: prod.splits if_splits)
qed


section \<open>The server implements the service\<close>

lemma service_tell_all:
  "(\<forall>p \<in> set ps. push_for B (entries a) (registered a) p) \<Longrightarrow> (service_step ox sod B)\<^sup>*\<^sup>* a (a\<lparr>told := told a @ ps\<rparr>)"
proof (induction ps rule: rev_induct)
  case (snoc p ps)
  let ?a = "a\<lparr>told := told a @ ps\<rparr>"
  have "service_step ox sod B ?a (?a\<lparr>told := told ?a @ [p]\<rparr>)"
    by (rule service_step.tell) (use snoc.prems in simp)
  moreover have "(service_step ox sod B)\<^sup>*\<^sup>* a ?a" using snoc by simp
  ultimately show ?case by (simp add: rtranclp.rtrancl_into_rtrancl)
qed simp

text \<open>Pushes first, then the change of the tables, then that of the registered notifiers.\<close>

lemma service_of_steps:
  assumes ok: "system_ok ox sod s"
    and told: "told_more B (sy_hm s) (sy_nt s) (sy_nt s')"
    and db: "db_shrinks (db (sy_hm s)) (db (sy_hm s')) \<or> gains_entry s s'"
  shows "(service_step ox sod B)\<^sup>*\<^sup>* (service_of s) (service_of s')"
proof -
  let ?a = "service_of s" and ?m = "sub_view (db (sy_hm s'))" and ?t = "sent_pushes (sy_nt s')"
  obtain ps where "?t = sent_pushes (sy_nt s) @ ps" "\<forall>p \<in> set ps. push_for B (entries ?a) (registered ?a) p"
    using told by (auto simp: told_more_def service_of_def)
  then have "(service_step ox sod B)\<^sup>*\<^sup>* ?a (?a\<lparr>told := ?t\<rparr>)"
    using service_tell_all [of ps B ?a ox sod] by (simp add: service_of_def)
  moreover have "service_step ox sod B (?a\<lparr>told := ?t\<rparr>) (?a\<lparr>told := ?t, entries := ?m\<rparr>)"
    using db
  proof
    assume "db_shrinks (db (sy_hm s)) (db (sy_hm s'))"
    then have "?m \<subseteq>\<^sub>m entries (?a\<lparr>told := ?t\<rparr>)"
      using system_okD(3) [OF ok] by (simp add: db_shrinks_def db_sound_def service_of_def)
    from service_step.forget [OF this] show ?thesis .
  next
    assume "gains_entry s s'"
    then obtain p sub enc svcid dta where p: "p \<in> set (sy_pending s)" "pd_action p = Subscribe_action sub enc"
      and m: "?m = (entries (?a\<lparr>told := ?t\<rparr>))
          ((account_id (pd_pubkey p), pd_service p, svcid) \<mapsto> (vals_of (pd_pubkey p) sub enc dta, namespaces sub))"
      by (auto simp: gains_entry_def service_of_def)
    have "vouched ox sod (pd_pubkey p) sub"
      using system_okD(7) [OF ok] p by (auto simp: list_all_iff pending_sound_def)
    from service_step.accept [OF this, of B "?a\<lparr>told := ?t\<rparr>"] show ?thesis unfolding m by blast
  qed
  moreover have "service_step ox sod B (?a\<lparr>told := ?t, entries := ?m\<rparr>) (service_of s')"
    using service_step.registry [of ox sod B "?a\<lparr>told := ?t, entries := ?m\<rparr>" "map_of (services (sy_hm s'))"]
    by (simp add: service_of_def)
  ultimately show ?thesis by (meson rtranclp.rtrancl_into_rtrancl)
qed

lemma system_step_told:
  assumes "system_step ox sod J B mk_addr dispatch config s s'" "system_ok ox sod s"
  shows "told_more B (sy_hm s) (sy_nt s) (sy_nt s')"
  using assms
proof (induction rule: system_step.induct)
  case (sy_batch now msgs s nt' r)
  have "db_ok (db (sy_hm s))" using system_okD(3) [OF sy_batch.prems] by (simp add: db_sound_def)
  from process_batch_told [OF this sy_batch.hyps] show ?case by simp
qed (simp_all add: told_more_def fresh_notifier_def)

interpretation server_service: simulation system_init
  "\<lambda>s s'. json_documented J \<and> oxenc_documented ox \<and> system_step ox sod J B mk_addr dispatch config s s'" "system_ok ox sod"
  service_init "service_step ox sod B" service_of
  for ox sod J B mk_addr dispatch config
proof
  show "system_init s \<Longrightarrow> service_init (service_of s)" for s
    by (auto simp: system_init_def service_init_def service_of_def sub_view_def select_subscription_def)
qed (intro service_of_steps; use system_step_told system_step_db in blast)




text \<open>
  Runs in which no subscription of an account to a service is being validated; requests of other
  accounts and for other services, unsubscriptions and everything else may happen.
\<close>

definition no_subscribe :: "bytes \<Rightarrow> string \<Rightarrow> system \<Rightarrow> bool" where
  "no_subscribe account name s \<longleftrightarrow>
     (\<forall>p \<in> set (sy_pending s). \<forall>sub enc. pd_action p = Subscribe_action sub enc \<longrightarrow> (account_id (pd_pubkey p), pd_service p) \<noteq> (account, name))"

lemma absent_step:
  assumes step: "system_step ox sod J B mk_addr dispatch config s s'" and ok: "system_ok ox sod s" and no: "no_subscribe account name s"
    and none: "sub_view (db (sy_hm s)) (account, name, svcid) = None"
  shows "sub_view (db (sy_hm s')) (account, name, svcid) = None"
  using system_step_db [OF step ok]
proof
  assume "db_shrinks (db (sy_hm s)) (db (sy_hm s'))"
  then have "sub_view (db (sy_hm s')) \<subseteq>\<^sub>m sub_view (db (sy_hm s))"
    using system_okD(3) [OF ok] by (simp add: db_shrinks_def db_sound_def)
  from map_le_implies_dom_le [OF this] none show ?thesis by (meson domIff in_mono)
next
  assume "gains_entry s s'"
  then obtain p sub enc sid dta where p: "p \<in> set (sy_pending s)" "pd_action p = Subscribe_action sub enc"
    and m: "sub_view (db (sy_hm s')) = (sub_view (db (sy_hm s)))
      ((account_id (pd_pubkey p), pd_service p, sid) \<mapsto> (vals_of (pd_pubkey p) sub enc dta, namespaces sub))"
    unfolding gains_entry_def by blast
  have "(account_id (pd_pubkey p), pd_service p) \<noteq> (account, name)" using no p unfolding no_subscribe_def by blast
  then show ?thesis unfolding m using none by auto
qed

text \<open>
  C4. A device that is not subscribed, because it unsubscribed, its notifier dropped it, its signature
  ran out or it never subscribed, stays so through any run of the server, restarts included, in
  which no subscription of that account to that service is waiting for its notifier; and whenever
  a message arrives for the account, the query for the devices to push to does not find it.
\<close>

theorem unsubscribed_stays_unsubscribed:
  assumes doc: "json_documented J" "oxenc_documented ox" and reach: "reach system_init (system_step ox sod J B mk_addr dispatch config) s"
    and none: "sub_view (db (sy_hm s)) (account, name, svcid) = None"
    and run: "(\<lambda>s s'. no_subscribe account name s \<and> system_step ox sod J B mk_addr dispatch config s s')\<^sup>*\<^sup>* s s'"
  shows "sub_view (db (sy_hm s')) (account, name, svcid) = None \<and>
    (\<forall>n row. row \<in> set (notify_query (n_account n) (n_ns n) (db (sy_hm s'))) \<and> n_account n = account \<longrightarrow>
       (fst (snd (snd row)), fst (snd (snd (snd row)))) \<noteq> (name, svcid))"
proof -
  have "reach system_init (system_step ox sod J B mk_addr dispatch config) s' \<and>
      sub_view (db (sy_hm s')) (account, name, svcid) = None"
    using run
  proof (induction rule: rtranclp_induct)
    case (step s1 s2)
    then have r: "reach system_init (system_step ox sod J B mk_addr dispatch config) s1" by simp
    from step absent_step [of ox sod J B mk_addr dispatch config s1 s2, OF _ reachable_ok [OF doc r]] show ?case
      by (auto intro: reach.reach_step)
  qed (use reach none in simp)
  then have s': "reach system_init (system_step ox sod J B mk_addr dispatch config) s'"
    and none': "sub_view (db (sy_hm s')) (account, name, svcid) = None" by simp_all
  have "db_ok (db (sy_hm s'))" using system_okD(3) [OF reachable_ok [OF doc s']] by (simp add: db_sound_def)
  with none' show ?thesis by (auto simp: notify_query_mem)
qed


section \<open>Witnesses of the service\<close>


lemma sample_batch:
  assumes ok: "db_ok (db hm)" and svcs: "services hm = [(''apns'', 7)]"
    and v: "sub_view (db hm) = Map.empty((sample_account 1, ''apns'', sample_sid) \<mapsto>
       (vals_of (sample_pk 1) signed_sub (replicate 32 2) None, [0, 5]))"
  shows "\<exists>nt' r h. process_batch (sample_bt owner_pairs) signing_sodium lifetime 9 [[]] hm sample_nt = (nt', r) \<and>
    (9, h, 7, bt_encode (sample_bt owner_pairs) (push_dict owner_note owner_row)) \<in> set (sent_pushes nt')"
proof -
  let ?B = "sample_bt owner_pairs" and ?rows = "notify_query (n_account owner_note) (n_ns owner_note) (db hm)"
  let ?nt = "rotate_filters lifetime 9 (sample_nt\<lparr>buf_size := 0\<rparr>)"
  have "sub_view (db hm) (n_account owner_note, ''apns'', sample_sid) = Some (vals_of (sample_pk 1) signed_sub (replicate 32 2) None, [0, 5])"
    "n_ns owner_note \<in> set [0, 5]"
    by (simp_all add: v owner_note_def sample_note_def)
  then have "owner_row \<in> set ?rows"
    unfolding notify_query_mem [OF ok] by (auto simp: vals_of_def signed_sub_def)
  then have rows: "?rows = [owner_row]" using owner_rows [OF ok v] by auto
  obtain k' nt' where run: "process_message ?B signing_sodium hm 9 [] (0, ?nt) = (k', nt')" by (metis prod.exhaust)
  have "sent_pushes nt' = sent_pushes ?nt @ due_pushes ?B signing_sodium (services hm) 9 owner_note (filter_rotate ?nt \<union> filter_cur ?nt) [owner_row]"
    using push_rows_due [where B = ?B and n = owner_note and svcs = "services hm" and rows = "[owner_row]" and sod = signing_sodium
        and now = 9 and k = 0 and nt = ?nt, OF sample_bt_sizes owner_note_ok] run
    by (simp add: process_message_def owner_note_parsed rows svcs services_ok_def sample_sid_def del: push_dict.simps)
  moreover have "(9, filter_val signing_sodium owner_note owner_row, 7, bt_encode ?B (push_dict owner_note owner_row)) \<in>
      set (due_pushes ?B signing_sodium (services hm) 9 owner_note (filter_rotate ?nt \<union> filter_cur ?nt) [owner_row])"
    unfolding set_due_pushes by (simp add: svcs rotate_filters_def del: push_dict.simps)
  ultimately have "(9, filter_val signing_sodium owner_note owner_row, 7, bt_encode ?B (push_dict owner_note owner_row)) \<in> set (sent_pushes nt')"
    by simp
  moreover have "\<exists>r. process_batch ?B signing_sodium lifetime 9 [[]] hm sample_nt = (nt', r)"
    using run by (simp add: process_batch_def)
  ultimately show ?thesis by blast
qed


theorem unsubscribed_stays_unsubscribed_witness:
  "\<exists>s s'. reach system_init (sample_step sample_mk_addr) s \<and> (sample_step sample_mk_addr)\<^sup>*\<^sup>* s s' \<and> s \<noteq> s' \<and>
     sub_view (db (sy_hm s)) (sample_account 1, ''apns'', sample_sid) = None \<and>
     sub_view (db (sy_hm s')) (sample_account 1, ''apns'', sample_sid) = None"
proof -
  obtain hm where r: "reach system_init (sample_step sample_mk_addr) (sample_system hm [])"
    and v: "sub_view (db hm) = Map.empty((sample_account 1, ''apns'', sample_sid) \<mapsto>
       (vals_of (sample_pk 1) signed_sub (replicate 32 2) None, [0, 5]))"
    using sample_reached [of sample_mk_addr] by metis
  have ok: "db_ok (db hm)"
    using system_okD(3) [OF reachable_ok [OF sample_json_documented sample_oxenc_documented r]] by (simp add: db_sound_def)
  let ?now = "1800000000 * nanos_per_sec" and ?key = "(sample_account 1, ''apns'', sample_sid)"
  let ?s = "sample_system (hm\<lparr>db := db_cleanup ?now (db hm)\<rparr>) []" and ?s' = "(sample_system (hm\<lparr>db := db_cleanup ?now (db hm)\<rparr>) [])\<lparr>sy_now := 1700000101\<rparr>"
  have "sample_step sample_mk_addr (sample_system hm []) ?s"
    using system_step.sy_cleanup [where s = "sample_system hm []" and now = ?now] by simp
  with r have s: "reach system_init (sample_step sample_mk_addr) ?s" by (rule reach.reach_step)
  have "SIGNATURE_EXPIRY * nanos_per_sec \<le> ?now" by (simp add: SIGNATURE_EXPIRY_def nanos_per_sec_def)
  from sub_view_cleanup [OF ok this] have none: "sub_view (db (sy_hm ?s)) ?key = None"
    by (simp add: v) (simp add: vals_of_def signed_sub_def floor_seconds_def SIGNATURE_EXPIRY_def nanos_per_sec_def)
  have step: "sample_step sample_mk_addr ?s ?s'" by (rule system_step.sy_tick) (simp add: timely_def)
  have "(\<lambda>s s'. no_subscribe (sample_account 1) ''apns'' s \<and> sample_step sample_mk_addr s s')\<^sup>*\<^sup>* ?s ?s'"
    using step by (intro r_into_rtranclp) (simp add: no_subscribe_def)
  from unsubscribed_stays_unsubscribed [OF sample_json_documented sample_oxenc_documented s none this] none s step show ?thesis
    by (intro exI [of _ ?s] exI [of _ ?s']) auto
qed

end
