(* ===== verification/Deferred_Memory.thy ===== *)
theory Deferred_Memory
  imports Requests
begin

text \<open>
  The memory of requests that arrive during start-up (\<^verbatim>\<open>spns/hivemind.cpp\<close>, lines 437-487,
  \<^verbatim>\<open>spns/hivemind.hpp\<close>, lines 107-120). The parts of an OxenMQ message are views into memory that is
  released when its handler returns, so \<^verbatim>\<open>DeferredRequest\<close> copies them into a vector of strings of its
  own and lets the message's views point there. A short string keeps its characters inside the
  string object, that is inside the vector's buffer, and moves when the vector grows. Memory,
  vectors and views are explicit here; the result is that start-up with them refines the start-up
  of \<^theory_text>\<open>Requests\<close>, where a request is simply its text.
\<close>

section \<open>Memory, strings and vectors\<close>

text \<open>
  Where characters are: in a part of a received message, inside the \<open>i\<close>-th string object of a
  vector's buffer, or in a string's own block on the heap. Addresses are numbers; 0 is null, and
  \<open>brk\<close> and above are not yet in use. A \<^verbatim>\<open>string_view\<close> is the place of the text it views.
\<close>

datatype place = In_part nat | In_vector nat nat | On_heap nat

fun address_of :: "place \<Rightarrow> nat" where
  "address_of (In_part a) = a"
| "address_of (In_vector a i) = a"
| "address_of (On_heap a) = a"

record memory =
  chars :: "place \<rightharpoonup> string"
  brk :: nat

record string_vector =
  vec_buf :: nat
  vec_cap :: nat
  vec_elems :: "place list"

definition empty_vector :: string_vector where
  "empty_vector = \<lparr>vec_buf = 0, vec_cap = 0, vec_elems = []\<rparr>"

definition free_places :: "place list \<Rightarrow> memory \<Rightarrow> memory" where
  "free_places ps mem = mem\<lparr>chars := (\<lambda>p. if p \<in> set ps then None else chars mem p)\<rparr>"

text \<open>A string is constructed in slot \<open>i\<close> of buffer \<open>b\<close>; up to \<open>sso\<close> characters fit into the object.\<close>

definition construct_string :: "nat \<Rightarrow> nat \<Rightarrow> nat \<Rightarrow> string \<Rightarrow> memory \<Rightarrow> place \<times> memory" where
  "construct_string sso b i s mem =
     (if length s \<le> sso then (In_vector b i, mem\<lparr>chars := (chars mem)(In_vector b i \<mapsto> s)\<rparr>)
      else (On_heap (brk mem), mem\<lparr>chars := (chars mem)(On_heap (brk mem) \<mapsto> s), brk := brk mem + 1\<rparr>))"

text \<open>The strings of a vector that grows are moved to the new buffer, short ones with their characters.\<close>

fun move_strings :: "nat \<Rightarrow> nat \<Rightarrow> place list \<Rightarrow> memory \<Rightarrow> place list \<times> memory" where
  "move_strings b i [] mem = ([], mem)"
| "move_strings b i (On_heap a # ps) mem =
     (case move_strings b (Suc i) ps mem of (ps', mem') \<Rightarrow> (On_heap a # ps', mem'))"
| "move_strings b i (p # ps) mem =
     (case move_strings b (Suc i) ps (mem\<lparr>chars := (chars mem)(In_vector b i := chars mem p, p := None)\<rparr>) of
        (ps', mem') \<Rightarrow> (In_vector b i # ps', mem'))"

definition reallocate :: "nat \<Rightarrow> string_vector \<Rightarrow> memory \<Rightarrow> string_vector \<times> memory" where
  "reallocate n v mem =
     (case move_strings (brk mem) 0 (vec_elems v) (mem\<lparr>brk := brk mem + 1\<rparr>) of
        (ps, mem') \<Rightarrow> (\<lparr>vec_buf = brk mem, vec_cap = n, vec_elems = ps\<rparr>, mem'))"

definition vec_reserve :: "nat \<Rightarrow> string_vector \<Rightarrow> memory \<Rightarrow> string_vector \<times> memory" where
  "vec_reserve n v mem = (if vec_cap v < n then reallocate n v mem else (v, mem))"

text \<open>\<^verbatim>\<open>emplace_back\<close>; \<open>growth\<close> is the capacity the library chooses when a full vector grows.\<close>

definition vec_emplace_back ::
  "nat \<Rightarrow> (nat \<Rightarrow> nat) \<Rightarrow> string \<Rightarrow> string_vector \<Rightarrow> memory \<Rightarrow> place \<times> string_vector \<times> memory" where
  "vec_emplace_back sso growth s v mem =
     (let (v1, mem1) = (if length (vec_elems v) < vec_cap v then (v, mem) else reallocate (growth (vec_cap v)) v mem);
          (p, mem2) = construct_string sso (vec_buf v1) (length (vec_elems v1)) s mem1
      in (p, v1\<lparr>vec_elems := vec_elems v1 @ [p]\<rparr>, mem2))"

section \<open>Deferred requests\<close>

text \<open>
  A request whose OxenMQ parts are views; a \<^verbatim>\<open>quic::message\<close> owns its text and is moved as a whole.
\<close>

datatype request = Omq_request "place list" | Quic_request string string

fun request_places :: "request \<Rightarrow> place list" where
  "request_places (Omq_request ps) = ps"
| "request_places (Quic_request endpoint body) = []"

record DeferredRequest =
  dr_message :: request
  dr_data :: string_vector

text \<open>What a handler reads: \<open>None\<close> if one of the views points to memory that is gone.\<close>

fun read_views :: "memory \<Rightarrow> place list \<Rightarrow> string list option" where
  "read_views mem [] = Some []"
| "read_views mem (p # ps) =
     (case chars mem p of None \<Rightarrow> None | Some s \<Rightarrow> map_option ((#) s) (read_views mem ps))"

fun read_request :: "memory \<Rightarrow> request \<Rightarrow> message option" where
  "read_request mem (Omq_request ps) = map_option omq_message (read_views mem ps)"
| "read_request mem (Quic_request endpoint body) = Some (quic_message endpoint body)"

text \<open>The loop of the constructor; reading a dangling view has no result.\<close>

fun copy_parts ::
  "nat \<Rightarrow> (nat \<Rightarrow> nat) \<Rightarrow> place list \<Rightarrow> place list \<Rightarrow> string_vector \<Rightarrow> memory \<Rightarrow> (place list \<times> string_vector \<times> memory) option" where
  "copy_parts sso growth [] views v mem = Some (views, v, mem)"
| "copy_parts sso growth (d # ds) views v mem =
     (case chars mem d of
        None \<Rightarrow> None
      | Some s \<Rightarrow>
          (case vec_emplace_back sso growth s v mem of
             (p, v', mem') \<Rightarrow> copy_parts sso growth ds (views @ [p]) v' mem'))"

fun DeferredRequest_ctor :: "nat \<Rightarrow> (nat \<Rightarrow> nat) \<Rightarrow> request \<Rightarrow> memory \<Rightarrow> (DeferredRequest \<times> memory) option" where
  "DeferredRequest_ctor sso growth (Omq_request parts) mem =
     (case vec_reserve (length parts) empty_vector mem of
        (v, mem1) \<Rightarrow>
          map_option (\<lambda>(views, v', mem'). (\<lparr>dr_message = Omq_request views, dr_data = v'\<rparr>, mem'))
            (copy_parts sso growth parts [] v mem1))"
| "DeferredRequest_ctor sso growth (Quic_request endpoint body) mem =
     Some (\<lparr>dr_message = Quic_request endpoint body, dr_data = empty_vector\<rparr>, mem)"

section \<open>Start-up\<close>

text \<open>
  The state: the flag, whether \<^verbatim>\<open>set_ready\<close> is draining, the list \<^verbatim>\<open>deferred_\<close> (a \<^verbatim>\<open>std::list\<close>, whose elements stay
  where they were constructed), the requests whose thread caught \<^verbatim>\<open>startup_request_defer\<close> and is about to
  take the mutex, what the handlers read, and the requests that arrived.
\<close>

record mem_startup =
  ms_mem :: memory
  ms_ready :: bool
  ms_draining :: bool
  ms_deferred :: "DeferredRequest list"
  ms_blocked :: "request multiset"
  ms_handled :: "message option list"
  ms_arrived :: "message list"

text \<open>A message is received: its parts are in memory of their own.\<close>

fun receive_parts :: "string list \<Rightarrow> memory \<Rightarrow> place list \<times> memory" where
  "receive_parts [] mem = ([], mem)"
| "receive_parts (s # ss) mem =
     (case receive_parts ss (mem\<lparr>chars := (chars mem)(In_part (brk mem) \<mapsto> s), brk := brk mem + 1\<rparr>) of
        (ps, mem') \<Rightarrow> (In_part (brk mem) # ps, mem'))"

fun receive :: "message \<Rightarrow> memory \<Rightarrow> request \<times> memory" where
  "receive (omq_message parts) mem = (case receive_parts parts mem of (ps, mem') \<Rightarrow> (Omq_request ps, mem'))"
| "receive (quic_message endpoint body) mem = (Quic_request endpoint body, mem)"

text \<open>
  A handler called with a request: before the server is ready it throws, and the message stays with
  its thread; afterwards it reads the request, and the message is released when it returns.
\<close>

definition mem_call_handler :: "request \<Rightarrow> mem_startup \<Rightarrow> mem_startup" where
  "mem_call_handler r s =
     (if ms_ready s
      then s\<lparr>ms_handled := ms_handled s @ [read_request (ms_mem s) r],
             ms_mem := free_places (request_places r) (ms_mem s)\<rparr>
      else s\<lparr>ms_blocked := add_mset r (ms_blocked s)\<rparr>)"

text \<open>
  \<^verbatim>\<open>defer_request\<close> under the mutex: the copy is made, then the wrapper returns and the received
  message is released.
\<close>

definition mem_defer_request :: "nat \<Rightarrow> (nat \<Rightarrow> nat) \<Rightarrow> request \<Rightarrow> mem_startup \<Rightarrow> mem_startup option" where
  "mem_defer_request sso growth r s =
     (if \<not> ms_ready s then
        map_option (\<lambda>(d, mem'). s\<lparr>ms_deferred := ms_deferred s @ [d], ms_mem := free_places (request_places r) mem'\<rparr>)
          (DeferredRequest_ctor sso growth r (ms_mem s))
      else Some (mem_call_handler r s))"

text \<open>
  One iteration of \<^verbatim>\<open>set_ready\<close>'s loop: the front is called, which reads the request since \<^verbatim>\<open>ready\<close> is set,
  and is then destroyed with its strings.
\<close>

definition mem_drain :: "mem_startup \<Rightarrow> mem_startup" where
  "mem_drain s =
     (case ms_deferred s of
        [] \<Rightarrow> s\<lparr>ms_draining := False\<rparr>
      | d # ds \<Rightarrow>
          s\<lparr>ms_handled := ms_handled s @ [read_request (ms_mem s) (dr_message d)],
            ms_deferred := ds, ms_mem := free_places (vec_elems (dr_data d)) (ms_mem s)\<rparr>)"

inductive mem_step :: "nat \<Rightarrow> (nat \<Rightarrow> nat) \<Rightarrow> mem_startup \<Rightarrow> mem_startup \<Rightarrow> bool"
  for sso growth where
  m_arrive: "receive m (ms_mem s) = (r, mem') \<Longrightarrow>
    mem_step sso growth s (mem_call_handler r (s\<lparr>ms_mem := mem', ms_arrived := ms_arrived s @ [m]\<rparr>))"
| m_lock: "r \<in># ms_blocked s \<Longrightarrow> mem_defer_request sso growth r (s\<lparr>ms_blocked := ms_blocked s - {#r#}\<rparr>) = Some s' \<Longrightarrow>
    mem_step sso growth s s'"
| m_flip: "\<not> ms_ready s \<Longrightarrow> mem_step sso growth s (s\<lparr>ms_ready := True, ms_draining := True\<rparr>)"
| m_drain: "ms_draining s \<Longrightarrow> mem_step sso growth s (mem_drain s)"

definition mem_init :: "mem_startup \<Rightarrow> bool" where
  "mem_init s \<longleftrightarrow> s = \<lparr>ms_mem = \<lparr>chars = Map.empty, brk = 1\<rparr>, ms_ready = False, ms_draining = False,
     ms_deferred = [], ms_blocked = {#}, ms_handled = [], ms_arrived = []\<rparr>"

section \<open>Reading and writing\<close>

definition mem_fine :: "memory \<Rightarrow> bool" where
  "mem_fine mem \<longleftrightarrow> finite (dom (chars mem)) \<and> 0 < brk mem \<and>
     (\<forall>p \<in> dom (chars mem). 0 < address_of p \<and> address_of p < brk mem)"

text \<open>What two routines that only add texts to the memory have in common.\<close>

definition adds_texts :: "memory \<Rightarrow> place list \<Rightarrow> string list \<Rightarrow> memory \<Rightarrow> bool" where
  "adds_texts mem ps ss mem' \<longleftrightarrow> mem_fine mem' \<and> distinct ps \<and> set ps \<inter> dom (chars mem) = {} \<and>
     length ps = length ss \<and> chars mem' = (chars mem)(ps [\<mapsto>] ss)"

lemma read_views_Some: "read_views mem ps = Some ss \<longleftrightarrow> map (chars mem) ps = map Some ss"
  by (induction ps arbitrary: ss) (auto simp: Cons_eq_map_conv split: option.split)

lemma read_views_cong: "(\<And>p. p \<in> set ps \<Longrightarrow> chars mem p = chars mem' p) \<Longrightarrow> read_views mem ps = read_views mem' ps"
  by (induction ps) (auto split: option.split)

lemma read_request_cong:
  "(\<And>p. p \<in> set (request_places r) \<Longrightarrow> chars mem p = chars mem' p) \<Longrightarrow> read_request mem r = read_request mem' r"
  by (cases r) (simp_all cong: read_views_cong)

lemma read_views_live: "set ps \<subseteq> dom (chars mem) \<Longrightarrow> \<exists>ss. read_views mem ps = Some ss"
  by (induction ps) (auto split: option.split)

lemma read_views_dom: "read_views mem ps = Some ss \<Longrightarrow> set ps \<subseteq> dom (chars mem)"
  by (induction ps arbitrary: ss) (auto split: option.splits)

lemma read_request_live: "set (request_places r) \<subseteq> dom (chars mem) \<Longrightarrow> \<exists>m. read_request mem r = Some m"
  using read_views_live by (cases r) fastforce+

lemma map_upds_self: "distinct ps \<Longrightarrow> length ps = length ss \<Longrightarrow> map (m(ps [\<mapsto>] ss)) ps = map Some ss"
proof (induction ps arbitrary: m ss)
  case (Cons p ps)
  then obtain s ss' where "ss = s # ss'" by (cases ss) auto
  with Cons.IH [of ss' "m(p \<mapsto> s)"] Cons.prems show ?case
    by (simp add: map_upds_apply_nontin del: fun_upd_apply) simp
qed simp

lemma adds_textsD:
  assumes "adds_texts mem ps ss mem'"
  shows "mem_fine mem'" "distinct ps" "set ps \<inter> dom (chars mem) = {}" "read_views mem' ps = Some ss"
    "dom (chars mem') = dom (chars mem) \<union> set ps" "\<And>p. p \<notin> set ps \<Longrightarrow> chars mem' p = chars mem p"
  using assms by (auto simp: adds_texts_def read_views_Some map_upds_self dom_map_upds map_upds_apply_nontin)

lemma adds_texts_views:
  assumes "adds_texts mem ps ss mem'" "set qs \<subseteq> dom (chars mem)"
  shows "read_views mem' qs = read_views mem qs"
  using adds_textsD(3,6) [OF assms(1)] assms(2) by (intro read_views_cong) blast

lemma adds_texts_request:
  assumes "adds_texts mem ps ss mem'" "set (request_places r) \<subseteq> dom (chars mem)"
  shows "read_request mem' r = read_request mem r"
  using adds_texts_views [OF assms(1)] assms(2) by (cases r) simp_all

lemma adds_texts_Nil: "mem_fine mem \<Longrightarrow> adds_texts mem [] [] mem"
  by (simp add: adds_texts_def)

lemma adds_texts_Cons:
  assumes "adds_texts mem [p] [s] mem1" "adds_texts mem1 ps ss mem2"
  shows "adds_texts mem (p # ps) (s # ss) mem2"
  using assms by (auto simp: adds_texts_def)

lemma adds_one:
  assumes "mem_fine mem" "p \<notin> dom (chars mem)" "0 < address_of p" "address_of p < b" "brk mem \<le> b"
  shows "adds_texts mem [p] [s] (mem\<lparr>chars := (chars mem)(p \<mapsto> s), brk := b\<rparr>)"
proof -
  have "\<forall>q \<in> insert p (dom (chars mem)). 0 < address_of q \<and> address_of q < b"
    using assms by (auto simp: mem_fine_def intro: less_le_trans)
  with assms show ?thesis by (auto simp: adds_texts_def mem_fine_def simp del: fun_upd_apply)
qed

lemma brk_not_live: "mem_fine mem \<Longrightarrow> address_of p = brk mem \<or> address_of p = 0 \<Longrightarrow> p \<notin> dom (chars mem)"
  unfolding mem_fine_def by (metis less_irrefl)

lemma receive_parts_adds: "receive_parts ss mem = (ps, mem') \<Longrightarrow> mem_fine mem \<Longrightarrow> adds_texts mem ps ss mem'"
proof (induction ss arbitrary: mem ps mem')
  case (Cons s ss)
  let ?mem = "mem\<lparr>chars := (chars mem)(In_part (brk mem) \<mapsto> s), brk := brk mem + 1\<rparr>"
  obtain ps1 where "receive_parts ss ?mem = (ps1, mem')" "ps = In_part (brk mem) # ps1"
    using Cons.prems(1) by (auto split: prod.splits)
  moreover have "adds_texts mem [In_part (brk mem)] [s] ?mem"
    using Cons.prems(2) by (intro adds_one brk_not_live) (simp_all add: mem_fine_def)
  ultimately show ?case using Cons.IH adds_textsD(1) adds_texts_Cons by blast
qed (simp add: adds_texts_Nil)

lemma construct_string_adds:
  assumes "mem_fine mem" "0 < b" "b < brk mem" "In_vector b i \<notin> dom (chars mem)"
    and "construct_string sso b i s mem = (p, mem')"
  shows "adds_texts mem [p] [s] mem' \<and> brk mem \<le> brk mem' \<and> (\<forall>j. p = In_vector b j \<longrightarrow> j = i)"
proof (cases "length s \<le> sso")
  case True
  with assms(5) have "p = In_vector b i" "mem' = mem\<lparr>chars := (chars mem)(p \<mapsto> s), brk := brk mem\<rparr>"
    by (auto simp: construct_string_def)
  with assms adds_one [of mem p "brk mem" s] show ?thesis by simp
next
  case False
  with assms(5) have "p = On_heap (brk mem)" "mem' = mem\<lparr>chars := (chars mem)(p \<mapsto> s), brk := brk mem + 1\<rparr>"
    by (auto simp: construct_string_def)
  with assms brk_not_live [of mem p] adds_one [of mem p "brk mem + 1" s] show ?thesis by simp
qed

text \<open>
  The loop after \<^verbatim>\<open>reserve\<close>: the buffer has room for what is still to come, so it stays where it is,
  and with it every string a view points to.
\<close>

lemma copy_parts_adds:
  assumes "read_views mem ds = Some ss" "mem_fine mem" "length (vec_elems v) + length ds \<le> vec_cap v"
    and "ds \<noteq> [] \<longrightarrow> 0 < vec_buf v \<and> vec_buf v < brk mem"
    and "\<forall>i. In_vector (vec_buf v) i \<in> dom (chars mem) \<longrightarrow> i < length (vec_elems v)"
  shows "\<exists>new mem'. copy_parts sso growth ds views v mem = Some (views @ new, v\<lparr>vec_elems := vec_elems v @ new\<rparr>, mem') \<and>
    adds_texts mem new ss mem'"
  using assms
proof (induction ds arbitrary: ss views v mem)
  case (Cons d ds)
  obtain s ss' where s: "chars mem d = Some s" "ss = s # ss'" "read_views mem ds = Some ss'"
    using Cons.prems(1) by (auto split: option.splits)
  obtain p mem1 where p: "construct_string sso (vec_buf v) (length (vec_elems v)) s mem = (p, mem1)" by fastforce
  let ?v = "v\<lparr>vec_elems := vec_elems v @ [p]\<rparr>"
  from construct_string_adds [OF Cons.prems(2) _ _ _ p] Cons.prems(4,5)
  have adds: "adds_texts mem [p] [s] mem1" "brk mem \<le> brk mem1" "\<forall>j. p = In_vector (vec_buf v) j \<longrightarrow> j = length (vec_elems v)"
    by auto
  note one = adds_textsD [OF adds(1)]
  have "set ds \<subseteq> dom (chars mem)" using s(3) by (rule read_views_dom)
  then have "read_views mem1 ds = Some ss'"
    using adds_texts_views [OF adds(1)] s(3) by simp
  then have "\<exists>new mem'. copy_parts sso growth ds (views @ [p]) ?v mem1 = Some ((views @ [p]) @ new, ?v\<lparr>vec_elems := vec_elems ?v @ new\<rparr>, mem') \<and>
      adds_texts mem1 new ss' mem'"
    using Cons.prems(3,4,5) adds(2,3) one(1,5)
    by (intro Cons.IH) (auto simp: less_Suc_eq)
  then obtain new mem' where "copy_parts sso growth ds (views @ [p]) ?v mem1 = Some (views @ p # new, v\<lparr>vec_elems := vec_elems v @ p # new\<rparr>, mem')"
      "adds_texts mem1 new ss' mem'" by auto
  moreover from this adds(1) have "adds_texts mem (p # new) ss mem'" unfolding s(2) by (blast intro: adds_texts_Cons)
  ultimately show ?case using s(1) p Cons.prems(3) by (auto simp: vec_emplace_back_def)
qed (simp add: adds_texts_Nil)

lemma DeferredRequest_ctor_adds:
  assumes fine: "mem_fine mem" and live: "set (request_places r) \<subseteq> dom (chars mem)"
  obtains d mem' ss where "DeferredRequest_ctor sso growth r mem = Some (d, mem')"
    "adds_texts mem (request_places (dr_message d)) ss mem'" "vec_elems (dr_data d) = request_places (dr_message d)"
    "read_request mem' (dr_message d) = read_request mem r"
proof (cases r)
  case (Quic_request endpoint body)
  with that [of "\<lparr>dr_message = r, dr_data = empty_vector\<rparr>" mem "[]"] fine show thesis
    by (simp add: adds_texts_Nil empty_vector_def)
next
  case (Omq_request parts)
  obtain v mem1 where v: "vec_reserve (length parts) empty_vector mem = (v, mem1)" by fastforce
  then have v': "vec_elems v = []" "length parts \<le> vec_cap v" "chars mem1 = chars mem" "mem_fine mem1"
    "parts \<noteq> [] \<longrightarrow> 0 < vec_buf v \<and> vec_buf v < brk mem1 \<and> vec_buf v = brk mem" "parts = [] \<longrightarrow> vec_buf v = 0"
    using fine by (auto simp: vec_reserve_def reallocate_def empty_vector_def mem_fine_def less_Suc_eq split: if_splits)
  have "In_vector (vec_buf v) i \<notin> dom (chars mem1)" for i
    using v'(3,5,6) brk_not_live [OF fine, of "In_vector (vec_buf v) i"] by (cases "parts = []") simp_all
  moreover obtain ss where ss: "read_views mem parts = Some ss" "read_views mem1 parts = Some ss"
    using read_views_live [of parts mem] live read_views_cong [of parts mem mem1] v'(3) Omq_request by auto
  ultimately obtain new mem' where new: "copy_parts sso growth parts [] v mem1 = Some (new, v\<lparr>vec_elems := new\<rparr>, mem')" "adds_texts mem1 new ss mem'"
    using copy_parts_adds [of mem1 parts ss v sso growth "[]"] v' by auto
  moreover from this(2) have "adds_texts mem new ss mem'" using v'(3) by (simp add: adds_texts_def)
  ultimately show thesis
    using that [of "\<lparr>dr_message = Omq_request new, dr_data = v\<lparr>vec_elems := new\<rparr>\<rparr>" mem' ss] v ss(1) adds_textsD(4) [OF new(2)]
    by (simp add: Omq_request)
qed

section \<open>Ownership\<close>

text \<open>
  Every text in memory has exactly one owner, a received message still with its thread or a
  deferred request; the views of a deferred request are its own strings; no handler has read freed
  memory. In the middle of a step, \<open>Q\<close> is what the running thread owns.
\<close>

definition owned :: "mem_startup \<Rightarrow> place multiset" where
  "owned s = \<Sum>\<^sub># (image_mset (mset \<circ> request_places) (ms_blocked s)) + mset (concat (map (vec_elems \<circ> dr_data) (ms_deferred s)))"

definition mem_holds :: "place multiset \<Rightarrow> mem_startup \<Rightarrow> bool" where
  "mem_holds Q s \<longleftrightarrow> mem_fine (ms_mem s) \<and> mset_set (dom (chars (ms_mem s))) = owned s + Q \<and>
     (\<forall>d \<in> set (ms_deferred s). request_places (dr_message d) = vec_elems (dr_data d)) \<and>
     None \<notin> set (ms_handled s) \<and> (ms_draining s \<longrightarrow> ms_ready s)"

abbreviation mem_ok :: "mem_startup \<Rightarrow> bool" where
  "mem_ok \<equiv> mem_holds {#}"

definition startup_of :: "mem_startup \<Rightarrow> message startup" where
  "startup_of s = \<lparr>is_ready = ms_ready s, is_draining = ms_draining s,
     deferred = map (\<lambda>d. the (read_request (ms_mem s) (dr_message d))) (ms_deferred s),
     blocked = image_mset (\<lambda>r. the (read_request (ms_mem s) r)) (ms_blocked s),
     handled = map the (ms_handled s), arrived = ms_arrived s\<rparr>"

lemma part_of_mset_set:
  assumes "finite A" "mset_set A = R + mset ps"
  shows "set ps \<subseteq> A" "set_mset R \<subseteq> A" "set_mset R \<inter> set ps = {}" "mset_set (A - set ps) = R"
proof -
  have sub: "mset ps \<subseteq># mset_set A" using assms(2) by simp
  show ps: "set ps \<subseteq> A" and "set_mset R \<subseteq> A"
    using arg_cong [OF assms(2), of set_mset] assms(1) by auto
  have one: "count (R + mset ps) p \<le> 1" for p unfolding assms(2) [symmetric] by (simp add: count_mset_set')
  show "set_mset R \<inter> set ps = {}"
  proof (rule ccontr)
    assume "set_mset R \<inter> set ps \<noteq> {}"
    then obtain p where "0 < count R p" "0 < count (mset ps) p" by (auto simp: count_greater_zero_iff)
    with one [of p] show False by simp
  qed
  have "count (mset ps) p = (if p \<in> set ps then 1 else 0)" for p
    using one [of p] count_greater_zero_iff [of "mset ps" p]
    by (cases "p \<in> set ps") (simp_all add: count_eq_zero_iff del: count_greater_zero_iff)
  then have "distinct ps" unfolding distinct_count_atmost_1 by blast
  then show "mset_set (A - set ps) = R"
    using ps assms by (simp add: mset_set_Diff mset_set_set)
qed

lemma free_places_owned:
  assumes "mem_fine mem" "mset_set (dom (chars mem)) = R + mset ps"
  shows "mem_fine (free_places ps mem)" "mset_set (dom (chars (free_places ps mem))) = R"
    "set ps \<subseteq> dom (chars mem)" "\<And>p. p \<in># R \<Longrightarrow> chars (free_places ps mem) p = chars mem p"
proof -
  have fin: "finite (dom (chars mem))" using assms(1) by (simp add: mem_fine_def)
  note parts = part_of_mset_set [OF fin assms(2)]
  have "dom (chars (free_places ps mem)) = dom (chars mem) - set ps" by (auto simp: free_places_def split: if_splits)
  then show "mem_fine (free_places ps mem)" "mset_set (dom (chars (free_places ps mem))) = R"
    using assms(1) parts(4) by (simp_all add: mem_fine_def free_places_def)
  show "set ps \<subseteq> dom (chars mem)" by (rule parts(1))
  show "chars (free_places ps mem) p = chars mem p" if "p \<in># R" for p
    using that parts(3) by (auto simp: free_places_def)
qed

lemma adds_texts_owned:
  assumes "adds_texts mem ps ss mem'" "mem_fine mem"
  shows "mset_set (dom (chars mem')) = mset_set (dom (chars mem)) + mset ps"
  using adds_textsD(2,3,5) [OF assms(1)] assms(2)
  by (simp add: mset_set_Union mset_set_set mem_fine_def Int_commute)

lemma owned_simps [simp]:
  "owned (s\<lparr>ms_blocked := add_mset r bs\<rparr>) = owned (s\<lparr>ms_blocked := bs\<rparr>) + mset (request_places r)"
  "owned (s\<lparr>ms_deferred := ds @ [d]\<rparr>) = owned (s\<lparr>ms_deferred := ds\<rparr>) + mset (vec_elems (dr_data d))"
  "owned (s\<lparr>ms_mem := m\<rparr>) = owned s" "owned (s\<lparr>ms_handled := h\<rparr>) = owned s" "owned (s\<lparr>ms_ready := b\<rparr>) = owned s"
  "owned (s\<lparr>ms_draining := b\<rparr>) = owned s" "owned (s\<lparr>ms_arrived := a\<rparr>) = owned s"
  by (simp_all add: owned_def)

text \<open>What the owners can read only depends on what they own.\<close>

lemma startup_of_cong:
  assumes "mem_holds Q s" "\<And>p. p \<in># owned s \<Longrightarrow> chars mem' p = chars (ms_mem s) p"
  shows "startup_of (s\<lparr>ms_mem := mem'\<rparr>) = startup_of s"
proof -
  have "read_request mem' r = read_request (ms_mem s) r" if "r \<in># ms_blocked s" for r
    using assms(2) that by (intro read_request_cong) (fastforce simp: owned_def)
  moreover have "read_request mem' (dr_message d) = read_request (ms_mem s) (dr_message d)" if "d \<in> set (ms_deferred s)" for d
    using assms that by (intro read_request_cong) (fastforce simp: owned_def mem_holds_def)
  ultimately show ?thesis by (auto simp: startup_of_def intro!: image_mset_cong)
qed

lemma holds_live: "mem_holds Q s \<Longrightarrow> set_mset (owned s) \<subseteq> dom (chars (ms_mem s))"
  by (metis mem_holds_def mem_fine_def finite_set_mset_mset_set mset_subset_eq_add_left set_mset_mono)

lemma holds_adds:
  assumes "mem_holds Q s" "adds_texts (ms_mem s) ps ss mem'"
  shows "mem_holds (Q + mset ps) (s\<lparr>ms_mem := mem'\<rparr>)" "startup_of (s\<lparr>ms_mem := mem'\<rparr>) = startup_of s"
proof -
  show "mem_holds (Q + mset ps) (s\<lparr>ms_mem := mem'\<rparr>)"
    using assms(1) adds_texts_owned [OF assms(2)] adds_textsD(1) [OF assms(2)] by (simp add: mem_holds_def)
  from holds_live [OF assms(1)] adds_textsD(3,6) [OF assms(2)] show "startup_of (s\<lparr>ms_mem := mem'\<rparr>) = startup_of s"
    by (intro startup_of_cong [OF assms(1)]) blast
qed

lemma holds_free:
  assumes "mem_holds (Q + mset ps) s"
  shows "mem_holds Q (s\<lparr>ms_mem := free_places ps (ms_mem s)\<rparr>)" "startup_of (s\<lparr>ms_mem := free_places ps (ms_mem s)\<rparr>) = startup_of s"
    "set ps \<subseteq> dom (chars (ms_mem s))"
proof -
  have "mem_fine (ms_mem s)" "mset_set (dom (chars (ms_mem s))) = (owned s + Q) + mset ps"
    using assms by (simp_all add: mem_holds_def add.assoc)
  note free = free_places_owned [OF this]
  show "mem_holds Q (s\<lparr>ms_mem := free_places ps (ms_mem s)\<rparr>)" using assms free(1,2) by (simp add: mem_holds_def)
  show "startup_of (s\<lparr>ms_mem := free_places ps (ms_mem s)\<rparr>) = startup_of s"
    using free(4) by (intro startup_of_cong [OF assms]) simp
  show "set ps \<subseteq> dom (chars (ms_mem s))" by (rule free(3))
qed

section \<open>The steps keep ownership and refine those of \<^verbatim>\<open>Requests\<close>\<close>

lemma receive_adds:
  assumes "receive m mem = (r, mem')" "mem_fine mem"
  obtains ss where "adds_texts mem (request_places r) ss mem'" "read_request mem' r = Some m"
proof (cases m)
  case (omq_message parts)
  then obtain ps where r: "r = Omq_request ps" "receive_parts parts mem = (ps, mem')" using assms(1) by (auto split: prod.splits)
  from receive_parts_adds [OF r(2) assms(2)] have "adds_texts mem ps parts mem'" .
  with that [of parts] adds_textsD(4) r omq_message show thesis by simp
next
  case (quic_message endpoint body)
  with assms that [of "[]"] show thesis by (auto simp: adds_texts_Nil)
qed

lemma mem_call_handler_holds:
  assumes "mem_holds (mset (request_places r)) s"
  shows "mem_ok (mem_call_handler r s)"
    "startup_of (mem_call_handler r s) = call_handler (the (read_request (ms_mem s) r)) (startup_of s)"
proof -
  have free: "mem_holds ({#} + mset (request_places r)) s" using assms by simp
  from holds_free(3) [OF free] obtain m where m: "read_request (ms_mem s) r = Some m" using read_request_live by blast
  show "mem_ok (mem_call_handler r s)"
    using holds_free(1) [OF free] assms by (auto simp: mem_call_handler_def mem_holds_def m)
  show "startup_of (mem_call_handler r s) = call_handler (the (read_request (ms_mem s) r)) (startup_of s)"
    using holds_free(2) [OF free] by (auto simp: mem_call_handler_def startup_defs startup_of_def)
qed

lemma mem_holds_blocked:
  assumes "mem_ok s" "r \<in># ms_blocked s"
  shows "mem_holds (mset (request_places r)) (s\<lparr>ms_blocked := ms_blocked s - {#r#}\<rparr>)"
proof -
  obtain bs where bs: "ms_blocked s = add_mset r bs" using assms(2) by (meson multi_member_split)
  have "owned s = owned (s\<lparr>ms_blocked := bs\<rparr>) + mset (request_places r)"
    using owned_simps(1) [where s = s and r = r and bs = bs] by (simp flip: bs)
  with assms(1) show ?thesis by (simp add: mem_holds_def bs)
qed

text \<open>\<^verbatim>\<open>defer_request\<close> never reads a dangling view, and what it puts in the queue reads like the original.\<close>

lemma mem_defer_request_holds:
  assumes "mem_holds (mset (request_places r)) s"
  obtains s' where "mem_defer_request sso growth r s = Some s'" "mem_ok s'"
    "startup_of s' = defer_request (the (read_request (ms_mem s) r)) (startup_of s)"
proof (cases "ms_ready s")
  case True
  with that [of "mem_call_handler r s"] mem_call_handler_holds [OF assms] show thesis
    by (simp add: mem_defer_request_def defer_request_def startup_of_def)
next
  case False
  have free: "mem_holds ({#} + mset (request_places r)) s" using assms by simp
  have "mem_fine (ms_mem s)" using assms by (simp add: mem_holds_def)
  from DeferredRequest_ctor_adds [OF this holds_free(3) [OF free]]
  obtain d mem' ss where d: "DeferredRequest_ctor sso growth r (ms_mem s) = Some (d, mem')"
    "adds_texts (ms_mem s) (request_places (dr_message d)) ss mem'" "vec_elems (dr_data d) = request_places (dr_message d)"
    "read_request mem' (dr_message d) = read_request (ms_mem s) r" by metis
  let ?s1 = "s\<lparr>ms_mem := mem'\<rparr>" and ?mem = "free_places (request_places r) mem'"
  let ?s2 = "s\<lparr>ms_mem := mem', ms_deferred := ms_deferred s @ [d]\<rparr>"
  note added = holds_adds [OF assms d(2)]
  have s2: "mem_holds ({#} + mset (request_places r)) ?s2"
    using added(1) d(3) by (auto simp: mem_holds_def ac_simps owned_def)
  from holds_free(1,2) [OF s2]
  have "mem_ok (?s2\<lparr>ms_mem := ?mem\<rparr>)" "startup_of (?s2\<lparr>ms_mem := ?mem\<rparr>) = startup_of ?s2" by simp_all
  moreover have "startup_of ?s2 = (startup_of ?s1)\<lparr>deferred := deferred (startup_of ?s1) @ [the (read_request (ms_mem s) r)]\<rparr>"
    using d(4) by (simp add: startup_of_def)
  ultimately show thesis
    using that [of "?s2\<lparr>ms_mem := ?mem\<rparr>"] d(1) False added(2)
    by (simp add: mem_defer_request_def defer_request_def startup_of_def)
qed

lemma mem_drain_holds:
  assumes "mem_ok s" "ms_draining s"
  shows "mem_ok (mem_drain s)" "startup_of (mem_drain s) = drain_deferred (startup_of s)"
proof -
  have "mem_ok (mem_drain s) \<and> startup_of (mem_drain s) = drain_deferred (startup_of s)"
  proof (cases "ms_deferred s")
    case Nil
    with assms(1) show ?thesis by (simp add: mem_drain_def mem_holds_def drain_deferred_def startup_of_def)
  next
    case (Cons d ds)
    let ?ps = "vec_elems (dr_data d)" and ?s1 = "s\<lparr>ms_deferred := ds\<rparr>"
    have s1: "mem_holds ({#} + mset ?ps) ?s1" and ps: "request_places (dr_message d) = ?ps" and ready: "ms_ready s"
      using assms Cons by (auto simp: mem_holds_def owned_def ac_simps)
    from holds_free(3) [OF s1] ps obtain m where m: "read_request (ms_mem s) (dr_message d) = Some m"
      using read_request_live [of "dr_message d" "ms_mem s"] by auto
    have "mem_ok (?s1\<lparr>ms_mem := free_places ?ps (ms_mem s)\<rparr>)" "startup_of (?s1\<lparr>ms_mem := free_places ?ps (ms_mem s)\<rparr>) = startup_of ?s1"
      using holds_free(1,2) [OF s1] by simp_all
    with m ready Cons show ?thesis
      by (auto simp: mem_drain_def mem_holds_def owned_def startup_of_def startup_defs)
  qed
  then show "mem_ok (mem_drain s)" "startup_of (mem_drain s) = drain_deferred (startup_of s)" by simp_all
qed

lemma mem_step_refines:
  assumes "mem_step sso growth s s'" "mem_ok s"
  shows "mem_ok s' \<and> startup_step (startup_of s) (startup_of s')"
  using assms
proof (induction rule: mem_step.induct)
  case (m_arrive m s r mem')
  have "mem_fine (ms_mem s)" using m_arrive.prems by (simp add: mem_holds_def)
  from receive_adds [OF m_arrive.hyps this] obtain ss where
    adds: "adds_texts (ms_mem s) (request_places r) ss mem'" and read: "read_request mem' r = Some m" by blast
  let ?s = "s\<lparr>ms_mem := mem', ms_arrived := ms_arrived s @ [m]\<rparr>"
  have holds: "mem_holds (mset (request_places r)) ?s"
    using holds_adds(1) [OF m_arrive.prems adds] by (simp add: mem_holds_def)
  have "startup_of ?s = (startup_of s)\<lparr>arrived := arrived (startup_of s) @ [m]\<rparr>"
    using holds_adds(2) [OF m_arrive.prems adds] by (simp add: startup_of_def)
  with mem_call_handler_holds [OF holds] read startup_step.arrive [of "startup_of s" m] show ?case by simp
next
  case (m_lock r s s')
  let ?s = "s\<lparr>ms_blocked := ms_blocked s - {#r#}\<rparr>" and ?m = "the (read_request (ms_mem s) r)"
  obtain t where t: "mem_defer_request sso growth r ?s = Some t" "mem_ok t"
    "startup_of t = defer_request (the (read_request (ms_mem ?s) r)) (startup_of ?s)"
    using mem_defer_request_holds [OF mem_holds_blocked [OF m_lock.prems m_lock.hyps(1)]] by metis
  have "startup_of ?s = (startup_of s)\<lparr>blocked := blocked (startup_of s) - {#?m#}\<rparr>"
    using m_lock.hyps(1) by (simp add: startup_of_def image_mset_Diff)
  moreover have "?m \<in># blocked (startup_of s)" using m_lock.hyps(1) by (simp add: startup_of_def)
  ultimately show ?case using startup_step.lock [of ?m "startup_of s"] t m_lock.hyps(2) by simp
next
  case (m_flip s)
  then have "startup_of (s\<lparr>ms_ready := True, ms_draining := True\<rparr>) = set_ready (startup_of s)" "\<not> is_ready (startup_of s)"
    by (simp_all add: startup_of_def set_ready_def)
  with m_flip startup_step.flip [of "startup_of s"] show ?case by (simp add: mem_holds_def)
next
  case (m_drain s)
  with mem_drain_holds [OF m_drain.prems m_drain.hyps] startup_step.drain [of "startup_of s"] show ?case
    by (simp add: startup_of_def)
qed

interpretation deferred_memory: simulation mem_init "mem_step sso growth" mem_ok startup_init startup_step startup_of
  for sso growth
proof
  show "mem_init s \<Longrightarrow> mem_ok s" for s by (simp add: mem_init_def mem_holds_def mem_fine_def owned_def)
  show "mem_init s \<Longrightarrow> startup_init (startup_of s)" for s by (simp add: mem_init_def startup_init_def startup_of_def)
qed (use mem_step_refines in blast)+

lemma reads_live:
  assumes "mem_ok s"
  shows "r \<in># ms_blocked s \<Longrightarrow> \<exists>m. read_request (ms_mem s) r = Some m"
    "d \<in> set (ms_deferred s) \<Longrightarrow> \<exists>m. read_request (ms_mem s) (dr_message d) = Some m"
proof -
  note live = holds_live [OF assms]
  have "set (request_places r) \<subseteq> set_mset (owned s)" if "r \<in># ms_blocked s" for r
    using that by (auto simp: owned_def)
  with live show "r \<in># ms_blocked s \<Longrightarrow> \<exists>m. read_request (ms_mem s) r = Some m"
    by (meson read_request_live subset_trans)
  have "set (request_places (dr_message d)) \<subseteq> set_mset (owned s)" if "d \<in> set (ms_deferred s)" for d
    using that assms by (auto simp: owned_def mem_holds_def)
  with live show "d \<in> set (ms_deferred s) \<Longrightarrow> \<exists>m. read_request (ms_mem s) (dr_message d) = Some m"
    by (meson read_request_live subset_trans)
qed

text \<open>
  C14. Requests that arrive during start-up keep their text although the memory they came in is
  released: whichever way threads interleave, whatever size of strings the library keeps
  inside the string object and however its vectors grow, copying a request never reads a freed
  part, every handler reads an intact request, the requests read, waiting and deferred are together those that
  arrived, text by text, and once none is waiting or deferred all memory has been released.
\<close>

theorem deferred_requests_intact:
  assumes "reach mem_init (mem_step sso growth) s"
  shows "(\<forall>r \<in># ms_blocked s. mem_defer_request sso growth r (s\<lparr>ms_blocked := ms_blocked s - {#r#}\<rparr>) \<noteq> None) \<and>
    None \<notin> set (ms_handled s) \<and>
    mset (map Some (ms_arrived s)) = mset (ms_handled s) + image_mset (read_request (ms_mem s)) (ms_blocked s) +
      mset (map (\<lambda>d. read_request (ms_mem s) (dr_message d)) (ms_deferred s)) \<and>
    (ms_blocked s = {#} \<and> ms_deferred s = [] \<longrightarrow> dom (chars (ms_mem s)) = {})"
proof (intro conjI ballI)
  have ok: "mem_ok s" using assms by (rule deferred_memory.conc.reach_invar)
  show "mem_defer_request sso growth r (s\<lparr>ms_blocked := ms_blocked s - {#r#}\<rparr>) \<noteq> None" if "r \<in># ms_blocked s" for r
    using mem_defer_request_holds [OF mem_holds_blocked [OF ok that], of sso growth] by auto
  show handled: "None \<notin> set (ms_handled s)" using ok by (simp add: mem_holds_def)
  show "ms_blocked s = {#} \<and> ms_deferred s = [] \<longrightarrow> dom (chars (ms_mem s)) = {}"
    using ok by (auto simp: mem_holds_def owned_def mem_fine_def mset_set_empty_iff)
  have "startup_ok (startup_of s)"
    using deferred_memory.abs_reach [OF assms] by (rule startup.reach_invar)
  then have "mset (ms_arrived s) = mset (map the (ms_handled s)) + image_mset (\<lambda>r. the (read_request (ms_mem s) r)) (ms_blocked s) +
      mset (map (\<lambda>d. the (read_request (ms_mem s) (dr_message d))) (ms_deferred s))"
    by (simp add: startup_ok_def startup_of_def)
  from arg_cong [OF this, of "image_mset Some"]
  have "mset (map Some (ms_arrived s)) = mset (map Some (map the (ms_handled s))) +
      image_mset (\<lambda>r. Some (the (read_request (ms_mem s) r))) (ms_blocked s) +
      mset (map (\<lambda>d. Some (the (read_request (ms_mem s) (dr_message d)))) (ms_deferred s))"
    by (simp add: image_mset.compositionality comp_def)
  moreover have "map Some (map the (ms_handled s)) = ms_handled s"
    unfolding map_map by (rule map_idI) (use handled in \<open>metis comp_apply option.collapse\<close>)
  moreover have "image_mset (\<lambda>r. Some (the (read_request (ms_mem s) r))) (ms_blocked s) = image_mset (read_request (ms_mem s)) (ms_blocked s)"
    using reads_live(1) [OF ok] by (intro image_mset_cong) fastforce
  moreover have "map (\<lambda>d. Some (the (read_request (ms_mem s) (dr_message d)))) (ms_deferred s) = map (\<lambda>d. read_request (ms_mem s) (dr_message d)) (ms_deferred s)"
    using reads_live(2) [OF ok] by (intro map_cong) fastforce+
  ultimately show "mset (map Some (ms_arrived s)) = mset (ms_handled s) + image_mset (read_request (ms_mem s)) (ms_blocked s) +
      mset (map (\<lambda>d. read_request (ms_mem s) (dr_message d)) (ms_deferred s))" by (simp only:)
qed

section \<open>Witness\<close>

definition sample_growth :: "nat \<Rightarrow> nat" where "sample_growth c = max 1 (2 * c)"

theorem deferred_requests_intact_witness:
  "\<exists>s. reach mem_init (mem_step 15 sample_growth) s \<and> ms_handled s = [Some (omq_message [''{}'', ''a part of more than fifteen characters''])] \<and>
     mset (map Some (ms_arrived s)) = mset (ms_handled s) \<and> dom (chars (ms_mem s)) = {}"
proof -
  let ?m = "omq_message [''{}'', ''a part of more than fifteen characters'']" and ?r = "Omq_request [In_part 1, In_part 2]"
  obtain s0 where s0: "mem_init s0" by (simp add: mem_init_def)
  then have r0: "reach mem_init (mem_step 15 sample_growth) s0" by (rule reach.reach_init)
  obtain mem1 where mem1: "receive ?m (ms_mem s0) = (?r, mem1)" using s0 by (simp add: mem_init_def)
  let ?s1 = "mem_call_handler ?r (s0\<lparr>ms_mem := mem1, ms_arrived := ms_arrived s0 @ [?m]\<rparr>)"
  have "mem_step 15 sample_growth s0 ?s1" using mem1 by (rule mem_step.m_arrive)
  with r0 have r1: "reach mem_init (mem_step 15 sample_growth) ?s1" by (rule reach.reach_step)
  have b1: "?r \<in># ms_blocked ?s1" using s0 by (simp add: mem_call_handler_def mem_init_def)
  from deferred_requests_intact [OF r1] b1 obtain s2
    where s2: "mem_defer_request 15 sample_growth ?r (?s1\<lparr>ms_blocked := ms_blocked ?s1 - {#?r#}\<rparr>) = Some s2" by blast
  have "mem_step 15 sample_growth ?s1 s2" using b1 s2 by (rule mem_step.m_lock)
  with r1 have r2: "reach mem_init (mem_step 15 sample_growth) s2" by (rule reach.reach_step)
  obtain d where d: "ms_deferred s2 = [d]" "ms_handled s2 = []" "ms_blocked s2 = {#}" "ms_arrived s2 = [?m]" "\<not> ms_ready s2"
    using s2 s0 by (auto simp: mem_defer_request_def mem_call_handler_def mem_init_def)
  let ?s3 = "s2\<lparr>ms_ready := True, ms_draining := True\<rparr>"
  have "mem_step 15 sample_growth s2 ?s3" using d(5) by (rule mem_step.m_flip)
  with r2 have r3: "reach mem_init (mem_step 15 sample_growth) ?s3" by (rule reach.reach_step)
  have "mem_step 15 sample_growth ?s3 (mem_drain ?s3)" by (rule mem_step.m_drain) simp
  with r3 have r4: "reach mem_init (mem_step 15 sample_growth) (mem_drain ?s3)" by (rule reach.reach_step)
  have s4: "ms_deferred (mem_drain ?s3) = []" "ms_blocked (mem_drain ?s3) = {#}" "ms_arrived (mem_drain ?s3) = [?m]"
    "length (ms_handled (mem_drain ?s3)) = 1"
    using d by (simp_all add: mem_drain_def)
  from deferred_requests_intact [OF r4] s4(1-3)
  have "mset [Some ?m] = mset (ms_handled (mem_drain ?s3))" "dom (chars (ms_mem (mem_drain ?s3))) = {}" by simp_all
  moreover from this(1) have "ms_handled (mem_drain ?s3) = [Some ?m]" by (metis mset_single_iff_right)
  ultimately show ?thesis using r4 s4(3) by (intro exI [of _ "mem_drain ?s3"]) simp
qed

end
