(* ===== verification/Bindings.thy ===== *)
theory Bindings
  imports Commands
begin

text \<open>
  The Python bindings (\<^verbatim>\<open>spns/pybind.cpp\<close>) and the stand-alone program (\<^verbatim>\<open>spns/main.cpp\<close>): conversion of
  values between Python and C++, the configuration object with its attributes, the controller of the
  server, the exported error codes, and the program from its arguments to its exit code.
\<close>

section \<open>Type casters\<close>

datatype pyobj = PyBytes bytes | PyStr string | PyInt int | PyNone | PyList "pyobj list" | PySet "pyobj list" | PyOther

text \<open>\<^verbatim>\<open>load\<close> yields nothing where the caster answers false; \<open>n\<close> is the \<^verbatim>\<open>SIZE\<close> of the fixed-size type.\<close>

definition bytes_load :: "nat \<Rightarrow> pyobj \<Rightarrow> bytes option" where
  "bytes_load n src =
     (case src of PyBytes sv \<Rightarrow> if length sv = n then Some sv else None | _ \<Rightarrow> None)"

definition bytes_cast :: "bytes \<Rightarrow> pyobj" where
  "bytes_cast src = PyBytes src"

text \<open>The parser of the QUIC library is a parameter; what it throws, the caster throws.\<close>

definition address_load :: "(string \<Rightarrow> Address result) \<Rightarrow> pyobj \<Rightarrow> Address option result" where
  "address_load parse src =
     (case src of
        PyStr s \<Rightarrow> bind_r (parse s) (\<lambda>value.
          Inr (Some (if is_ipv6 value \<and> is_any_addr value then value\<lparr>dual_stack := True\<rparr> else value)))
      | _ \<Rightarrow> Inr None)"

definition address_cast :: "Address \<Rightarrow> pyobj" where
  "address_cast src =
     PyStr ((if is_ipv6 src then ''['' else []) @ addr_host src @ (if is_ipv6 src then '']'' else []) @ '':'' @
            to_chars (int (addr_port src)))"

section \<open>Properties of the configuration\<close>

text \<open>Python sees the filter's lifetime in seconds and the wait for notifiers in milliseconds.\<close>

definition nanos_per_milli :: int where "nanos_per_milli = 1000000"

definition get_filter_lifetime :: "Config \<Rightarrow> int" where
  "get_filter_lifetime self = filter_lifetime self"

definition set_filter_lifetime :: "int \<Rightarrow> Config \<Rightarrow> Config" where
  "set_filter_lifetime seconds self = self\<lparr>filter_lifetime := 1 * seconds\<rparr>"

definition get_notifier_wait :: "Config \<Rightarrow> int" where
  "get_notifier_wait self = trunc_div (notifier_wait self) nanos_per_milli"

definition set_notifier_wait :: "int \<Rightarrow> Config \<Rightarrow> Config" where
  "set_notifier_wait milliseconds self = self\<lparr>notifier_wait := nanos_per_milli * milliseconds\<rparr>"

text \<open>The enumeration exported to Python.\<close>

definition py_SUBSCRIBE :: "(string \<times> int) list" where
  "py_SUBSCRIBE =
     [(''OK'', numeric_code OK), (''BAD_INPUT'', numeric_code BAD_INPUT),
      (''SERVICE_NOT_AVAILABLE'', numeric_code SERVICE_NOT_AVAILABLE), (''SERVICE_TIMEOUT'', numeric_code SERVICE_TIMEOUT),
      (''ERROR'', numeric_code ERROR), (''INTERNAL_ERROR'', numeric_code INTERNAL_ERROR)]"

section \<open>The configuration as a Python object\<close>

text \<open>
  The casters of pybind11 for strings, integers of a given range, sequences and sets are parameters;
  what they do with the plain Python value of the type is documented. A caster may accept more, such
  as a byte string for a string.
\<close>

record py_lib =
  py_str :: "pyobj \<Rightarrow> string option"
  py_int :: "(int \<Rightarrow> bool) \<Rightarrow> pyobj \<Rightarrow> int option"
  py_seq :: "pyobj \<Rightarrow> pyobj list option"
  py_set :: "pyobj \<Rightarrow> pyobj list option"

definition py_documented :: "py_lib \<Rightarrow> bool" where
  "py_documented P \<longleftrightarrow>
     (\<forall>s. py_str P (PyStr s) = Some s) \<and> (\<forall>ok i. ok i \<longrightarrow> py_int P ok (PyInt i) = Some i) \<and>
     (\<forall>ok v i. py_int P ok v = Some i \<longrightarrow> ok i) \<and> (\<forall>l. py_seq P (PyList l) = Some l) \<and> (\<forall>l. py_set P (PySet l) = Some l)"

definition is_int32 :: "int \<Rightarrow> bool" where
  "is_int32 i \<longleftrightarrow> - (2 ^ 31) \<le> i \<and> i < 2 ^ 31"

definition optional_load :: "(pyobj \<Rightarrow> 'a option) \<Rightarrow> pyobj \<Rightarrow> 'a option option" where
  "optional_load f src = (if src = PyNone then Some None else map_option Some (f src))"

definition optional_cast :: "('a \<Rightarrow> pyobj) \<Rightarrow> 'a option \<Rightarrow> pyobj" where
  "optional_cast f v = (case v of None \<Rightarrow> PyNone | Some x \<Rightarrow> f x)"

text \<open>Containers load element by element and give up at the first element that does not; what an element throws is thrown.\<close>

fun load_all :: "(pyobj \<Rightarrow> 'a option result) \<Rightarrow> pyobj list \<Rightarrow> 'a list option result" where
  "load_all f [] = Inr (Some [])"
| "load_all f (v # vs) =
     bind_r (f v) (\<lambda>x. case x of
       None \<Rightarrow> Inr None
     | Some a \<Rightarrow> bind_r (load_all f vs) (\<lambda>l. Inr (map_option ((#) a) l)))"

definition container_load :: "(pyobj \<Rightarrow> pyobj list option) \<Rightarrow> (pyobj \<Rightarrow> 'a option result) \<Rightarrow> pyobj \<Rightarrow> 'a list option result" where
  "container_load elems f src = (case elems src of None \<Rightarrow> Inr None | Some vs \<Rightarrow> load_all f vs)"

text \<open>The attributes of the class \<^verbatim>\<open>Config\<close>, and what an assignment can come to.\<close>

datatype config_attr =
    A_oxend_rpc | A_pg_connect | A_hivemind_sock | A_hivemind_curve | A_hivemind_curve_admin | A_omq_pubkey | A_omq_privkey
  | A_quic_keys | A_quic_listen | A_filter_lifetime | A_notifier_wait | A_notifiers_expected | A_max_pending_connects

datatype assignment = Assigned Config | TypeError | Thrown exn

definition assign :: "'a option result \<Rightarrow> ('a \<Rightarrow> Config) \<Rightarrow> assignment" where
  "assign v upd = (case v of Inl e \<Rightarrow> Thrown e | Inr None \<Rightarrow> TypeError | Inr (Some x) \<Rightarrow> Assigned (upd x))"

text \<open>The parsers of the OxenMQ and QUIC addresses are parameters; \<^verbatim>\<open>full_address\<close> is the text kept in the model.\<close>

fun set_attr :: "py_lib \<Rightarrow> (string \<Rightarrow> string result) \<Rightarrow> (string \<Rightarrow> Address result) \<Rightarrow> config_attr \<Rightarrow> pyobj \<Rightarrow> Config \<Rightarrow> assignment" where
  "set_attr P omq_address parse A_oxend_rpc v self =
     assign (case py_str P v of None \<Rightarrow> Inr None | Some s \<Rightarrow> bind_r (omq_address s) (Inr \<circ> Some)) (\<lambda>a. self\<lparr>oxend_rpc := a\<rparr>)"
| "set_attr P omq_address parse A_pg_connect v self = assign (Inr (py_str P v)) (\<lambda>s. self\<lparr>pg_connect := s\<rparr>)"
| "set_attr P omq_address parse A_hivemind_sock v self = assign (Inr (py_str P v)) (\<lambda>s. self\<lparr>hivemind_sock := s\<rparr>)"
| "set_attr P omq_address parse A_hivemind_curve v self =
     assign (Inr (optional_load (py_str P) v)) (\<lambda>s. self\<lparr>hivemind_curve := s\<rparr>)"
| "set_attr P omq_address parse A_hivemind_curve_admin v self =
     assign (container_load (py_set P) (\<lambda>x. Inr (bytes_load X25519PK_SIZE x)) v) (\<lambda>l. self\<lparr>hivemind_curve_admin := remdups l\<rparr>)"
| "set_attr P omq_address parse A_omq_pubkey v self =
     assign (Inr (bytes_load X25519PK_SIZE v)) (\<lambda>b. self\<lparr>omq_pubkey := b\<rparr>)"
| "set_attr P omq_address parse A_omq_privkey v self =
     assign (Inr (bytes_load X25519SK_SIZE v)) (\<lambda>b. self\<lparr>omq_privkey := b\<rparr>)"
| "set_attr P omq_address parse A_quic_keys v self =
     assign (Inr (optional_load (bytes_load Ed25519Secret_SIZE) v)) (\<lambda>b. self\<lparr>quic_keys := b\<rparr>)"
| "set_attr P omq_address parse A_quic_listen v self =
     assign (container_load (py_seq P) (address_load parse) v) (\<lambda>l. self\<lparr>quic_listen := l\<rparr>)"
| "set_attr P omq_address parse A_filter_lifetime v self =
     assign (Inr (py_int P is_int64 v)) (\<lambda>i. set_filter_lifetime i self)"
| "set_attr P omq_address parse A_notifier_wait v self =
     assign (Inr (py_int P is_int64 v)) (\<lambda>i. set_notifier_wait i self)"
| "set_attr P omq_address parse A_notifiers_expected v self =
     assign (container_load (py_set P) (\<lambda>x. Inr (py_str P x)) v) (\<lambda>l. self\<lparr>notifiers_expected := remdups l\<rparr>)"
| "set_attr P omq_address parse A_max_pending_connects v self =
     assign (Inr (py_int P is_int32 v)) (\<lambda>i. self\<lparr>conf_max_pending_connects := i\<rparr>)"

fun get_attr :: "config_attr \<Rightarrow> Config \<Rightarrow> pyobj" where
  "get_attr A_oxend_rpc self = PyStr (oxend_rpc self)"
| "get_attr A_pg_connect self = PyStr (pg_connect self)"
| "get_attr A_hivemind_sock self = PyStr (hivemind_sock self)"
| "get_attr A_hivemind_curve self = optional_cast PyStr (hivemind_curve self)"
| "get_attr A_hivemind_curve_admin self = PySet (map bytes_cast (hivemind_curve_admin self))"
| "get_attr A_omq_pubkey self = bytes_cast (omq_pubkey self)"
| "get_attr A_omq_privkey self = bytes_cast (omq_privkey self)"
| "get_attr A_quic_keys self = optional_cast bytes_cast (quic_keys self)"
| "get_attr A_quic_listen self = PyList (map address_cast (quic_listen self))"
| "get_attr A_filter_lifetime self = PyInt (get_filter_lifetime self)"
| "get_attr A_notifier_wait self = PyInt (get_notifier_wait self)"
| "get_attr A_notifiers_expected self = PySet (map PyStr (notifiers_expected self))"
| "get_attr A_max_pending_connects self = PyInt (conf_max_pending_connects self)"

text \<open>
  The wrapper around the server object: it holds the server its constructor started, and \<^verbatim>\<open>stop\<close> runs
  the destructor of the one it holds, if any. The second component is what was destroyed.
\<close>

definition HiveMindController_ctor :: "(Config \<Rightarrow> 'h result option) \<Rightarrow> Config \<Rightarrow> 'h option result option" where
  "HiveMindController_ctor start conf = map_option (map_sum id Some) (start conf)"

definition controller_stop :: "('h \<Rightarrow> 'h) \<Rightarrow> 'h option \<Rightarrow> 'h option \<times> 'h option" where
  "controller_stop dtor hivemind = (None, map_option dtor hivemind)"

section \<open>The program\<close>

text \<open>
  What loading the configuration through the Python interpreter comes to: a configuration, an
  error of the Python code, an interpreter that cannot be started, any other exception.
\<close>

datatype config_load = Loaded Config | Python_error string | Interpreter_failed | Load_exception string

datatype program_exit = Exit_code int | Uncaught exn

definition usage :: "program_exit" where "usage = Exit_code 1"

text \<open>
  The Python error is thrown again as a \<^verbatim>\<open>runtime_error\<close> and caught like any other exception. \<open>start\<close> is the
  constructor of \<^verbatim>\<open>HiveMind\<close>, which nothing here guards (\<open>None\<close>: it does not return); afterwards the
  program waits for a signal and ends.
\<close>

definition main_program ::
  "(string \<Rightarrow> config_load) \<Rightarrow> (Config \<Rightarrow> 'h result option) \<Rightarrow> string list \<Rightarrow> program_exit option" where
  "main_program load_config start argv =
     (if length argv \<noteq> 2 \<or> argv ! 1 = ''-h'' \<or> argv ! 1 = ''--help'' then Some usage
      else (case load_config (argv ! 1) of
              Interpreter_failed \<Rightarrow> Some (Exit_code 2)
            | Python_error _ \<Rightarrow> Some (Exit_code 1)
            | Load_exception _ \<Rightarrow> Some (Exit_code 1)
            | Loaded conf \<Rightarrow> map_option (case_sum Uncaught (\<lambda>_. Exit_code 0)) (start conf)))"

section \<open>Correctness\<close>

lemma bytes_load_Some: "bytes_load n src = Some v \<longleftrightarrow> src = PyBytes v \<and> length v = n"
  by (auto simp: bytes_load_def split: pyobj.splits)

lemma notifier_wait_round_trip: "get_notifier_wait (set_notifier_wait ms c) = ms"
  by (cases ms "0 :: int" rule: linorder_cases)
    (simp_all add: get_notifier_wait_def set_notifier_wait_def trunc_div_def nanos_per_milli_def sgn_mult abs_mult)

text \<open>
  The text of an address determines it up to the flag for both protocols: what the parser makes
  of the text \<open>address_cast\<close> writes is that address.
\<close>

definition address_text_documented :: "(string \<Rightarrow> Address result) \<Rightarrow> Address \<Rightarrow> bool" where
  "address_text_documented parse a \<longleftrightarrow> (\<exists>s. address_cast a = PyStr s \<and> parse s = Inr (a\<lparr>dual_stack := False\<rparr>))"

text \<open>
  Values survive the way to Python and back: a fixed-size value exactly, and loading accepts
  nothing but byte strings of that very size; the two durations exactly; an address exactly but for
  the flag for both protocols, which is set for the IPv6 any-address and for it only.
\<close>

theorem python_round_trips:
  "(bytes_load n (bytes_cast v) = (if length v = n then Some v else None)) \<and>
   (bytes_load n src \<noteq> None \<longleftrightarrow> (\<exists>b. src = bytes_cast b \<and> length b = n)) \<and>
   get_filter_lifetime (set_filter_lifetime secs c) = secs \<and> get_notifier_wait (set_notifier_wait ms c) = ms \<and>
   (address_text_documented parse a \<longrightarrow> address_load parse (address_cast a) = Inr (Some (a\<lparr>dual_stack := is_ipv6 a \<and> is_any_addr a\<rparr>)))"
  by (auto simp: bytes_load_def bytes_cast_def get_filter_lifetime_def set_filter_lifetime_def notifier_wait_round_trip
      address_text_documented_def address_load_def split: pyobj.splits)

text \<open>An address that came from Python can make outbound connections unless it is a particular IPv6 one.\<close>

lemma loaded_address_outbound:
  "address_load parse src = Inr (Some a) \<Longrightarrow> outbound_capable a \<longleftrightarrow> is_ipv4 a \<or> is_ipv6 a \<and> is_any_addr a"
  by (auto simp: address_load_def outbound_capable_def result_simps split: pyobj.splits if_splits)
    (drule arg_cong [of _ _ dual_stack], simp)

section \<open>The configuration object\<close>

text \<open>What the C++ types of the members say.\<close>

definition config_typed :: "Config \<Rightarrow> bool" where
  "config_typed c \<longleftrightarrow>
     length (omq_pubkey c) = X25519PK_SIZE \<and> length (omq_privkey c) = X25519SK_SIZE \<and>
     pred_option (\<lambda>b. length b = Ed25519Secret_SIZE) (quic_keys c) \<and>
     list_all (\<lambda>b. length b = X25519PK_SIZE) (hivemind_curve_admin c) \<and> distinct (hivemind_curve_admin c) \<and>
     distinct (notifiers_expected c) \<and> is_int64 (filter_lifetime c) \<and> is_int64 (get_notifier_wait c) \<and>
     is_int32 (conf_max_pending_connects c)"

lemma assign_Assigned [simp]: "assign v upd = Assigned c \<longleftrightarrow> (\<exists>x. v = Inr (Some x) \<and> c = upd x)"
  by (auto simp: assign_def split: sum.splits option.splits)

lemma load_all_Some:
  "load_all f vs = Inr (Some l) \<longleftrightarrow> list_all2 (\<lambda>v x. f v = Inr (Some x)) vs l"
proof (induction vs arbitrary: l)
  case (Cons v vs)
  then show ?case by (cases l) (auto simp: result_simps split: option.splits)
qed auto

lemma load_all_cast:
  assumes "\<And>x. x \<in> set l \<Longrightarrow> f (g x) = Inr (Some (h x))"
  shows "load_all f (map g l) = Inr (Some (map h l))"
  using assms by (auto simp: load_all_Some list_all2_conv_all_nth)

lemma container_load_cast:
  assumes "elems src = Some (map g l)" "\<And>x. x \<in> set l \<Longrightarrow> f (g x) = Inr (Some (h x))"
  shows "container_load elems f src = Inr (Some (map h l))"
  using assms load_all_cast [of l f g h] by (simp add: container_load_def)

lemma container_load_Some: "container_load elems f src = Inr (Some l) \<Longrightarrow> \<exists>vs. list_all2 (\<lambda>v x. f v = Inr (Some x)) vs l"
  by (auto simp: container_load_def load_all_Some split: option.splits)

lemma bytes_load_cast: "length b = n \<Longrightarrow> bytes_load n (bytes_cast b) = Some b"
  by (simp add: bytes_load_def bytes_cast_def)

lemma py_int_range: "py_documented P \<Longrightarrow> py_int P ok v = Some i \<Longrightarrow> ok i"
  unfolding py_documented_def by blast

text \<open>No assignment from Python breaks the types.\<close>

lemma set_attr_typed:
  assumes "py_documented P" "config_typed self" "set_attr P omq_address parse a v self = Assigned self'"
  shows "config_typed self'"
proof (cases a)
  case A_hivemind_curve_admin
  then obtain l vs where "self' = self\<lparr>hivemind_curve_admin := remdups l\<rparr>" "list_all2 (\<lambda>v x. bytes_load X25519PK_SIZE v = Some x) vs l"
    using assms(3) by (auto dest!: container_load_Some)
  moreover from this(2) have "list_all (\<lambda>b. length b = X25519PK_SIZE) l"
    by induction (simp_all add: bytes_load_Some)
  ultimately show ?thesis using assms(2) by (auto simp: config_typed_def get_notifier_wait_def list_all_iff)
next
  case A_quic_keys
  then show ?thesis using assms(2,3)
    by (auto simp: config_typed_def get_notifier_wait_def optional_load_def bytes_load_Some split: if_splits)
next
  case A_notifier_wait
  then obtain i where "py_int P is_int64 v = Some i" "self' = set_notifier_wait i self" using assms(3) by auto
  moreover from this(1) have "is_int64 i" by (rule py_int_range [OF assms(1)])
  ultimately show ?thesis using assms(2) by (simp add: config_typed_def notifier_wait_round_trip) (simp add: set_notifier_wait_def)
next
  case A_notifiers_expected
  then show ?thesis using assms(2,3) by (auto simp: config_typed_def get_notifier_wait_def)
qed (use assms(2,3) py_int_range [OF assms(1)] in
  \<open>auto simp: config_typed_def get_notifier_wait_def set_filter_lifetime_def bytes_load_Some\<close>)

text \<open>An assignment concerns one attribute.\<close>

lemma set_attr_frame:
  assumes "set_attr P omq_address parse a v self = Assigned self'" "b \<noteq> a"
  shows "get_attr b self' = get_attr b self"
  using assms
  by (cases a; cases b) (auto simp: get_notifier_wait_def get_filter_lifetime_def set_notifier_wait_def set_filter_lifetime_def)

text \<open>A configuration whose texts the libraries read back.\<close>

definition config_readable :: "(string \<Rightarrow> string result) \<Rightarrow> (string \<Rightarrow> Address result) \<Rightarrow> Config \<Rightarrow> bool" where
  "config_readable omq_address parse c \<longleftrightarrow>
     omq_address (oxend_rpc c) = Inr (oxend_rpc c) \<and> list_all (address_text_documented parse) (quic_listen c)"

lemma get_then_set:
  assumes P: "py_documented P" and typed: "config_typed c" and readable: "config_readable omq_address parse c"
  shows "\<exists>self'. set_attr P omq_address parse a (get_attr a c) self = Assigned self' \<and> get_attr a self' = get_attr a c"
proof -
  have str: "py_str P (PyStr s) = Some s" and int: "ok i \<Longrightarrow> py_int P ok (PyInt i) = Some i"
    and seq: "py_seq P (PyList l) = Some l" and set: "py_set P (PySet l) = Some l" for s ok i l
    using P unfolding py_documented_def by blast+
  show ?thesis
  proof (cases a)
    case A_hivemind_curve
    then show ?thesis by (cases "hivemind_curve c") (simp_all add: optional_cast_def optional_load_def str)
  next
    case A_hivemind_curve_admin
    have "container_load (py_set P) (\<lambda>x. Inr (bytes_load X25519PK_SIZE x)) (PySet (map bytes_cast (hivemind_curve_admin c))) =
        Inr (Some (map id (hivemind_curve_admin c)))"
      using typed by (intro container_load_cast) (auto simp: set config_typed_def list_all_iff bytes_load_cast)
    with A_hivemind_curve_admin typed show ?thesis by (simp add: config_typed_def distinct_remdups_id)
  next
    case A_quic_keys
    then show ?thesis using typed
      by (cases "quic_keys c") (simp_all add: optional_cast_def optional_load_def config_typed_def bytes_load_def bytes_cast_def)
  next
    case A_quic_listen
    let ?h = "\<lambda>x. x\<lparr>dual_stack := is_ipv6 x \<and> is_any_addr x\<rparr>"
    have "container_load (py_seq P) (address_load parse) (PyList (map address_cast (quic_listen c))) = Inr (Some (map ?h (quic_listen c)))"
      using readable
      by (intro container_load_cast)
        (auto simp: seq config_readable_def list_all_iff address_text_documented_def address_load_def)
    moreover have "address_cast (?h x) = address_cast x" for x :: Address by (simp add: address_cast_def)
    ultimately show ?thesis by (simp add: A_quic_listen)
  next
    case A_notifiers_expected
    have "container_load (py_set P) (\<lambda>x. Inr (py_str P x)) (PySet (map PyStr (notifiers_expected c))) = Inr (Some (map id (notifiers_expected c)))"
      by (intro container_load_cast [where g = PyStr]) (simp_all add: set str)
    with A_notifiers_expected typed show ?thesis by (simp add: config_typed_def distinct_remdups_id)
  qed (use typed readable in \<open>simp_all add: str int config_typed_def config_readable_def bytes_load_cast notifier_wait_round_trip
      get_filter_lifetime_def set_filter_lifetime_def\<close>)
qed

text \<open>A script of assignments, which ends at the first error.\<close>

fun run_assignments ::
  "py_lib \<Rightarrow> (string \<Rightarrow> string result) \<Rightarrow> (string \<Rightarrow> Address result) \<Rightarrow> (config_attr \<times> pyobj) list \<Rightarrow> Config \<Rightarrow> assignment" where
  "run_assignments P omq_address parse [] self = Assigned self"
| "run_assignments P omq_address parse ((a, v) # as) self =
     (case set_attr P omq_address parse a v self of
        Assigned self' \<Rightarrow> run_assignments P omq_address parse as self'
      | err \<Rightarrow> err)"

lemma run_assignments_typed:
  assumes "py_documented P"
  shows "config_typed self \<Longrightarrow> run_assignments P omq_address parse script self = Assigned self' \<Longrightarrow> config_typed self'"
proof (induction script arbitrary: self)
  case (Cons av script)
  obtain a v where av: "av = (a, v)" by (metis prod.exhaust)
  with Cons.prems(2) obtain self1 where one: "set_attr P omq_address parse a v self = Assigned self1"
    and rest: "run_assignments P omq_address parse script self1 = Assigned self'"
    by (auto split: assignment.splits)
  from Cons.IH [OF set_attr_typed [OF assms Cons.prems(1) one] rest] show ?case .
qed simp

lemma copy_attributes:
  assumes P: "py_documented P" and c: "config_typed c" "config_readable omq_address parse c"
  shows "config_typed self \<Longrightarrow> distinct as \<Longrightarrow>
    \<exists>self'. run_assignments P omq_address parse (map (\<lambda>a. (a, get_attr a c)) as) self = Assigned self' \<and> config_typed self' \<and>
      (\<forall>a. get_attr a self' = get_attr a (if a \<in> set as then c else self))"
proof (induction as arbitrary: self)
  case (Cons a as)
  obtain self1 where one: "set_attr P omq_address parse a (get_attr a c) self = Assigned self1" "get_attr a self1 = get_attr a c"
    using get_then_set [OF P c] by blast
  from Cons.IH [OF set_attr_typed [OF P Cons.prems(1) one(1)]] Cons.prems(2) one set_attr_frame [OF one(1)]
  show ?case by (auto split: if_splits)
qed simp


lemma controller_stop_once:
  "fst (controller_stop dtor c) = None \<and> controller_stop dtor' (fst (controller_stop dtor c)) = (None, None)"
  by (simp add: controller_stop_def)

text \<open>The start-up succeeds under exactly these conditions.\<close>

definition can_start :: "oxenc_lib \<Rightarrow> sodium_lib \<Rightarrow> nanos \<Rightarrow> (nat \<Rightarrow> seconds) \<Rightarrow> int \<Rightarrow> string option \<Rightarrow> bool \<times> string list \<Rightarrow> HiveMind \<Rightarrow> Config \<Rightarrow> bool" where
  "can_start ox sod now clock hardware oxend_err ping hm config \<longleftrightarrow>
     (quic_listen config = [] \<or> quic_keys config \<noteq> None) \<and>
     (\<exists>hm'. load_saved_subscriptions ox sod clock hardware (hm\<lparr>db := db_cleanup now (db hm)\<rparr>) = Inr hm') \<and>
     oxend_err = None \<and> fst ping"

lemma HiveMind_start_result:
  assumes "\<forall>k. polls k + 25000000 \<le> polls (Suc k)" "start \<le> polls 0"
    and "nat (notifier_wait config div 25000000) + 2 \<le> fuel"
  shows "\<exists>res. HiveMind_start ox sod config now sclock hardware oxend_err ping start polls serve fuel hm s = Some res \<and>
    (\<not> isl res \<longleftrightarrow> can_start ox sod now sclock hardware oxend_err ping hm config)"
proof -
  let ?pre = "bind_r (HiveMind_ctor ox sod config now sclock hardware hm) (\<lambda>(eps, hm').
           bind_r (connect_oxend oxend_err ping) (\<lambda>_. Inr (eps, hm')))"
  have oxend: "(\<exists>u. connect_oxend oxend_err ping = Inr u) \<longleftrightarrow> oxend_err = None \<and> fst ping"
    by (cases "(oxend_err, ping)" rule: connect_oxend.cases) auto
  have "(\<exists>x. ?pre = Inr x) \<longleftrightarrow> can_start ox sod now sclock hardware oxend_err ping hm config"
    using oxend by (auto simp: result_simps HiveMind_ctor_def setup_endpoints_def can_start_def split: if_splits)
  moreover have "\<exists>n. wait_for_notifiers config start polls (\<lambda>k. serve k hm') fuel = Some n" for hm'
    by (rule wait_for_notifiers_total [OF assms])
  moreover from this obtain n where
      "?pre = Inr (eps, hm') \<Longrightarrow> wait_for_notifiers config start polls (\<lambda>k. serve k hm') fuel = Some (n hm')" for eps hm'
    by metis
  ultimately show ?thesis
    by (cases ?pre) (auto simp: HiveMind_start_def)
qed

text \<open>
  The program always ends with a definite outcome: with a clock that advances at least 25 ms
  from poll to poll and a signal at the end, the exit code is 0 exactly if one file is named, its
  configuration loads, and the server can start; a bad command line or configuration gives 1, an
  interpreter that does not start 2, and only a failed start-up leaves an exception uncaught.
\<close>

theorem program_outcome:
  assumes "\<forall>k. polls k + 25000000 \<le> polls (Suc k)" "start \<le> polls 0"
  shows "\<exists>ex. main_program load_config (\<lambda>conf. HiveMind_start ox sod conf now sclock hardware oxend_err ping start polls serve
        (nat (notifier_wait conf div 25000000) + 2) hm s) argv = Some ex \<and>
    (let named = (length argv = 2 \<and> argv ! 1 \<notin> {''-h'', ''--help''});
         starts = can_start ox sod now sclock hardware oxend_err ping hm in
      (ex = Exit_code 0 \<longleftrightarrow> named \<and> (\<exists>conf. load_config (argv ! 1) = Loaded conf \<and> starts conf)) \<and>
      (ex = Exit_code 2 \<longleftrightarrow> named \<and> load_config (argv ! 1) = Interpreter_failed) \<and>
      ((\<exists>e. ex = Uncaught e) \<longleftrightarrow> named \<and> (\<exists>conf. load_config (argv ! 1) = Loaded conf \<and> \<not> starts conf)) \<and>
      (ex = Exit_code 1 \<longleftrightarrow> \<not> named \<or> (\<exists>t. load_config (argv ! 1) \<in> {Python_error t, Load_exception t})))"
proof (cases "length argv = 2 \<and> argv ! 1 \<notin> {''-h'', ''--help''}")
  case False
  then show ?thesis by (auto simp: main_program_def usage_def Let_def)
next
  case True
  show ?thesis
  proof (cases "load_config (argv ! 1)")
    case (Loaded conf)
    obtain res where res: "HiveMind_start ox sod conf now sclock hardware oxend_err ping start polls serve
        (nat (notifier_wait conf div 25000000) + 2) hm s = Some res"
      "\<not> isl res \<longleftrightarrow> can_start ox sod now sclock hardware oxend_err ping hm conf"
      using HiveMind_start_result [OF assms order_refl] by blast
    with True Loaded show ?thesis by (cases res) (simp_all add: main_program_def Let_def)
  qed (use True in \<open>simp_all add: main_program_def Let_def\<close>)
qed

section \<open>Witnesses of the program\<close>

theorem program_outcome_witness:
  "main_program (\<lambda>_. Loaded default_Config) (\<lambda>conf. HiveMind_start sample_oxenc sample_sodium conf 0 (\<lambda>_. 0) 4 None (True, [])
     0 (\<lambda>k. 25000000 * int k) (\<lambda>_ hm. hm) (nat (notifier_wait conf div 25000000) + 2) empty_hm waiting_startup)
     [''spns'', ''spns.ini''] = Some (Exit_code 0)"
proof -
  have "can_start sample_oxenc sample_sodium 0 (\<lambda>_. 0) 4 None (True, []) empty_hm default_Config"
    using load_nothing [of "empty_hm\<lparr>db := db_cleanup 0 (db empty_hm)\<rparr>" sample_oxenc sample_sodium "\<lambda>_. 0" 4]
    by (simp add: can_start_def default_Config_def empty_hm_def empty_DB_def db_cleanup_def delete_subscriptions_def Let_def)
  then show ?thesis
    using program_outcome [where polls = "\<lambda>k. 25000000 * int k" and start = 0 and load_config = "\<lambda>_. Loaded default_Config"
        and argv = "[''spns'', ''spns.ini'']" and s = waiting_startup and ox = sample_oxenc and sod = sample_sodium and now = 0
        and sclock = "\<lambda>_. 0" and hardware = 4 and oxend_err = None and ping = "(True, [])" and serve = "\<lambda>_ hm. hm" and hm = empty_hm]
    by (auto simp: Let_def)
qed

definition sample_address :: Address where
  "sample_address = \<lparr>is_ipv4 = False, is_ipv6 = True, is_any_addr = True, dual_stack = True, addr_host = ''::'', addr_port = 22030\<rparr>"

theorem python_round_trips_witness:
  "address_load (\<lambda>_. Inr (sample_address\<lparr>dual_stack := False\<rparr>)) (address_cast sample_address) = Inr (Some sample_address)"
proof -
  have "address_text_documented (\<lambda>_. Inr (sample_address\<lparr>dual_stack := False\<rparr>)) sample_address"
    by (simp add: address_text_documented_def address_cast_def)
  then show ?thesis
    using python_round_trips [where parse = "\<lambda>_. Inr (sample_address\<lparr>dual_stack := False\<rparr>)" and a = sample_address]
    by (simp add: sample_address_def)
qed


definition sample_py :: py_lib where
  "sample_py =
     \<lparr>py_str = (\<lambda>v. case v of PyStr s \<Rightarrow> Some s | PyBytes b \<Rightarrow> Some (as_sv b) | _ \<Rightarrow> None),
      py_int = (\<lambda>ok v. case v of PyInt i \<Rightarrow> if ok i then Some i else None | _ \<Rightarrow> None),
      py_seq = (\<lambda>v. case v of PyList l \<Rightarrow> Some l | _ \<Rightarrow> None), py_set = (\<lambda>v. case v of PySet l \<Rightarrow> Some l | _ \<Rightarrow> None)\<rparr>"

lemma sample_py_documented: "py_documented sample_py"
  by (auto simp: py_documented_def sample_py_def split: pyobj.splits if_splits)

definition keyed_Config :: Config where
  "keyed_Config = default_Config\<lparr>omq_pubkey := replicate 32 7, quic_keys := Some (replicate 64 1), quic_listen := [sample_address]\<rparr>"

lemma keyed_Config_ok:
  "config_typed keyed_Config" "config_readable Inr (\<lambda>_. Inr (sample_address\<lparr>dual_stack := False\<rparr>)) keyed_Config"
  by (simp_all add: config_typed_def config_readable_def keyed_Config_def default_Config_def X25519PK_SIZE_def X25519SK_SIZE_def
      Ed25519Secret_SIZE_def is_int64_def int64_min_def int64_max_def is_int32_def get_notifier_wait_def trunc_div_def
      nanos_per_milli_def nanos_per_sec_def address_text_documented_def address_cast_def)


end
