(* ===== verification/Notify_Queue.thy ===== *)
theory Notify_Queue
  imports Notifications
begin

text \<open>
  The hand-over of notifications to the processing thread (\<^verbatim>\<open>spns/hivemind.cpp\<close>, lines 388-406 and
  588-660) at the level of the raw commands: \<^verbatim>\<open>on_message_notification\<close> moves a message to the heap and
  sends its address through the calling thread's own socket, \<^verbatim>\<open>process_notifications\<close> reads the address
  back and takes ownership. The heap is explicit, so that leaks, dangling pointers and double
  deletes are visible, and the receive loop refines the one of \<^verbatim>\<open>Notifications\<close>.
\<close>

section \<open>Addresses as bytes\<close>

text \<open>The object representation of a 64-bit \<^verbatim>\<open>uintptr_t\<close>, least significant byte first.\<close>

fun nat_bytes :: "nat \<Rightarrow> nat \<Rightarrow> string" where
  "nat_bytes 0 n = []"
| "nat_bytes (Suc k) n = char_of (n mod 256) # nat_bytes k (n div 256)"

fun bytes_nat :: "string \<Rightarrow> nat" where
  "bytes_nat [] = 0"
| "bytes_nat (c # s) = of_char c + 256 * bytes_nat s"

definition sizeof_uintptr :: nat where "sizeof_uintptr = 8"

definition ptr_bytes :: "u64 \<Rightarrow> string" where
  "ptr_bytes p = nat_bytes sizeof_uintptr (unat p)"

definition bytes_ptr :: "string \<Rightarrow> u64" where
  "bytes_ptr s = word_of_nat (bytes_nat s)"

lemma length_nat_bytes [simp]: "length (nat_bytes k n) = k"
  by (induction k arbitrary: n) simp_all

lemma bytes_nat_nat_bytes: "bytes_nat (nat_bytes k n) = n mod 256 ^ k"
proof (induction k arbitrary: n)
  case (Suc k)
  have "n mod 256 + 256 * (n div 256 mod 256 ^ k) = n mod (256 * 256 ^ k)"
    by (simp add: mod_mult2_eq)
  with Suc show ?case by simp
qed simp

lemma length_ptr_bytes [simp]: "length (ptr_bytes p) = sizeof_uintptr"
  by (simp add: ptr_bytes_def)

lemma bytes_ptr_ptr_bytes [simp]: "bytes_ptr (ptr_bytes p) = p"
proof -
  have "unat p < 256 ^ 8" using unsigned_less [of p] by simp
  then show ?thesis by (simp add: bytes_ptr_def ptr_bytes_def sizeof_uintptr_def bytes_nat_nat_bytes)
qed

section \<open>State\<close>

text \<open>
  A thread is a number. \<open>last_id\<close> and \<open>last_socket\<close> are the two thread-local variables, \<open>notify_push\<close>
  the map from threads to sockets, a socket being the index of its pipe; a pipe holds what was
  sent and not yet received. \<open>heap\<close> has the live \<^verbatim>\<open>quic::message\<close> objects with their bodies, \<open>proc\<close> is the
  receiver's vector of owning pointers, \<open>nq_blocking\<close> its receive flag, \<open>running\<close> whether its thread
  has not returned.
\<close>

record notify_queue =
  object_id :: int
  last_id :: "nat \<Rightarrow> int"
  last_socket :: "nat \<Rightarrow> nat option"
  notify_push :: "(nat \<times> nat) list"
  pipes :: "string list list"
  heap :: "u64 \<rightharpoonup> string"
  proc :: "u64 list"
  nq_blocking :: bool
  running :: bool

section \<open>Operations\<close>

text \<open>
  \<open>None\<close> is the use of a null \<^verbatim>\<open>last_socket\<close>. The assignment to \<^verbatim>\<open>last_id\<close> is the one of the code, which
  stores the value that is already there.
\<close>

definition notify_push_sock :: "nat \<Rightarrow> notify_queue \<Rightarrow> (nat \<times> notify_queue) option" where
  "notify_push_sock t q =
     (if last_id q t \<noteq> object_id q then
        let (s, q1) = (case map_of (notify_push q) t of
                         Some s \<Rightarrow> (s, q)
                       | None \<Rightarrow> (length (pipes q),
                           q\<lparr>notify_push := (t, length (pipes q)) # notify_push q, pipes := pipes q @ [[]]\<rparr>));
            q2 = q1\<lparr>last_id := (last_id q1)(t := last_id q1 t), last_socket := (last_socket q1)(t := Some s)\<rparr>
        in Some (s, q2)
      else (case last_socket q t of None \<Rightarrow> None | Some s \<Rightarrow> Some (s, q)))"

definition sock_send :: "nat \<Rightarrow> string \<Rightarrow> notify_queue \<Rightarrow> notify_queue" where
  "sock_send s cmd q = q\<lparr>pipes := (pipes q)[s := pipes q ! s @ [cmd]]\<rparr>"

definition push_cmd :: "u64 \<Rightarrow> string" where
  "push_cmd p = ''PUSH'' @ ptr_bytes p"

text \<open>Thread \<open>t\<close> gets a message; \<open>a\<close> is the address that \<^verbatim>\<open>new\<close> returned.\<close>

definition on_message_notification :: "nat \<Rightarrow> u64 \<Rightarrow> string \<Rightarrow> notify_queue \<Rightarrow> notify_queue option" where
  "on_message_notification t a body q =
     map_option (\<lambda>(s, q'). sock_send s (push_cmd a) q')
       (notify_push_sock t (q\<lparr>heap := (heap q)(a \<mapsto> body)\<rparr>))"

definition send_quit :: "nat \<Rightarrow> notify_queue \<Rightarrow> notify_queue option" where
  "send_quit t q = map_option (\<lambda>(s, q'). sock_send s ''QUIT'' q') (notify_push_sock t q)"

definition is_push_cmd :: "string \<Rightarrow> bool" where
  "is_push_cmd cmd \<longleftrightarrow> length cmd = 4 + sizeof_uintptr \<and> take 4 cmd = ''PUSH''"

text \<open>
  What an iteration of the loop does with its messages: the bodies it reads through its pointers,
  \<open>None\<close> for a dangling one. Deleting is removal from the heap.
\<close>

datatype raw_action = Raw_Quit | Raw_Continue | Raw_Process "string option list"

definition delete_all :: "u64 list \<Rightarrow> (u64 \<rightharpoonup> string) \<Rightarrow> (u64 \<rightharpoonup> string)" where
  "delete_all ps h = (\<lambda>a. if a \<in> set ps then None else h a)"

definition raw_recv_step :: "string option \<Rightarrow> notify_queue \<Rightarrow> raw_action \<times> notify_queue" where
  "raw_recv_step cmd q =
     (if cmd = Some ''QUIT'' then
        (Raw_Quit, q\<lparr>running := False, heap := delete_all (proc q) (heap q), proc := []\<rparr>)
      else
        let q1 = (case cmd of
                    Some c \<Rightarrow> if is_push_cmd c then q\<lparr>proc := proc q @ [bytes_ptr (drop 4 c)], nq_blocking := False\<rparr>
                              else q\<lparr>nq_blocking := False\<rparr>
                  | None \<Rightarrow> q\<lparr>nq_blocking := True\<rparr>)
        in if proc q1 = [] \<or> (\<not> nq_blocking q1 \<and> length (proc q1) < MAX_BATCH) then (Raw_Continue, q1)
           else (Raw_Process (map (heap q1) (proc q1)),
                 q1\<lparr>heap := delete_all (proc q1) (heap q1), proc := []\<rparr>))"

section \<open>Executions\<close>

text \<open>
  A run with its history: \<open>accepted t\<close> the bodies thread \<open>t\<close> got, \<open>arrivals\<close> the bodies the processing
  thread received, with the thread they came from, \<open>handed\<close> what was read when batches were
  processed.
\<close>

record nq_run =
  nq :: notify_queue
  accepted :: "nat \<Rightarrow> string list"
  arrivals :: "(nat \<times> string) list"
  handed :: "string option list"

definition nq_init :: "nq_run \<Rightarrow> bool" where
  "nq_init r \<longleftrightarrow> (\<exists>oid > 0. r = \<lparr>nq = \<lparr>object_id = oid, last_id = (\<lambda>_. -1), last_socket = (\<lambda>_. None), notify_push = [],
      pipes = [], heap = Map.empty, proc = [], nq_blocking = False, running = True\<rparr>,
      accepted = (\<lambda>_. []), arrivals = [], handed = []\<rparr>)"

fun handed_by :: "raw_action \<Rightarrow> string option list" where
  "handed_by (Raw_Process bs) = bs"
| "handed_by _ = []"

definition record_arrival :: "nat \<Rightarrow> string \<Rightarrow> notify_queue \<Rightarrow> (nat \<times> string) list" where
  "record_arrival t cmd q = (if is_push_cmd cmd then [(t, the (heap q (bytes_ptr (drop 4 cmd))))] else [])"

text \<open>
  \<^verbatim>\<open>new\<close> returns an address that is not in use. A receive takes the oldest command of some non-empty
  pipe; only a non-blocking one may find nothing.
\<close>

inductive nq_step :: "nq_run \<Rightarrow> nq_run \<Rightarrow> bool" where
  notify: "heap (nq r) a = None \<Longrightarrow> on_message_notification t a body (nq r) = Some q' \<Longrightarrow>
     nq_step r (r\<lparr>nq := q', accepted := (accepted r)(t := accepted r t @ [body])\<rparr>)"
| stop: "send_quit t (nq r) = Some q' \<Longrightarrow> nq_step r (r\<lparr>nq := q'\<rparr>)"
| receive: "running (nq r) \<Longrightarrow> (t, s) \<in> set (notify_push (nq r)) \<Longrightarrow> pipes (nq r) ! s = cmd # rest \<Longrightarrow>
     raw_recv_step (Some cmd) ((nq r)\<lparr>pipes := (pipes (nq r))[s := rest]\<rparr>) = (act, q') \<Longrightarrow>
     nq_step r (r\<lparr>nq := q', arrivals := arrivals r @ record_arrival t cmd (nq r), handed := handed r @ handed_by act\<rparr>)"
| nothing: "running (nq r) \<Longrightarrow> \<not> nq_blocking (nq r) \<Longrightarrow> raw_recv_step None (nq r) = (act, q') \<Longrightarrow>
     nq_step r (r\<lparr>nq := q', handed := handed r @ handed_by act\<rparr>)"

inductive_cases nq_stepE: "nq_step r r'"


section \<open>Sockets\<close>

definition sockets_ok :: "notify_queue \<Rightarrow> bool" where
  "sockets_ok q \<longleftrightarrow> keys_distinct (notify_push q) \<and> distinct (map snd (notify_push q)) \<and>
     (\<forall>s \<in> snd ` set (notify_push q). s < length (pipes q)) \<and> (\<forall>t. last_id q t \<noteq> object_id q)"

definition pipe_of :: "notify_queue \<Rightarrow> nat \<Rightarrow> string list" where
  "pipe_of q t = (case map_of (notify_push q) t of Some s \<Rightarrow> pipes q ! s | None \<Rightarrow> [])"

definition push_ptrs :: "string list \<Rightarrow> u64 list" where
  "push_ptrs cmds = map (\<lambda>c. bytes_ptr (drop 4 c)) (filter is_push_cmd cmds)"

definition in_flight :: "notify_queue \<Rightarrow> u64 list" where
  "in_flight q = concat (map push_ptrs (pipes q))"

lemma push_ptrs_simps [simp]:
  "push_ptrs [] = []" "push_ptrs (xs @ ys) = push_ptrs xs @ push_ptrs ys"
  "push_ptrs (c # cs) = (if is_push_cmd c then [bytes_ptr (drop 4 c)] else []) @ push_ptrs cs"
  by (simp_all add: push_ptrs_def)

lemma push_cmd_simps [simp]:
  "is_push_cmd (push_cmd a)" "\<not> is_push_cmd ''QUIT''" "bytes_ptr (drop 4 (push_cmd a)) = a"
  by (simp_all add: is_push_cmd_def push_cmd_def sizeof_uintptr_def)

lemma mset_concat_update:
  "s < length ps \<Longrightarrow> mset (concat (map f (ps[s := x]))) + mset (f (ps ! s)) = mset (concat (map f ps)) + mset (f x)"
proof (induction ps arbitrary: s)
  case (Cons p ps)
  then show ?case by (cases s) (simp_all add: ac_simps)
qed simp

lemma notify_push_sock_ok:
  assumes "sockets_ok q"
  obtains s q' where "notify_push_sock t q = Some (s, q')" "sockets_ok q'" "map_of (notify_push q') t = Some s"
    "s < length (pipes q')" "in_flight q' = in_flight q" "pipe_of q' = pipe_of q"
    "heap q' = heap q" "proc q' = proc q" "nq_blocking q' = nq_blocking q" "running q' = running q"
proof (cases "map_of (notify_push q) t")
  case (Some s)
  define q' where "q' = q\<lparr>last_id := (last_id q)(t := last_id q t), last_socket := (last_socket q)(t := Some s)\<rparr>"
  have "(t, s) \<in> set (notify_push q)" using Some by (rule map_of_SomeD)
  then have "s < length (pipes q)" using assms unfolding sockets_ok_def by force
  moreover have "notify_push_sock t q = Some (s, q')"
    using assms Some by (simp add: notify_push_sock_def sockets_ok_def q'_def)
  moreover have "pipe_of q' u = pipe_of q u" for u
    by (simp add: q'_def pipe_of_def split: option.split)
  ultimately show thesis
    using assms Some that [of s q'] by (simp add: q'_def sockets_ok_def in_flight_def fun_eq_iff)
next
  case None
  let ?s = "length (pipes q)"
  define q' where "q' = q\<lparr>notify_push := (t, ?s) # notify_push q, pipes := pipes q @ [[]],
    last_id := (last_id q)(t := last_id q t), last_socket := (last_socket q)(t := Some ?s)\<rparr>"
  have "notify_push_sock t q = Some (?s, q')"
    using assms None by (simp add: notify_push_sock_def sockets_ok_def q'_def)
  moreover have "sockets_ok q'"
    using assms None by (force simp: q'_def sockets_ok_def map_of_eq_None_iff)
  moreover have "pipe_of q' u = pipe_of q u" for u
  proof (cases "map_of (notify_push q) u")
    case (Some s)
    then have "s < length (pipes q)" using assms map_of_SomeD [OF Some] unfolding sockets_ok_def by force
    then show ?thesis using Some None by (auto simp: pipe_of_def q'_def nth_append)
  qed (simp add: pipe_of_def q'_def)
  ultimately show thesis
    using that [of ?s q'] by (simp add: q'_def in_flight_def fun_eq_iff)
qed

text \<open>Sending on the thread's own socket extends that thread's pipe and no other.\<close>

lemma sock_send_ok:
  assumes "sockets_ok q" "map_of (notify_push q) t = Some s" "s < length (pipes q)"
  shows "sockets_ok (sock_send s cmd q)" "pipe_of (sock_send s cmd q) = (pipe_of q)(t := pipe_of q t @ [cmd])"
    "mset (in_flight (sock_send s cmd q)) = mset (in_flight q) + mset (push_ptrs [cmd])"
proof -
  show "sockets_ok (sock_send s cmd q)" using assms(1) by (simp add: sockets_ok_def sock_send_def)
  have "s' \<noteq> s" if "map_of (notify_push q) u = Some s'" "u \<noteq> t" for u s'
    using assms(1) map_of_SomeD [OF that(1)] map_of_SomeD [OF assms(2)] that(2)
    unfolding sockets_ok_def distinct_map inj_on_def by fastforce
  then show "pipe_of (sock_send s cmd q) = (pipe_of q)(t := pipe_of q t @ [cmd])"
    using assms(2,3) by (auto simp: pipe_of_def sock_send_def fun_eq_iff split: option.splits) (metis nth_list_update_neq)
  have "mset (in_flight (sock_send s cmd q)) + mset (push_ptrs (pipes q ! s)) =
      (mset (in_flight q) + mset (push_ptrs [cmd])) + mset (push_ptrs (pipes q ! s))"
    using mset_concat_update [OF assms(3), of push_ptrs "pipes q ! s @ [cmd]"]
    by (simp add: in_flight_def sock_send_def ac_simps)
  then show "mset (in_flight (sock_send s cmd q)) = mset (in_flight q) + mset (push_ptrs [cmd])"
    by (rule add_right_imp_eq)
qed


section \<open>Ownership\<close>

text \<open>
  Every live message is owned exactly once: by the receiver's vector or by one command in some
  pipe. As an equation of multisets this excludes leaks, dangling pointers and double ownership.
\<close>

definition owned :: "notify_queue \<Rightarrow> bool" where
  "owned q \<longleftrightarrow> finite (dom (heap q)) \<and> mset (proc q) + mset (in_flight q) = mset_set (dom (heap q))"

lemma dom_delete_all [simp]: "dom (delete_all ps h) = dom h - set ps"
  by (auto simp: delete_all_def split: if_splits)

lemma delete_all_other: "a \<notin> set ps \<Longrightarrow> delete_all ps h a = h a"
  by (simp add: delete_all_def)

lemma mset_set_split:
  assumes "finite D" "mset ps + F = mset_set D"
  shows "F = mset_set (D - set ps)" "distinct ps" "set ps \<subseteq> D"
proof -
  have count: "count (mset ps) a \<le> 1" for a
  proof -
    have "count (mset ps) a \<le> count (mset_set D) a" using assms(2) by (metis count_union le_add1)
    also have "\<dots> \<le> 1" by (simp add: count_mset_set')
    finally show ?thesis .
  qed
  then show ps: "distinct ps"
    unfolding distinct_count_atmost_1 by (metis count_mset_0_iff le_neq_implies_less less_one count_greater_eq_one_iff set_mset_mset)
  have "set_mset (mset ps) \<subseteq> set_mset (mset_set D)" using assms(2) by (metis mset_subset_eq_add_left set_mset_mono)
  then show sub: "set ps \<subseteq> D" using assms(1) by simp
  have "mset_set D - mset ps = F" using assms(2) by (metis add_diff_cancel_left')
  then show "F = mset_set (D - set ps)" using mset_set_Diff [OF assms(1) sub] mset_set_set [OF ps] by simp
qed

lemma push_ptrs_in_flight: "sockets_ok q \<Longrightarrow> set (push_ptrs (pipe_of q t)) \<subseteq> set (in_flight q)"
proof (cases "map_of (notify_push q) t")
  case (Some s)
  assume "sockets_ok q"
  then have "s < length (pipes q)" using map_of_SomeD [OF Some] unfolding sockets_ok_def by force
  then have "pipes q ! s \<in> set (pipes q)" by simp
  then show ?thesis using Some unfolding in_flight_def pipe_of_def by auto
qed (simp add: pipe_of_def)

text \<open>An iteration of the loop: what it read goes to the vector, and a batch leaves the heap.\<close>

definition new_ptrs :: "string option \<Rightarrow> u64 list" where
  "new_ptrs cmd = push_ptrs (case cmd of Some c \<Rightarrow> [c] | None \<Rightarrow> [])"

lemma raw_recv_step_cases:
  assumes "raw_recv_step cmd q = (act, q')"
  obtains (quit) "cmd = Some ''QUIT''" "act = Raw_Quit" "q' = q\<lparr>running := False, heap := delete_all (proc q) (heap q), proc := []\<rparr>"
  | (continue) b where "cmd \<noteq> Some ''QUIT''" "act = Raw_Continue" "q' = q\<lparr>proc := proc q @ new_ptrs cmd, nq_blocking := b\<rparr>"
  | (batch) b where "cmd \<noteq> Some ''QUIT''" "act = Raw_Process (map (heap q) (proc q @ new_ptrs cmd))"
      "q' = q\<lparr>proc := [], nq_blocking := b, heap := delete_all (proc q @ new_ptrs cmd) (heap q)\<rparr>"
proof (cases "cmd = Some ''QUIT''")
  case True
  with assms show thesis by (auto intro: quit simp: raw_recv_step_def)
next
  case False
  define q1 where "q1 = q\<lparr>proc := proc q @ new_ptrs cmd, nq_blocking := (cmd = None)\<rparr>"
  have "(case cmd of Some c \<Rightarrow> if is_push_cmd c then q\<lparr>proc := proc q @ [bytes_ptr (drop 4 c)], nq_blocking := False\<rparr>
                                else q\<lparr>nq_blocking := False\<rparr>
                    | None \<Rightarrow> q\<lparr>nq_blocking := True\<rparr>) = q1"
    by (cases cmd) (simp_all add: q1_def new_ptrs_def)
  with assms False have "(act, q') = (if proc q1 = [] \<or> (\<not> nq_blocking q1 \<and> length (proc q1) < MAX_BATCH) then (Raw_Continue, q1)
      else (Raw_Process (map (heap q1) (proc q1)), q1\<lparr>heap := delete_all (proc q1) (heap q1), proc := []\<rparr>))"
    by (simp add: raw_recv_step_def Let_def)
  then show thesis
    using continue [OF False, where b = "cmd = None"] batch [OF False, where b = "cmd = None"]
    by (simp add: q1_def split: if_splits)
qed

lemma new_ptrs_quit [simp]: "new_ptrs (Some ''QUIT'') = []" "new_ptrs None = []"
  by (simp_all add: new_ptrs_def)

lemma raw_recv_step_owned:
  assumes "finite (dom (heap q))" "mset (proc q @ new_ptrs cmd) + mset (in_flight q) = mset_set (dom (heap q))"
    and "raw_recv_step cmd q = (act, q')"
  shows "owned q'" "a \<in> set (in_flight q) \<Longrightarrow> heap q' a = heap q a"
    "set (proc q @ new_ptrs cmd) \<subseteq> dom (heap q)"
proof -
  note split = mset_set_split [OF assms(1,2)]
  show "set (proc q @ new_ptrs cmd) \<subseteq> dom (heap q)" by (rule split)
  have "set_mset (mset (in_flight q)) = dom (heap q) - set (proc q @ new_ptrs cmd)"
    unfolding split(1) using assms(1) by simp
  then have apart: "a \<in> set (in_flight q) \<Longrightarrow> a \<notin> set (proc q @ new_ptrs cmd)" for a by auto
  show "owned q'"
    using assms(3)
  proof (cases rule: raw_recv_step_cases)
    case quit
    with split(1) assms(1) show ?thesis by (simp add: owned_def in_flight_def)
  next
    case (continue b)
    with assms(1,2) show ?thesis by (simp add: owned_def in_flight_def)
  next
    case (batch b)
    with split(1) assms(1) show ?thesis by (simp add: owned_def in_flight_def)
  qed
  show "a \<in> set (in_flight q) \<Longrightarrow> heap q' a = heap q a"
    using assms(3) apart [of a] by (cases rule: raw_recv_step_cases) (simp_all add: delete_all_other)
qed


section \<open>The invariant\<close>

definition came_from :: "nat \<Rightarrow> (nat \<times> string) list \<Rightarrow> string list" where
  "came_from t xs = map snd (filter (\<lambda>x. fst x = t) xs)"

definition waiting :: "notify_queue \<Rightarrow> nat \<Rightarrow> string list" where
  "waiting q t = map (the \<circ> heap q) (push_ptrs (pipe_of q t))"

definition nq_ok :: "nq_run \<Rightarrow> bool" where
  "nq_ok r \<longleftrightarrow> owned (nq r) \<and> sockets_ok (nq r) \<and>
     (\<forall>t. accepted r t = came_from t (arrivals r) @ waiting (nq r) t) \<and>
     (\<exists>dropped. map (Some \<circ> snd) (arrivals r) = handed r @ dropped \<and> (running (nq r) \<longrightarrow> dropped = map (heap (nq r)) (proc (nq r))))"

lemma came_from_simps [simp]: "came_from t [] = []" "came_from t (xs @ ys) = came_from t xs @ came_from t ys"
  by (simp_all add: came_from_def)

lemma waiting_cong:
  assumes "sockets_ok q" "push_ptrs (pipe_of q' t) = push_ptrs (pipe_of q t)" "\<And>a. a \<in> set (in_flight q) \<Longrightarrow> heap q' a = heap q a"
  shows "waiting q' t = waiting q t"
  using push_ptrs_in_flight [OF assms(1), of t] assms(2,3) by (auto simp: waiting_def)

lemma owned_dom:
  assumes "owned q"
  shows "set (proc q) \<subseteq> dom (heap q)" "set (in_flight q) \<subseteq> dom (heap q)"
proof -
  from assms have "set_mset (mset (proc q) + mset (in_flight q)) = dom (heap q)" unfolding owned_def by (metis finite_set_mset_mset_set)
  then show "set (proc q) \<subseteq> dom (heap q)" "set (in_flight q) \<subseteq> dom (heap q)" by auto
qed

lemma nq_ok_notify:
  assumes ok: "nq_ok r" and new: "heap (nq r) a = None" and st: "on_message_notification t a body (nq r) = Some q'"
  shows "nq_ok (r\<lparr>nq := q', accepted := (accepted r)(t := accepted r t @ [body])\<rparr>)"
proof -
  let ?q = "nq r" and ?h = "(heap (nq r))(a \<mapsto> body)"
  have own: "owned ?q" and socks: "sockets_ok ?q" using ok by (auto simp: nq_ok_def)
  have "sockets_ok (?q\<lparr>heap := ?h\<rparr>)" using socks by (simp add: sockets_ok_def)
  then obtain s q1 where q1: "notify_push_sock t (?q\<lparr>heap := ?h\<rparr>) = Some (s, q1)" "sockets_ok q1" "map_of (notify_push q1) t = Some s"
    "s < length (pipes q1)" "in_flight q1 = in_flight (?q\<lparr>heap := ?h\<rparr>)" "pipe_of q1 = pipe_of (?q\<lparr>heap := ?h\<rparr>)"
    "heap q1 = heap (?q\<lparr>heap := ?h\<rparr>)" "proc q1 = proc (?q\<lparr>heap := ?h\<rparr>)" "running q1 = running (?q\<lparr>heap := ?h\<rparr>)"
    by (rule notify_push_sock_ok [where t = t]) blast
  have q': "q' = sock_send s (push_cmd a) q1" using st q1(1) by (simp add: on_message_notification_def)
  note send = sock_send_ok [OF q1(2,3,4), of "push_cmd a"]
  have fields: "heap q' = ?h" "proc q' = proc ?q" "running q' = running ?q"
    using q1 by (simp_all add: q' sock_send_def)
  have flight: "in_flight (?q\<lparr>heap := ?h\<rparr>) = in_flight ?q" "pipe_of (?q\<lparr>heap := ?h\<rparr>) = pipe_of ?q"
    by (simp_all add: in_flight_def pipe_of_def fun_eq_iff split: option.split)
  have "mset (in_flight q') = add_mset a (mset (in_flight ?q))" using send(3) q1(5) flight by (simp add: q')
  moreover have "mset_set (insert a (dom (heap ?q))) = add_mset a (mset_set (dom (heap ?q)))"
    using own new by (intro mset_set.insert) (auto simp: owned_def)
  ultimately have "owned q'" using own by (simp add: owned_def fields)
  moreover have "waiting q' u = ((waiting ?q)(t := waiting ?q t @ [body])) u" for u
  proof -
    have "map (the \<circ> ?h) (push_ptrs (pipe_of ?q u)) = waiting ?q u"
      using push_ptrs_in_flight [OF socks, of u] owned_dom(2) [OF own] new by (auto simp: waiting_def)
    then show ?thesis using send(2) q1(6) flight by (simp add: waiting_def fields q' [symmetric])
  qed
  moreover have "map ?h (proc ?q) = map (heap ?q) (proc ?q)" using owned_dom(1) [OF own] new by auto
  ultimately show ?thesis
    using ok send(1) by (auto simp: nq_ok_def fields q' [symmetric])
qed

lemma nq_ok_stop:
  assumes ok: "nq_ok r" and st: "send_quit t (nq r) = Some q'"
  shows "nq_ok (r\<lparr>nq := q'\<rparr>)"
proof -
  let ?q = "nq r"
  have own: "owned ?q" and socks: "sockets_ok ?q" using ok by (auto simp: nq_ok_def)
  obtain s q1 where q1: "notify_push_sock t ?q = Some (s, q1)" "sockets_ok q1" "map_of (notify_push q1) t = Some s"
    "s < length (pipes q1)" "in_flight q1 = in_flight ?q" "pipe_of q1 = pipe_of ?q"
    "heap q1 = heap ?q" "proc q1 = proc ?q" "running q1 = running ?q"
    by (rule notify_push_sock_ok [OF socks, where t = t]) blast
  have q': "q' = sock_send s ''QUIT'' q1" using st q1(1) by (simp add: send_quit_def)
  note send = sock_send_ok [OF q1(2,3,4), of "''QUIT''"]
  have fields: "heap q' = heap ?q" "proc q' = proc ?q" "running q' = running ?q"
    using q1 by (simp_all add: q' sock_send_def)
  have "owned q'" using own send(3) q1(5) by (simp add: owned_def fields) (simp add: q')
  moreover have "waiting q' u = waiting ?q u" for u
    using send(2) q1(6) by (simp add: waiting_def fields q' [symmetric])
  ultimately show ?thesis using ok send(1) by (auto simp: nq_ok_def fields q' [symmetric])
qed


lemma pop_pipe:
  assumes "sockets_ok q" "(t, s) \<in> set (notify_push q)" "pipes q ! s = cmd # rest"
  shows "sockets_ok (q\<lparr>pipes := (pipes q)[s := rest]\<rparr>)" "pipe_of q t = cmd # rest"
    "pipe_of (q\<lparr>pipes := (pipes q)[s := rest]\<rparr>) = (pipe_of q)(t := rest)"
    "mset (in_flight q) = mset (new_ptrs (Some cmd)) + mset (in_flight (q\<lparr>pipes := (pipes q)[s := rest]\<rparr>))"
proof -
  let ?q = "q\<lparr>pipes := (pipes q)[s := rest]\<rparr>"
  have s: "map_of (notify_push q) t = Some s" "s < length (pipes q)"
    using assms(1,2) by (force simp: sockets_ok_def)+
  then show "pipe_of q t = cmd # rest" using assms(3) by (simp add: pipe_of_def)
  show "sockets_ok ?q" using assms(1) by (simp add: sockets_ok_def)
  have "s' \<noteq> s" if "map_of (notify_push q) u = Some s'" "u \<noteq> t" for u s'
    using assms(1,2) map_of_SomeD [OF that(1)] that(2) unfolding sockets_ok_def distinct_map inj_on_def by fastforce
  then show "pipe_of ?q = (pipe_of q)(t := rest)"
    using s by (auto simp: pipe_of_def fun_eq_iff split: option.splits) (metis nth_list_update_neq)
  have "(mset (new_ptrs (Some cmd)) + mset (in_flight ?q)) + mset (push_ptrs rest) = mset (in_flight q) + mset (push_ptrs rest)"
    using mset_concat_update [OF s(2), of push_ptrs rest] assms(3) by (simp add: in_flight_def new_ptrs_def ac_simps)
  then show "mset (in_flight q) = mset (new_ptrs (Some cmd)) + mset (in_flight ?q)"
    by (metis add_right_imp_eq)
qed

lemma raw_recv_step_keeps:
  assumes "raw_recv_step cmd q = (act, q')"
  shows "pipe_of q' = pipe_of q" "sockets_ok q' = sockets_ok q" "in_flight q' = in_flight q"
proof -
  have "pipes q' = pipes q \<and> notify_push q' = notify_push q \<and> last_id q' = last_id q \<and> object_id q' = object_id q"
    using assms by (cases rule: raw_recv_step_cases) simp_all
  then show "pipe_of q' = pipe_of q" "sockets_ok q' = sockets_ok q" "in_flight q' = in_flight q"
    by (simp_all add: pipe_of_def sockets_ok_def in_flight_def fun_eq_iff split: option.split)
qed

text \<open>What is handed on, with what the vector holds afterwards, is what it held before and what came.\<close>

lemma raw_recv_step_handed:
  assumes "raw_recv_step cmd q = (act, q')" "running q"
  shows "\<exists>dropped. map (heap q) (proc q @ new_ptrs cmd) = handed_by act @ dropped \<and>
    (running q' \<longrightarrow> dropped = map (heap q') (proc q'))"
  using assms by (cases rule: raw_recv_step_cases) auto

lemma nq_ok_recv:
  assumes ok: "nq_ok r" and run: "running (nq r)" and q: "sockets_ok q" "heap q = heap (nq r)" "proc q = proc (nq r)" "running q"
    and flight: "mset (in_flight (nq r)) = mset (new_ptrs cmd) + mset (in_flight q)"
    and came: "map (Some \<circ> snd) came = map (heap q) (new_ptrs cmd)"
    and order: "\<And>t. waiting (nq r) t = came_from t came @ waiting q t"
    and st: "raw_recv_step cmd q = (act, q')"
  shows "nq_ok (r\<lparr>nq := q', arrivals := arrivals r @ came, handed := handed r @ handed_by act\<rparr>)"
proof -
  have own: "finite (dom (heap q))" "mset (proc q @ new_ptrs cmd) + mset (in_flight q) = mset_set (dom (heap q))"
    using ok flight q by (simp_all add: nq_ok_def owned_def ac_simps)
  note step = raw_recv_step_owned [OF own st] and keeps = raw_recv_step_keeps [OF st]
  have "waiting q' t = waiting q t" for t
    by (rule waiting_cong) (use q(1) keeps step in simp_all)
  moreover obtain dropped where "map (heap q) (proc q @ new_ptrs cmd) = handed_by act @ dropped"
      "running q' \<longrightarrow> dropped = map (heap q') (proc q')"
    using raw_recv_step_handed [OF st q(4)] by blast
  ultimately show ?thesis
    using ok run q came order keeps step(1) by (auto simp: nq_ok_def)
qed


lemma nq_ok_receive:
  assumes ok: "nq_ok r" and run: "running (nq r)" and sock: "(t, s) \<in> set (notify_push (nq r))" "pipes (nq r) ! s = cmd # rest"
    and st: "raw_recv_step (Some cmd) ((nq r)\<lparr>pipes := (pipes (nq r))[s := rest]\<rparr>) = (act, q')"
  shows "nq_ok (r\<lparr>nq := q', arrivals := arrivals r @ record_arrival t cmd (nq r), handed := handed r @ handed_by act\<rparr>)"
proof -
  let ?q = "(nq r)\<lparr>pipes := (pipes (nq r))[s := rest]\<rparr>"
  have own: "owned (nq r)" and socks: "sockets_ok (nq r)" using ok by (auto simp: nq_ok_def)
  note pop = pop_pipe [OF socks sock]
  have live: "set (new_ptrs (Some cmd)) \<subseteq> dom (heap (nq r))"
    using owned_dom(2) [OF own] arg_cong [OF pop(4), of set_mset] by auto
  show ?thesis
  proof (rule nq_ok_recv [OF ok run pop(1) _ _ _ pop(4) _ _ st])
    show "map (Some \<circ> snd) (record_arrival t cmd (nq r)) = map (heap ?q) (new_ptrs (Some cmd))"
      using live by (auto simp: record_arrival_def new_ptrs_def)
    show "waiting (nq r) u = came_from u (record_arrival t cmd (nq r)) @ waiting ?q u" for u
      using pop(2,3) by (auto simp: waiting_def record_arrival_def came_from_def)
  qed (use run in simp_all)
qed

lemma nq_ok_nothing:
  assumes ok: "nq_ok r" and run: "running (nq r)" and st: "raw_recv_step None (nq r) = (act, q')"
  shows "nq_ok (r\<lparr>nq := q', handed := handed r @ handed_by act\<rparr>)"
proof -
  have "sockets_ok (nq r)" using ok by (simp add: nq_ok_def)
  from nq_ok_recv [OF ok run this _ _ run _ _ _ st, of "[]"] show ?thesis by simp
qed

interpretation queue: transition_system nq_init nq_step nq_ok
proof
  show "nq_init r \<Longrightarrow> nq_ok r" for r
    by (auto simp: nq_init_def nq_ok_def owned_def sockets_ok_def in_flight_def waiting_def pipe_of_def)
  show "nq_ok r \<Longrightarrow> nq_step r r' \<Longrightarrow> nq_ok r'" for r r'
    by (auto elim!: nq_stepE intro: nq_ok_notify nq_ok_stop nq_ok_receive nq_ok_nothing)
qed

text \<open>
  C18. Notifications are handed to the processing thread exactly once and their memory is accounted
  for. In every state of every interleaving: each live message is owned by exactly one pointer,
  in the vector or in one queued command, and each pointer refers to a live message; nothing was
  read through a dangling pointer; no two threads use the same socket and a thread always gets
  one; what a thread delivered arrives in the order it came, nothing lost or doubled; and while the
  thread runs, what arrived is what was processed, in order, and what its vector holds.
\<close>

theorem notifications_delivered_once:
  assumes "reach nq_init nq_step r"
  shows "(let q = nq r in
    distinct (proc q @ in_flight q) \<and> dom (heap q) = set (proc q) \<union> set (in_flight q) \<and> None \<notin> set (handed r) \<and>
    (\<forall>t. \<exists>s q'. notify_push_sock t q = Some (s, q') \<and> map_of (notify_push q') t = Some s) \<and> distinct (map snd (notify_push q)) \<and>
    (\<forall>t. accepted r t = came_from t (arrivals r) @ waiting q t) \<and>
    (running q \<longrightarrow> map (Some \<circ> snd) (arrivals r) = handed r @ map (heap q) (proc q)))"
proof -
  have ok: "nq_ok r" using assms by (rule queue.reach_invar)
  then have own: "finite (dom (heap (nq r)))" "mset (proc (nq r) @ in_flight (nq r)) + {#} = mset_set (dom (heap (nq r)))"
    and socks: "sockets_ok (nq r)" by (simp_all add: nq_ok_def owned_def)
  have "dom (heap (nq r)) = set (proc (nq r)) \<union> set (in_flight (nq r))"
    using arg_cong [OF own(2), of set_mset] own(1) by simp
  moreover have "\<exists>s q'. notify_push_sock t (nq r) = Some (s, q') \<and> map_of (notify_push q') t = Some s" for t
    by (rule notify_push_sock_ok [OF socks, where t = t]) blast
  moreover have "None \<notin> set (handed r)"
  proof
    assume "None \<in> set (handed r)"
    moreover obtain dropped where "map (Some \<circ> snd) (arrivals r) = handed r @ dropped" using ok by (auto simp: nq_ok_def)
    ultimately have "None \<in> set (map (Some \<circ> snd) (arrivals r))" by simp
    then show False by auto
  qed
  ultimately show ?thesis
    using ok socks mset_set_split(2) [OF own] by (auto simp: nq_ok_def sockets_ok_def Let_def)
qed

section \<open>Refinement of the receive loop\<close>

definition decode_cmd :: "(u64 \<rightharpoonup> string) \<Rightarrow> string \<Rightarrow> proc_cmd" where
  "decode_cmd h c = (if c = ''QUIT'' then CMD_QUIT else if is_push_cmd c then CMD_PUSH (the (h (bytes_ptr (drop 4 c)))) else CMD_OTHER)"

definition abs_receiver :: "notify_queue \<Rightarrow> receiver" where
  "abs_receiver q = \<lparr>blocking = nq_blocking q, process = map (the \<circ> heap q) (proc q)\<rparr>"

fun conc_action :: "recv_action \<Rightarrow> raw_action" where
  "conc_action Quit = Raw_Quit"
| "conc_action Continue = Raw_Continue"
| "conc_action (Process bs) = Raw_Process (map Some bs)"

lemma map_the_live: "set ps \<subseteq> dom h \<Longrightarrow> map (Some \<circ> (the \<circ> h)) ps = map h ps"
  by auto

lemma raw_recv_step_abs:
  assumes "set (proc q @ new_ptrs cmd) \<subseteq> dom (heap q)" "raw_recv_step cmd q = (act, q')"
  shows "(let (a, rc) = recv_step (map_option (decode_cmd (heap q)) cmd) (abs_receiver q) in
    act = conc_action a \<and> (if a = Quit then \<not> running q' \<and> proc q' = [] else rc = abs_receiver q'))"
proof -
  consider "cmd = Some ''QUIT''" | "cmd = None" | c where "cmd = Some c" "c \<noteq> ''QUIT''" "is_push_cmd c"
    | c where "cmd = Some c" "c \<noteq> ''QUIT''" "\<not> is_push_cmd c" by fastforce
  then show ?thesis
    using assms map_the_live [OF assms(1)]
    by cases (auto simp: raw_recv_step_def recv_step_def abs_receiver_def decode_cmd_def new_ptrs_def Let_def split: if_splits)
qed

text \<open>
  Over raw commands and addresses the thread does what the receive loop over message bodies
  does: in every reachable state, an iteration that receives the next command of any pipe, or
  finds nothing, takes the action of the abstract iteration on the decoded command, every body read
  through a live pointer, and leaves its state (the stop command apart, after which the vector and
  its messages are gone).
\<close>

theorem raw_recv_refines:
  assumes "reach nq_init nq_step r" "raw_recv_step cmd q = (act, q')"
    and "q = nq r \<and> cmd = None \<or> (\<exists>t s c rest. (t, s) \<in> set (notify_push (nq r)) \<and> pipes (nq r) ! s = c # rest \<and>
      cmd = Some c \<and> q = (nq r)\<lparr>pipes := (pipes (nq r))[s := rest]\<rparr>)"
  shows "(let (a, rc) = recv_step (map_option (decode_cmd (heap q)) cmd) (abs_receiver (nq r)) in
    act = conc_action a \<and> (if a = Quit then \<not> running q' \<and> proc q' = [] else rc = abs_receiver q'))"
proof -
  have ok: "owned (nq r)" "sockets_ok (nq r)" using queue.reach_invar [OF assms(1)] by (simp_all add: nq_ok_def)
  have fields: "abs_receiver (nq r) = abs_receiver q" "heap q = heap (nq r)" "proc q = proc (nq r)"
    using assms(3) by (auto simp: abs_receiver_def)
  have "set (new_ptrs cmd) \<subseteq> set (in_flight (nq r))"
  proof (cases cmd)
    case (Some c)
    then obtain t s rest where "(t, s) \<in> set (notify_push (nq r))" "pipes (nq r) ! s = c # rest" using assms(3) by auto
    from pop_pipe(4) [OF ok(2) this] show ?thesis by (metis Some Un_upper1 set_mset_mset set_mset_union)
  qed simp
  then have "set (proc q @ new_ptrs cmd) \<subseteq> dom (heap q)" using owned_dom [OF ok(1)] fields by auto
  from raw_recv_step_abs [OF this assms(2)] show ?thesis unfolding fields(1) .
qed

section \<open>Witnesses of the hand-over\<close>

definition sample_run :: nq_run where
  "sample_run = \<lparr>nq = \<lparr>object_id = 1, last_id = (\<lambda>_. -1), last_socket = (\<lambda>_. None), notify_push = [],
      pipes = [], heap = Map.empty, proc = [], nq_blocking = False, running = True\<rparr>,
      accepted = (\<lambda>_. []), arrivals = [], handed = []\<rparr>"

text \<open>Thread 7 gets a message at address 4096, and the processing thread receives it.\<close>

definition sample_notified :: nq_run where
  "sample_notified = sample_run\<lparr>nq := the (on_message_notification 7 4096 ''body'' (nq sample_run)),
     accepted := (accepted sample_run)(7 := [''body''])\<rparr>"

lemma sample_notified_nq:
  "on_message_notification 7 4096 ''body'' (nq sample_run) = Some (nq sample_notified)"
  "notify_push (nq sample_notified) = [(7, 0)]" "pipes (nq sample_notified) = [[push_cmd 4096]]"
  "heap (nq sample_notified) = [4096 \<mapsto> ''body'']" "proc (nq sample_notified) = []"
  "nq_blocking (nq sample_notified) = False" "running (nq sample_notified)"
  by (simp_all add: sample_notified_def sample_run_def on_message_notification_def notify_push_sock_def sock_send_def)

lemma sample_notified_reach: "reach nq_init nq_step sample_notified"
proof (rule reach_step)
  show "reach nq_init nq_step sample_run"
    by (rule reach_init) (auto simp: nq_init_def sample_run_def)
  have "nq_step sample_run (sample_run\<lparr>nq := nq sample_notified, accepted := (accepted sample_run)(7 := accepted sample_run 7 @ [''body''])\<rparr>)"
    by (rule nq_step.notify [where a = 4096], simp add: sample_run_def, rule sample_notified_nq)
  moreover have "accepted sample_run 7 = []" by (simp add: sample_run_def)
  ultimately show "nq_step sample_run sample_notified"
    by (simp add: sample_notified_def)
qed

theorem notifications_delivered_once_witness:
  "reach nq_init nq_step sample_notified \<and> distinct (proc (nq sample_notified) @ in_flight (nq sample_notified)) \<and>
   accepted sample_notified 7 = came_from 7 (arrivals sample_notified) @ waiting (nq sample_notified) 7"
  using notifications_delivered_once [OF sample_notified_reach] sample_notified_reach by (simp add: Let_def)

theorem raw_recv_refines_witness:
  "\<exists>q'. raw_recv_step (Some (push_cmd 4096)) ((nq sample_notified)\<lparr>pipes := [[]]\<rparr>) = (Raw_Continue, q') \<and>
     abs_receiver q' = \<lparr>blocking = False, process = [''body'']\<rparr>"
proof -
  let ?q = "(nq sample_notified)\<lparr>pipes := [[]]\<rparr>"
  obtain act q' where st: "raw_recv_step (Some (push_cmd 4096)) ?q = (act, q')" by (metis prod.exhaust)
  have len: "push_cmd 4096 \<noteq> ''QUIT''" by (metis push_cmd_simps(1,2))
  have "(let (a, rc) = recv_step (map_option (decode_cmd (heap ?q)) (Some (push_cmd 4096))) (abs_receiver (nq sample_notified)) in
      act = conc_action a \<and> (if a = Quit then \<not> running q' \<and> proc q' = [] else rc = abs_receiver q'))"
    by (rule raw_recv_refines [OF sample_notified_reach st])
      (use sample_notified_nq in \<open>auto intro!: exI [of _ 7] exI [of _ 0]\<close>)
  then show ?thesis
    using st len by (simp add: sample_notified_nq decode_cmd_def abs_receiver_def recv_step_def MAX_BATCH_def Let_def)
qed


section \<open>Two remarks on the code\<close>

text \<open>The assignment in \<^verbatim>\<open>notify_push_sock\<close> never records the object, so its thread-local cache is never used.\<close>

lemma notify_push_sock_never_caches: "notify_push_sock t q = Some (s, q') \<Longrightarrow> last_id q' = last_id q"
  by (auto simp: notify_push_sock_def Let_def split: if_splits option.splits)

text \<open>
  The stop command goes through the socket of the thread that stops the server and may overtake the
  notifications in other sockets; their messages then stay allocated.
\<close>

lemma stop_overtakes_notifications: "\<exists>r. reach nq_init nq_step r \<and> \<not> running (nq r) \<and> heap (nq r) \<noteq> Map.empty"
proof -
  define q1 where "q1 = the (send_quit 8 (nq sample_notified))"
  have ids: "last_id (nq sample_notified) 8 \<noteq> object_id (nq sample_notified)"
    by (simp add: sample_notified_def sample_run_def on_message_notification_def notify_push_sock_def sock_send_def)
  have q1: "send_quit 8 (nq sample_notified) = Some q1" "notify_push q1 = [(8, 1), (7, 0)]"
    "pipes q1 = [[push_cmd 4096], [''QUIT'']]" "heap q1 = [4096 \<mapsto> ''body'']" "proc q1 = []" "running q1"
    using ids by (simp_all add: q1_def send_quit_def notify_push_sock_def sample_notified_nq sock_send_def)
  let ?r1 = "sample_notified\<lparr>nq := q1\<rparr>"
  have r1: "reach nq_init nq_step ?r1"
    by (rule reach_step [OF sample_notified_reach]) (rule nq_step.stop [OF q1(1)])
  obtain act q2 where q2: "raw_recv_step (Some ''QUIT'') (q1\<lparr>pipes := (pipes q1)[1 := []]\<rparr>) = (act, q2)" by (metis prod.exhaust)
  have "nq_step ?r1 (?r1\<lparr>nq := q2, arrivals := arrivals ?r1 @ record_arrival 8 ''QUIT'' (nq ?r1), handed := handed ?r1 @ handed_by act\<rparr>)"
    by (rule nq_step.receive [where s = 1 and rest = "[]"]) (use q1 q2 in simp_all)
  then have "reach nq_init nq_step (?r1\<lparr>nq := q2, arrivals := arrivals ?r1 @ record_arrival 8 ''QUIT'' (nq ?r1),
      handed := handed ?r1 @ handed_by act\<rparr>)" (is "reach _ _ ?r2")
    by (rule reach_step [OF r1])
  moreover have "\<not> running q2" "heap q2 = heap q1"
    using q2 q1 by (auto simp: raw_recv_step_def delete_all_def)
  ultimately show ?thesis
    using q1(4) by (intro exI [of _ ?r2]) simp
qed

end
