(* ===== verification/PG_Pool.thy ===== *)
theory PG_Pool
  imports Errors
begin

text \<open>
  \<^verbatim>\<open>spns/pg.hpp\<close> and \<^verbatim>\<open>spns/pg.cpp\<close>: the pool of idle database connections and the \<^verbatim>\<open>PGConn\<close>
  wrapper that returns its connection when it is destroyed. A connection is named by the
  number it was opened with; whether it is still open, and whether a new one can be made, is
  the database's answer and a parameter of each call.
\<close>

section \<open>Model\<close>

type_synonym conn = nat

record PGConnPool =
  idle_conns :: "(conn \<times> nanos) list"
  conn_count :: nat
  max_idle_time :: nanos
  max_idle :: int

text \<open>\<^verbatim>\<open>make_conn\<close>: the counter moves before the connection attempt, which may throw.\<close>

definition make_conn :: "bool \<Rightarrow> PGConnPool \<Rightarrow> conn result \<times> PGConnPool" where
  "make_conn reachable p =
     (let p = p\<lparr>conn_count := Suc (conn_count p)\<rparr>
      in if reachable then (Inr (conn_count p), p) else (Inl (sql_error ''connection failed''), p))"

definition pop_conn :: "PGConnPool \<Rightarrow> conn option \<times> PGConnPool" where
  "pop_conn p =
     (if idle_conns p \<noteq> []
      then (Some (fst (last (idle_conns p))), p\<lparr>idle_conns := butlast (idle_conns p)\<rparr>)
      else (None, p))"

text \<open>The two \<^verbatim>\<open>pop_front\<close> loops of \<^verbatim>\<open>clear_idle_conns\<close>.\<close>

fun pop_excess :: "int \<Rightarrow> 'a list \<Rightarrow> 'a list" where
  "pop_excess m [] = []"
| "pop_excess m (x # xs) = (if int (length (x # xs)) > m then pop_excess m xs else x # xs)"

definition clear_idle_conns :: "nanos \<Rightarrow> PGConnPool \<Rightarrow> PGConnPool" where
  "clear_idle_conns now p =
     (let p = (if max_idle p \<ge> 0 then p\<lparr>idle_conns := pop_excess (max_idle p) (idle_conns p)\<rparr> else p)
      in if max_idle_time p > 0
         then let cutoff = now - max_idle_time p
              in p\<lparr>idle_conns := dropWhile (\<lambda>e. snd e < cutoff) (idle_conns p)\<rparr>
         else p)"

text \<open>The loop of \<^verbatim>\<open>get\<close>: dead connections are dropped until a live one or none is found.\<close>

function get_loop :: "(conn \<Rightarrow> bool) \<Rightarrow> PGConnPool \<Rightarrow> conn option \<times> PGConnPool" where
  "get_loop is_open p =
     (case pop_conn p of
        (None, p') \<Rightarrow> (None, p')
      | (Some c, p') \<Rightarrow> if \<not> is_open c then get_loop is_open p' else (Some c, p'))"
  by pat_completeness auto
termination
  by (relation "measure (\<lambda>(is_open, p). length (idle_conns p))")
    (auto simp: pop_conn_def split: if_splits)

declare get_loop.simps [simp del]

definition pool_get :: "(conn \<Rightarrow> bool) \<Rightarrow> bool \<Rightarrow> nanos \<Rightarrow> PGConnPool \<Rightarrow> conn result \<times> PGConnPool" where
  "pool_get is_open reachable now p =
     (case get_loop is_open p of (c, p) \<Rightarrow>
        (let p = clear_idle_conns now p
         in case c of Some c \<Rightarrow> (Inr c, p) | None \<Rightarrow> make_conn reachable p))"

definition pool_release :: "conn \<Rightarrow> nanos \<Rightarrow> PGConnPool \<Rightarrow> PGConnPool" where
  "pool_release c now p = clear_idle_conns now (p\<lparr>idle_conns := idle_conns p @ [(c, now)]\<rparr>)"

text \<open>\<^verbatim>\<open>~PGConn\<close>: the wrapper holds no connection once \<^verbatim>\<open>close()\<close> reset it.\<close>

definition PGConn_close :: "conn option \<Rightarrow> conn option" where
  "PGConn_close c = None"

definition PGConn_destruct :: "conn option \<Rightarrow> nanos \<Rightarrow> PGConnPool \<Rightarrow> PGConnPool" where
  "PGConn_destruct c now p = (case c of Some c \<Rightarrow> pool_release c now p | None \<Rightarrow> p)"

text \<open>The constructor with \<^verbatim>\<open>initial_conns\<close>; the first connection is made even when it is 0.\<close>

fun PGConnPool_fill :: "nat \<Rightarrow> nanos \<Rightarrow> bool \<Rightarrow> PGConnPool \<Rightarrow> PGConnPool result" where
  "PGConnPool_fill 0 now reachable p = Inr p"
| "PGConnPool_fill (Suc n) now reachable p =
     (case make_conn reachable p of
        (Inl e, p') \<Rightarrow> Inl e
      | (Inr c, p') \<Rightarrow> PGConnPool_fill n now reachable (p'\<lparr>idle_conns := idle_conns p' @ [(c, now)]\<rparr>))"

definition PGConnPool_ctor :: "int \<Rightarrow> nanos \<Rightarrow> bool \<Rightarrow> PGConnPool result" where
  "PGConnPool_ctor initial_conns now reachable =
     (let p0 = \<lparr>idle_conns = [], conn_count = 0, max_idle_time = 30 * nanos_per_sec, max_idle = - 1\<rparr>
      in case make_conn reachable p0 of
           (Inl e, p) \<Rightarrow> Inl e
         | (Inr conn0, p) \<Rightarrow>
             if initial_conns > 0
             then PGConnPool_fill (nat (initial_conns - 1)) now reachable
                    (p\<lparr>idle_conns := idle_conns p @ [(conn0, now)]\<rparr>)
             else Inr p)"

section \<open>Idle management\<close>

lemma pop_excess_suffix: "\<exists>pre. xs = pre @ pop_excess m xs"
proof (induction xs)
  case (Cons x xs)
  then obtain pre where "xs = pre @ pop_excess m xs" by blast
  then have "x # xs = (x # pre) @ pop_excess m xs" by simp
  then show ?case by (metis append_Nil pop_excess.simps(2))
qed simp

lemma pop_excess_length: "0 \<le> m \<Longrightarrow> int (length (pop_excess m xs)) \<le> m"
  by (induction xs) auto

lemma clear_idle_suffix: "\<exists>pre. idle_conns p = pre @ idle_conns (clear_idle_conns now p)"
proof -
  have "\<exists>pre. xs = pre @ dropWhile P (pop_excess m xs)" for xs :: "(conn \<times> nanos) list" and m P
  proof -
    obtain pre where "xs = pre @ pop_excess m xs" using pop_excess_suffix by blast
    also have "\<dots> = (pre @ takeWhile P (pop_excess m xs)) @ dropWhile P (pop_excess m xs)" by simp
    finally show ?thesis by blast
  qed
  moreover have "\<exists>pre. xs = pre @ dropWhile P xs" for xs :: "(conn \<times> nanos) list" and P
    by (metis takeWhile_dropWhile_id)
  ultimately show ?thesis
    using pop_excess_suffix [of "idle_conns p" "max_idle p"]
    by (auto simp: clear_idle_conns_def Let_def)
qed

lemma clear_idle_frame [simp]:
  "conn_count (clear_idle_conns now p) = conn_count p"
  "max_idle (clear_idle_conns now p) = max_idle p"
  "max_idle_time (clear_idle_conns now p) = max_idle_time p"
  by (simp_all add: clear_idle_conns_def Let_def)

text \<open>The queue is ordered by the time its connections were returned, none in the future.\<close>

definition idle_ordered :: "nanos \<Rightarrow> PGConnPool \<Rightarrow> bool" where
  "idle_ordered now p \<longleftrightarrow> sorted (map snd (idle_conns p)) \<and> (\<forall>e \<in> set (idle_conns p). snd e \<le> now)"

lemma idle_ordered_suffix:
  assumes "idle_ordered now p" "idle_conns p = pre @ idle_conns q"
  shows "idle_ordered now q"
  using assms by (auto simp: idle_ordered_def sorted_append)

lemma sorted_dropWhile_all:
  assumes "sorted (map snd xs)" "e \<in> set (dropWhile (\<lambda>e. snd e < c) xs)"
  shows "c \<le> (snd e :: int)"
  using assms by (induction xs) (auto split: if_splits)

text \<open>
  After every clean-up the pool obeys both of its limits: at most \<^verbatim>\<open>max_idle\<close> connections
  remain (when that limit is set), and none has been idle for longer than \<^verbatim>\<open>max_idle_time\<close> (when
  that is set), although only the front of the queue is ever inspected.
\<close>

theorem clear_idle_conns_limits:
  assumes "idle_ordered now p" "clear_idle_conns now p = p'"
  shows "(0 \<le> max_idle p \<longrightarrow> int (length (idle_conns p')) \<le> max_idle p) \<and>
    (0 < max_idle_time p \<longrightarrow> (\<forall>e \<in> set (idle_conns p'). now - snd e \<le> max_idle_time p))"
proof -
  let ?xs = "if max_idle p \<ge> 0 then pop_excess (max_idle p) (idle_conns p) else idle_conns p"
  have "\<exists>pre. idle_conns p = pre @ ?xs"
    using pop_excess_suffix [of "idle_conns p" "max_idle p"] by auto
  then have sorted: "sorted (map snd ?xs)"
    using assms(1) by (auto simp: idle_ordered_def sorted_append dest: arg_cong [where f = "map snd"])
  have eq: "idle_conns p' = (if max_idle_time p > 0
      then dropWhile (\<lambda>e. snd e < now - max_idle_time p) ?xs else ?xs)"
    using assms(2) by (auto simp: clear_idle_conns_def Let_def)
  have "length (idle_conns p') \<le> length ?xs" by (simp add: eq length_dropWhile_le)
  moreover have "0 \<le> max_idle p \<longrightarrow> int (length ?xs) \<le> max_idle p" by (simp add: pop_excess_length)
  ultimately have "0 \<le> max_idle p \<longrightarrow> int (length (idle_conns p')) \<le> max_idle p" by linarith
  moreover have "now - snd e \<le> max_idle_time p"
    if "0 < max_idle_time p" "e \<in> set (idle_conns p')" for e
    using sorted_dropWhile_all [OF sorted, of e "now - max_idle_time p"] that eq by simp
  ultimately show ?thesis by blast
qed

theorem clear_idle_conns_limits_witness:
  "let p = \<lparr>idle_conns = [(1, 5), (2, 60), (3, 90)], conn_count = 3, max_idle_time = 50, max_idle = 2\<rparr>;
       p' = clear_idle_conns 100 p
   in int (length (idle_conns p')) \<le> 2 \<and> idle_conns p' = [(2, 60), (3, 90)]"
proof -
  define p where "p = \<lparr>idle_conns = [(1, 5), (2, 60), (3, 90)], conn_count = 3, max_idle_time = 50, max_idle = 2\<rparr>"
  have "idle_ordered 100 p" by (simp add: idle_ordered_def p_def)
  from clear_idle_conns_limits [OF this refl] have "int (length (idle_conns (clear_idle_conns 100 p))) \<le> 2"
    by (simp add: p_def)
  moreover have "idle_conns (clear_idle_conns 100 p) = [(2, 60), (3, 90)]"
    by (simp add: p_def clear_idle_conns_def)
  ultimately show ?thesis by (simp add: p_def)
qed

section \<open>What a caller receives\<close>

lemma get_loop_spec:
  "get_loop is_open p = (c, p') \<Longrightarrow>
     \<exists>rest. p' = p\<lparr>idle_conns := rest\<rparr> \<and>
       (case c of
          None \<Rightarrow> rest = [] \<and> (\<forall>e \<in> set (idle_conns p). \<not> is_open (fst e))
        | Some c \<Rightarrow> is_open c \<and>
            (\<exists>t dead. idle_conns p = rest @ (c, t) # dead \<and> (\<forall>e \<in> set dead. \<not> is_open (fst e))))"
proof (induction is_open p arbitrary: c p' rule: get_loop.induct)
  case (1 is_open p)
  note eq = get_loop.simps [of is_open p]
  show ?case
  proof (cases "idle_conns p = []")
    case True
    with "1.prems" eq show ?thesis by (auto simp: pop_conn_def intro: exI [of _ "[]"])
  next
    case False
    then obtain pre d t where p: "idle_conns p = pre @ [(d, t)]"
      by (metis append_butlast_last_id surj_pair)
    let ?q = "p\<lparr>idle_conns := pre\<rparr>"
    have pop: "pop_conn p = (Some d, ?q)" using p by (simp add: pop_conn_def)
    show ?thesis
    proof (cases "is_open d")
      case True
      with "1.prems" eq pop p show ?thesis by (auto intro!: exI [of _ pre])
    next
      case False
      with "1.prems" eq pop have "get_loop is_open ?q = (c, p')" by simp
      from "1.IH" [OF pop [symmetric] refl False this] show ?thesis
        using p False by (fastforce split: option.splits)
    qed
  qed
qed

text \<open>
  \<^verbatim>\<open>get\<close> hands out the most recently returned connection that is still open, after dropping
  the dead ones behind it, and opens a new one only when no idle connection is alive; it never
  hands out a dead connection.
\<close>

theorem pool_get_live:
  assumes "pool_get is_open reachable now p = (Inr c, p')"
  shows "(is_open c \<and> (\<exists>older t dead. idle_conns p = older @ (c, t) # dead \<and>
            (\<forall>e \<in> set dead. \<not> is_open (fst e)))) \<or>
    (c = Suc (conn_count p) \<and> reachable \<and> (\<forall>e \<in> set (idle_conns p). \<not> is_open (fst e)))"
proof -
  obtain d q where loop: "get_loop is_open p = (d, q)" by fastforce
  show ?thesis
  proof (cases d)
    case None
    with loop assms get_loop_spec [OF loop] show ?thesis
      by (auto simp: pool_get_def make_conn_def Let_def split: if_splits)
  next
    case (Some x)
    with loop assms get_loop_spec [OF loop] show ?thesis
      by (auto simp: pool_get_def Let_def)
  qed
qed

definition sample_pool :: PGConnPool where
  "sample_pool = \<lparr>idle_conns = [(1, 5), (2, 60), (3, 90)], conn_count = 3, max_idle_time = 0, max_idle = - 1\<rparr>"

theorem pool_get_live_witness:
  "fst (pool_get (\<lambda>c. c \<noteq> 3) True 100 sample_pool) = Inr 2 \<and>
   (\<exists>older t dead. idle_conns sample_pool = older @ (2, t) # dead)"
proof -
  have "fst (pool_get (\<lambda>c. c \<noteq> 3) True 100 sample_pool) = Inr 2" by code_simp
  moreover from this obtain q where "pool_get (\<lambda>c. c \<noteq> 3) True 100 sample_pool = (Inr 2, q)"
    by (metis prod.collapse)
  from pool_get_live [OF this] have "\<exists>older t dead. idle_conns sample_pool = older @ (2, t) # dead"
    by (auto simp: sample_pool_def)
  ultimately show ?thesis by blast
qed

section \<open>Ownership\<close>

text \<open>
  The pool with its callers: any number of wrappers, each holding the connection it got, the
  database's answers and the passing of time arbitrary.
\<close>

record pool_sys =
  the_pool :: PGConnPool
  in_use :: "conn list"
  clock :: nanos

definition pool_init :: "pool_sys \<Rightarrow> bool" where
  "pool_init s \<longleftrightarrow> in_use s = [] \<and> (\<exists>n. PGConnPool_ctor n (clock s) True = Inr (the_pool s))"

inductive pool_step :: "pool_sys \<Rightarrow> pool_sys \<Rightarrow> bool" where
  got: "pool_get is_open reachable (clock s) (the_pool s) = (Inr c, p) \<Longrightarrow>
     pool_step s (s\<lparr>the_pool := p, in_use := c # in_use s\<rparr>)"
| got_error: "pool_get is_open reachable (clock s) (the_pool s) = (Inl e, p) \<Longrightarrow>
     pool_step s (s\<lparr>the_pool := p\<rparr>)"
| destructed: "c \<in> set (in_use s) \<Longrightarrow>
     pool_step s (s\<lparr>the_pool := PGConn_destruct (Some c) (clock s) (the_pool s), in_use := remove1 c (in_use s)\<rparr>)"
| closed: "c \<in> set (in_use s) \<Longrightarrow>
     pool_step s (s\<lparr>the_pool := PGConn_destruct (PGConn_close (Some c)) (clock s) (the_pool s),
       in_use := remove1 c (in_use s)\<rparr>)"
| cleared: "pool_step s (s\<lparr>the_pool := clear_idle_conns (clock s) (the_pool s)\<rparr>)"
| elapsed: "clock s \<le> t \<Longrightarrow> pool_step s (s\<lparr>clock := t\<rparr>)"

text \<open>
  The invariant over its plain components: the connections held and idle are pairwise distinct,
  none newer than the counter, and the idle queue is ordered by time.
\<close>

definition pool_ok :: "conn list \<Rightarrow> (conn \<times> nanos) list \<Rightarrow> nat \<Rightarrow> nanos \<Rightarrow> bool" where
  "pool_ok used idle n now \<longleftrightarrow>
     distinct (used @ map fst idle) \<and> (\<forall>c \<in> set used. c \<le> n) \<and>
     sorted (map snd idle) \<and> (\<forall>(c, t) \<in> set idle. c \<le> n \<and> t \<le> now)"

definition pool_inv :: "pool_sys \<Rightarrow> bool" where
  "pool_inv s \<longleftrightarrow>
     pool_ok (in_use s) (idle_conns (the_pool s)) (conn_count (the_pool s)) (clock s)"

lemma pool_ok_drop: "pool_ok u (pre @ idle) n now \<Longrightarrow> pool_ok u idle n now"
  by (auto simp: pool_ok_def sorted_append)

lemma pool_ok_take: "pool_ok u (idle @ (c, t) # dead) n now \<Longrightarrow> pool_ok (c # u) idle n now"
  by (auto simp: pool_ok_def sorted_append)

lemma pool_ok_count: "pool_ok u idle n now \<Longrightarrow> pool_ok u idle (Suc n) now"
  by (fastforce simp: pool_ok_def)

lemma pool_ok_new: "pool_ok u idle n now \<Longrightarrow> pool_ok (Suc n # u) idle (Suc n) now"
  by (fastforce simp: pool_ok_def)

lemma pool_ok_close: "pool_ok u idle n now \<Longrightarrow> pool_ok (remove1 c u) idle n now"
  by (auto simp: pool_ok_def dest: notin_set_remove1)

lemma pool_ok_return:
  "pool_ok u idle n now \<Longrightarrow> c \<in> set u \<Longrightarrow> pool_ok (remove1 c u) (idle @ [(c, now)]) n now"
  by (auto simp: pool_ok_def sorted_append dest: notin_set_remove1)

lemma pool_ok_later: "pool_ok u idle n now \<Longrightarrow> now \<le> t \<Longrightarrow> pool_ok u idle n t"
  by (fastforce simp: pool_ok_def)

lemma pool_ok_clear:
  "pool_ok u (idle_conns p) n now \<Longrightarrow> pool_ok u (idle_conns (clear_idle_conns t p)) n now"
  using clear_idle_suffix [of p t] by (metis pool_ok_drop)

lemma pool_ok_get:
  assumes ok: "pool_ok u (idle_conns p) (conn_count p) now"
    and get: "pool_get is_open reachable now p = (r, p')"
  shows "pool_ok (case r of Inl _ \<Rightarrow> u | Inr c \<Rightarrow> c # u) (idle_conns p') (conn_count p') now"
proof -
  obtain d q where loop: "get_loop is_open p = (d, q)" by fastforce
  obtain rest where q: "q = p\<lparr>idle_conns := rest\<rparr>"
    and d: "case d of None \<Rightarrow> rest = [] | Some c \<Rightarrow> \<exists>t dead. idle_conns p = rest @ (c, t) # dead"
    using get_loop_spec [OF loop] by (cases d) auto
  show ?thesis
  proof (cases d)
    case None
    then have "rest = []" using d by simp
    then have "pool_ok u (idle_conns q) (conn_count p) now"
      using ok pool_ok_drop [of u "idle_conns p" "[]"] by (simp add: q)
    from pool_ok_clear [OF this, of now] show ?thesis
      using None loop get
      by (auto simp: pool_get_def make_conn_def Let_def q pool_ok_count pool_ok_new split: if_splits)
  next
    case (Some c)
    then have "pool_ok (c # u) (idle_conns q) (conn_count p) now"
      using d ok by (auto simp: q dest: pool_ok_take)
    from pool_ok_clear [OF this, of now] show ?thesis
      using Some loop get by (auto simp: pool_get_def Let_def q)
  qed
qed

lemma fill_ok:
  "PGConnPool_fill n now True p = Inr q \<Longrightarrow> pool_ok [] (idle_conns p) (conn_count p) now \<Longrightarrow>
     pool_ok [] (idle_conns q) (conn_count q) now"
proof (induction n arbitrary: p)
  case (Suc n)
  from pool_ok_return [OF pool_ok_new [OF Suc.prems(2)], of "Suc (conn_count p)"]
  have "pool_ok [] (idle_conns p @ [(Suc (conn_count p), now)]) (Suc (conn_count p)) now" by simp
  with Suc show ?case by (simp add: make_conn_def Let_def)
qed simp

lemma pool_init_inv: "pool_init s \<Longrightarrow> pool_inv s"
proof -
  assume "pool_init s"
  then obtain n where n: "PGConnPool_ctor n (clock s) True = Inr (the_pool s)" and u: "in_use s = []"
    by (auto simp: pool_init_def)
  show ?thesis
  proof (cases "n > 0")
    case True
    let ?p = "\<lparr>idle_conns = [(1, clock s)], conn_count = 1, max_idle_time = 30 * nanos_per_sec, max_idle = - 1\<rparr>"
    have "PGConnPool_fill (nat (n - 1)) (clock s) True ?p = Inr (the_pool s)"
      using n True by (simp add: PGConnPool_ctor_def make_conn_def Let_def)
    from fill_ok [OF this] u show ?thesis by (simp add: pool_inv_def pool_ok_def)
  next
    case False
    with n have "the_pool s = \<lparr>idle_conns = [], conn_count = 1, max_idle_time = 30 * nanos_per_sec, max_idle = - 1\<rparr>"
      by (simp add: PGConnPool_ctor_def make_conn_def Let_def)
    with u show ?thesis by (simp add: pool_inv_def pool_ok_def)
  qed
qed

interpretation pool: transition_system pool_init pool_step pool_inv
proof
  show "pool_inv s" if "pool_init s" for s using that by (rule pool_init_inv)
next
  fix s t assume inv: "pool_inv s" and "pool_step s t"
  from this(2) show "pool_inv t"
  proof cases
    case (got is_open reachable c p)
    then show ?thesis
      using pool_ok_get [OF inv [unfolded pool_inv_def] got(2)] by (simp add: pool_inv_def)
  next
    case (got_error is_open reachable e p)
    then show ?thesis
      using pool_ok_get [OF inv [unfolded pool_inv_def] got_error(2)] by (simp add: pool_inv_def)
  next
    case (destructed c)
    from pool_ok_return [OF inv [unfolded pool_inv_def] destructed(2)]
    have "pool_ok (remove1 c (in_use s))
        (idle_conns ((the_pool s)\<lparr>idle_conns := idle_conns (the_pool s) @ [(c, clock s)]\<rparr>))
        (conn_count (the_pool s)) (clock s)" by simp
    from pool_ok_clear [OF this, of "clock s"] show ?thesis
      by (simp add: destructed(1) pool_inv_def PGConn_destruct_def pool_release_def)
  next
    case (closed c)
    then show ?thesis
      using inv by (simp add: pool_inv_def PGConn_destruct_def PGConn_close_def pool_ok_close)
  next
    case cleared
    then show ?thesis using inv by (simp add: pool_inv_def pool_ok_clear)
  next
    case (elapsed t')
    then show ?thesis using inv by (simp add: pool_inv_def pool_ok_later)
  qed
qed

text \<open>
  C39. In every reachable state each connection has one owner: no connection is held by two
  callers, or held by a caller and idle in the pool at once.
\<close>

theorem pool_exclusive:
  assumes "reach pool_init pool_step s"
  shows "distinct (in_use s @ map fst (idle_conns (the_pool s)))"
  using pool.reach_invar [OF assms] by (simp add: pool_inv_def pool_ok_def)

theorem pool_exclusive_witness:
  "\<exists>s. reach pool_init pool_step s \<and> in_use s = [2] \<and> distinct (in_use s @ map fst (idle_conns (the_pool s)))"
proof -
  define p where "p = \<lparr>idle_conns = [], conn_count = 1, max_idle_time = 30 * nanos_per_sec, max_idle = - 1\<rparr>"
  define s where "s = \<lparr>the_pool = p, in_use = [], clock = 0\<rparr>"
  have "pool_init s"
    by (auto simp: pool_init_def s_def p_def PGConnPool_ctor_def make_conn_def intro: exI [of _ 0])
  moreover have "get_loop (\<lambda>_. True) p = (None, p)"
    by (subst get_loop.simps) (simp add: pop_conn_def p_def)
  then have "pool_get (\<lambda>_. True) True 0 p = (Inr 2, p\<lparr>conn_count := 2\<rparr>)"
    by (simp add: pool_get_def clear_idle_conns_def make_conn_def p_def)
  ultimately have r: "reach pool_init pool_step (s\<lparr>the_pool := p\<lparr>conn_count := 2\<rparr>, in_use := 2 # in_use s\<rparr>)"
    (is "reach _ _ ?t")
    using got [of "\<lambda>_. True" True s 2 "p\<lparr>conn_count := 2\<rparr>"]
    by (auto simp: s_def intro: reach_init reach_step)
  from r pool_exclusive [OF r] show ?thesis by (intro exI [of _ ?t]) (simp add: s_def p_def)
qed

end
