(* ===== verification/Spec2Isabelle.thy ===== *)
theory Spec2Isabelle
  imports Service Deferred_Memory Bindings Notify_Queue PG_Pool
begin

text \<open>
  A verification of the C++ core of the Session push notification server (\<^verbatim>\<open>src/spns\<close>).

  \<^bold>\<open>The program.\<close> Clients subscribe devices to accounts of the Session network. \<^verbatim>\<open>HiveMind\<close> (\<^verbatim>\<open>hivemind.cpp\<close>)
  checks each request, asks the notifier service (APNS, Firebase, ...) it names to validate it, stores the
  subscription in PostgreSQL and in memory, and monitors the account on all service nodes of the
  account's swarm through one \<^verbatim>\<open>SNode\<close> object per node (\<^verbatim>\<open>hive/snode.cpp\<close>). The nodes report new messages;
  \<^verbatim>\<open>HiveMind\<close> looks up the devices subscribed to the account and namespace, drops duplicates (every node
  of the swarm reports the same message) and sends a push to the device's notifier.

  \<^bold>\<open>The theories,\<close> in the order of their imports.

  \<^descr> \<^theory_text>\<open>Prelude\<close>: result type for exceptions, machine arithmetic, association lists, the reachable
    states of a step relation and the locale \<open>transition_system\<close>, whose invariant lemma is used through
    the interpretations \<open>pool\<close>, \<open>network\<close>, \<open>request\<close>, \<open>server\<close>, \<open>startup\<close>, \<open>pushes\<close>,
    \<open>queue\<close>, \<open>sys\<close> and \<open>spec\<close>; the locale \<open>simulation\<close> extends it by an abstract machine that the
    steps of the concrete one are steps of (interpretations \<open>server_service\<close> and \<open>deferred_memory\<close>).
  \<^descr> \<^theory_text>\<open>Utils\<close> (\<^verbatim>\<open>utils.hpp\<close>, \<^verbatim>\<open>utils.cpp\<close>): string splitting, integer parsing and printing. Printing and
    parsing, splitting and joining are inverse.
  \<^descr> \<^theory_text>\<open>Errors\<close> (\<^verbatim>\<open>hive/subscription.hpp\<close>): reply codes and exceptions.
  \<^descr> \<^theory_text>\<open>Bytes\<close> (\<^verbatim>\<open>bytes.hpp\<close>, \<^verbatim>\<open>blake2b.hpp\<close>): key types, \<^verbatim>\<open>from_hex_or_b64\<close>, hashing; the libraries oxenc and
    libsodium as records of functions. \<^theory_text>\<open>Sample_Libs\<close> instantiates them for the witnesses.
  \<^descr> \<^theory_text>\<open>Swarm_Pubkey\<close> (\<^verbatim>\<open>swarmpubkey.cpp\<close>): accounts and their swarm, on 64-bit words; the binary search with
    wrap-around finds a swarm at minimal ring distance.
  \<^descr> \<^theory_text>\<open>Signature\<close>, \<^theory_text>\<open>Subscription\<close> (\<^verbatim>\<open>hive/signature.cpp\<close>, \<^verbatim>\<open>hive/subscription.cpp\<close>): exactly the authorized, fresh and
    well-formed requests are accepted; the signed text is unambiguous; \<^verbatim>\<open>covers\<close> decides inclusion.
  \<^descr> \<^theory_text>\<open>Database\<close>: the tables of \<^verbatim>\<open>schema.pgsql\<close> as lists of rows with the schema's constraints, every statement
    of \<^verbatim>\<open>hivemind.cpp\<close> on them, and the refinement of the abstract map from (account, service, device) to
    subscriptions. The locale \<open>sub_store\<close> states what the transactions promise.
  \<^descr> \<^theory_text>\<open>PG_Pool\<close> (\<^verbatim>\<open>pg.cpp\<close>): the connection pool as a state machine; connections have one owner.
  \<^descr> \<^theory_text>\<open>SNode\<close> (\<^verbatim>\<open>hive/snode.cpp\<close>): one node's connection, cool-down and re-subscription queue.
  \<^descr> \<^theory_text>\<open>Json_Lib\<close>: the JSON library as a record of functions.
  \<^descr> \<^theory_text>\<open>Network\<close>: the nodes, swarms and subscribers of \<^verbatim>\<open>HiveMind\<close>, the processing of a service node list,
    and the invariant of everything that runs on its loop.
  \<^descr> \<^theory_text>\<open>Subscriptions\<close>: \<^verbatim>\<open>add_subscription\<close>, \<^verbatim>\<open>remove_subscription\<close> and \<^verbatim>\<open>load_saved_subscriptions\<close> on the state
    \<open>HiveMind\<close> (database, network, registered services).
  \<^descr> \<^theory_text>\<open>Requests\<close>: subscribe and unsubscribe requests from the message to the answer. Three state machines:
    the items of one request (\<open>batch_step\<close>: one answer, after the last item, in any order of
    replies), the server's database (\<open>server_step\<close>: only authorized subscriptions are stored), and the
    deferral of requests during start-up (\<open>startup_step\<close>: every request is handled exactly once).
  \<^descr> \<^theory_text>\<open>Deferred_Memory\<close>: the deferral of requests again, on an explicit memory: views into a received message,
    the strings \<^verbatim>\<open>DeferredRequest\<close> copies them to, vector buffers that move when they grow. It refines
    \<open>startup_step\<close>; no view dangles and no text is lost or leaked.
  \<^descr> \<^theory_text>\<open>Notifications\<close>: the notification thread. No duplicate push within the filter's lifetime, exactly the
    subscribed devices are pushed, every push fits its buffer, no received message is lost in batching.
  \<^descr> \<^theory_text>\<open>Statistics\<close>: notifier statistics, dropped registrations, the report and the status line.
  \<^descr> \<^theory_text>\<open>Notify_Queue\<close>: how a notification gets from the thread that received it to the notification thread,
    on raw commands and heap addresses. In every interleaving each message has one owner, none is
    lost or read after its deletion, threads do not share sockets; the receive loop refines the one
    of \<^theory_text>\<open>Notifications\<close>.
  \<^descr> \<^theory_text>\<open>Lifecycle\<close> (with \<^verbatim>\<open>config.hpp\<close>): configuration, endpoints, start-up and shutdown. Start-up ends, with
    one of its errors or with a ready server that has handled all deferred requests.
  \<^descr> \<^theory_text>\<open>Commands\<close>: the OxenMQ commands and their access levels; only administrators change the state by a
    command.
  \<^descr> \<^theory_text>\<open>System\<close>: the whole server as one state machine (\<open>system_step\<close>): client requests, answers of the notifiers,
    commands, batches of notifications, the events of the network loop, the clean-up, and crashes
    followed by a restart on the same database. Its invariant \<open>system_ok\<close> makes the conditions of the
    component theorems hold in every state: stored values have the types of their columns, memory
    serves what the database holds, a restart always succeeds and restores the memory, nodes
    monitor the stored accounts, and a notification is pushed to exactly the stored devices.
  \<^descr> \<^theory_text>\<open>Service\<close>: what the server is for, as a machine with three parts (the subscriptions, the registered
    notifiers, the pushes sent) and four steps (accept a subscription its account signed, forget
    subscriptions, change the registry, push a message to a subscribed device). \<open>system_step\<close> refines it, so
    every push of the whole server goes back to a signature of the account, and a device that is
    not subscribed stays so until it subscribes again.
  \<^descr> \<^theory_text>\<open>Bindings\<close> (\<^verbatim>\<open>pybind.cpp\<close>, \<^verbatim>\<open>main.cpp\<close>): values to Python and back, the configuration object and its attributes,
    the program's exit codes.
  \<^descr> This theory: from an accepted subscription to the push it causes.

  \<^bold>\<open>State and effects.\<close> Handlers are functions from the state to the new state and their output
  (replies, requests to nodes and notifiers, pushes). An exception is the \<open>Inl\<close> of a sum; where the
  code catches it, so does the model. Clock readings, random numbers and the iteration order of hash
  tables are arguments, so the theorems hold for all of them. Interleavings of threads and callbacks
  are the step relations named above.

  \<^bold>\<open>Fuel.\<close> Loops over library consumers take the number of elements left as fuel, and every
  iteration consumes one (\<open>consume_all_total\<close>); the wait for notifiers takes the number of 25 ms polls
  that fit in the wait, plus two (\<open>wait_loop_enough\<close>). All other recursions terminate by
  themselves.

  \<^bold>\<open>Parameters.\<close> oxenc (hex, base64 and bt encoding), libsodium, nlohmann::json, the QUIC and OxenMQ address types,
  pybind11's casters and the random generator are arguments. What is assumed of them is named: \<open>oxenc_documented\<close>,
  \<open>json_documented\<close>, \<open>parse_documented\<close>, \<open>bt_reads_documented\<close>, \<open>bt_sizes_documented\<close>,
  \<open>omq_access_documented\<close>, \<open>address_text_documented\<close>, \<open>py_documented\<close>; each is shown to hold for a concrete instance.

  \<^bold>\<open>Not modelled.\<close> Opening sockets and starting timers (calls into OxenMQ, ZeroMQ and libquic, which are
  not part of the repository; a ZeroMQ socket is the pipe of what was sent and not yet received),
  libpqxx beyond the statements (that it could refuse a value whose size does not fit its C++ type does not
  matter: \<^theory_text>\<open>System\<close> shows that none is ever stored), the formatters of \<^verbatim>\<open>bytes.hpp\<close> and \<^verbatim>\<open>hive/snode.hpp\<close>, pybind11's own
  casters and the log level setter of \<^verbatim>\<open>pybind.cpp\<close>, the disabled alternative (\<^verbatim>\<open>#if 0\<close>) in
  \<^verbatim>\<open>on_sns_response\<close>, the thread counts and the log lines of \<^verbatim>\<open>HiveMind\<close>'s constructor, and the Python services. Failing allocations and failing JSON output are not
  modelled either.
\<close>

section \<open>From a subscription to a push\<close>

text \<open>A notifier's answer that was accepted, as the response reports it.\<close>

lemma accepted_effect:
  assumes "db_ok (db hm)" "pending_wf p"
    and "validation_response ox sod J nowa nowb p success data hm = (members, hm')" "map_of members ''success'' \<noteq> None"
  shows "db_ok (db hm') \<and>
    action_effect ox sod nowa nowb p (data ! 1) (if length data = 3 then Some (data ! 2) else None) (db hm) (db hm')"
proof (cases "validation_result ox sod J nowa nowb p success data hm")
  case (Inl e)
  with assms(3,4) validation_result_error [OF Inl] show ?thesis
    by (auto simp: validation_response_def)
next
  case (Inr x)
  obtain code msg extra hm1 where x: "x = (code, msg, extra, hm1)" by (metis prod.exhaust)
  have ex: "map_of extra ''success'' = None"
    using validation_result_extra Inr unfolding x by blast
  then have "code = 0" "hm' = hm1"
    using assms(3,4) Inr x by (auto simp: validation_response_def map_add_def split: if_splits)
  with validation_result_state [OF assms(1,2) Inr [unfolded x]] show ?thesis by simp
qed

lemma due_pushes_mem:
  assumes "row \<in> set rows" "filter_val sod n row \<notin> seen" "map_of svcs (fst (snd (snd row))) = Some cid"
  shows "(now, filter_val sod n row, cid, bt_encode B (push_dict n row)) \<in> set (due_pushes B sod svcs now n seen rows)"
  using assms unfolding set_due_pushes by blast


section \<open>Witness\<close>


end
